(* ===== verification/Zprelude.thy ===== *)
theory Zprelude
  imports Main "HOL-Library.Word"
begin

text \<open>
  Shared vocabulary of the development: the machine types the kernel sources use, the error
  numbers and results of kernel calls, flag words, and the generic facts on lists that the
  component theories rely on.
\<close>

unbundle bit_operations_syntax

subsection \<open>Machine types\<close>

type_synonym u8 = "8 word"
type_synonym u16 = "16 word"
type_synonym u32 = "32 word"
type_synonym u64 = "64 word"

text \<open>Addresses of nodes and objects; \<open>0\<close> is \<^verbatim>\<open>NULL\<close>.\<close>

type_synonym addr = nat

abbreviation (input) NULL :: addr where
  "NULL \<equiv> 0"

text \<open>Storing a C \<^verbatim>\<open>int\<close> into an \<^verbatim>\<open>int8_t\<close> field keeps the low eight bits, read as signed.\<close>

definition to_int8 :: "int \<Rightarrow> int" where
  "to_int8 p = signed_take_bit 7 p"

subsection \<open>Results of kernel calls\<close>

text \<open>
  A kernel call returns \<open>Inl e\<close> for \<^verbatim>\<open>-e\<close> and \<open>Inr n\<close> for a non-negative result.  A call that
  may sleep yields \<open>Done\<close> with its result, or \<open>Blocked\<close> when the calling thread was switched out;
  its result is then the thread's \<^verbatim>\<open>swap_retval\<close> at the time it runs again.
\<close>

datatype errno =
  EINVAL | EBUSY | EAGAIN | EPERM | ENOMEM | ENOMSG | EDEADLK | ENOSPC | EFAULT | EIO
  | ECANCELED | ERANGE | EALREADY | ENOTSUP | ETIMEDOUT | ENOENT

type_synonym retval = "errno + int"

datatype 'a outcome = Done 'a | Blocked

abbreviation ret_ok :: retval where
  "ret_ok \<equiv> Inr 0"

subsection \<open>Proof collections\<close>

named_theorems flag_simps \<open>evaluation of tests on flag words after setting or clearing bits\<close>
named_theorems inv_intros \<open>preservation of component invariants\<close>
named_theorems frame \<open>fields an operation leaves alone\<close>

subsection \<open>Flag words\<close>

lemma flag_or [flag_simps]:
  fixes w f g :: "'a::len word"
  shows "(w OR f) AND g = (w AND g) OR (f AND g)"
  by (rule bit_word_eqI) (auto simp: bit_simps)

lemma flag_andn [flag_simps]:
  fixes w f g :: "'a::len word"
  shows "(w AND NOT f) AND g = w AND (NOT f AND g)"
  by (simp add: and.assoc)

lemma or_zero_iff [flag_simps]:
  fixes a b :: "'a::len word"
  shows "a OR b = 0 \<longleftrightarrow> a = 0 \<and> b = 0"
  by (rule or_eq_0_iff)

lemma and_submask_zero:
  fixes w m f :: "'a::len word"
  assumes "w AND m = 0" and "f AND m = f"
  shows "w AND f = 0"
proof -
  have "w AND f = (w AND m) AND f"
    using assms(2) by (metis and.assoc and.commute)
  then show ?thesis
    using assms(1) by simp
qed

subsection \<open>Lists sorted by a key\<close>

text \<open>Insertion after every element whose key is not greater: the shape of the priority queues.\<close>

fun insert_after :: "('a \<Rightarrow> 'k::linorder) \<Rightarrow> 'a \<Rightarrow> 'a list \<Rightarrow> 'a list" where
  "insert_after f x [] = [x]"
| "insert_after f x (y # ys) = (if f x < f y then x # y # ys else y # insert_after f x ys)"

lemma set_insert_after [simp]: "set (insert_after f x xs) = insert x (set xs)"
  by (induction xs) auto

lemma distinct_insert_after [simp]:
  "distinct (insert_after f x xs) \<longleftrightarrow> x \<notin> set xs \<and> distinct xs"
  by (induction xs) auto

lemma length_insert_after [simp]: "length (insert_after f x xs) = Suc (length xs)"
  by (induction xs) auto

lemma sorted_insert_after [simp]:
  "sorted (map f (insert_after f x xs)) \<longleftrightarrow> sorted (map f xs)"
proof (induction xs)
  case (Cons y ys)
  show ?case
  proof (cases "f x < f y")
    case True
    then show ?thesis by auto
  next
    case False
    then show ?thesis using Cons by auto
  qed
qed simp

lemma insert_after_eq:
  "sorted (map f xs) \<Longrightarrow>
   insert_after f x xs = filter (\<lambda>y. f y \<le> f x) xs @ x # filter (\<lambda>y. f x < f y) xs"
proof (induction xs)
  case (Cons y ys)
  show ?case
  proof (cases "f x < f y")
    case True
    with Cons.prems have "\<forall>z \<in> set ys. f x < f z" by auto
    then have "filter (\<lambda>z. f z \<le> f x) ys = []" and "filter (\<lambda>z. f x < f z) ys = ys"
      by (auto simp: filter_empty_conv not_le)
    with True show ?thesis by simp
  next
    case False
    with Cons show ?thesis by auto
  qed
qed simp

lemma insert_after_cong:
  "(\<And>y. y \<in> insert x (set xs) \<Longrightarrow> f y = g y) \<Longrightarrow> insert_after f x xs = insert_after g x xs"
  by (induction xs) auto

lemma in_set_tlD: "x \<in> set (tl xs) \<Longrightarrow> x \<in> set xs"
  by (cases xs) auto

lemma remove1_mid: "x \<notin> set us \<Longrightarrow> remove1 x (us @ x # vs) = us @ vs"
  by (simp add: remove1_append)

lemma sorted_map_hd_le: "sorted (map f xs) \<Longrightarrow> y \<in> set xs \<Longrightarrow> f (hd xs) \<le> f y"
  by (cases xs) auto

lemma to_int8_id [simp]: "- 128 \<le> p \<Longrightarrow> p < 128 \<Longrightarrow> to_int8 p = p"
  by (simp add: to_int8_def signed_take_bit_int_eq_self)

lemma to_int8_range: "- 128 \<le> to_int8 p \<and> to_int8 p < 128"
  using signed_take_bit_int_greater_eq_minus_exp [of 7 p] signed_take_bit_int_less_exp [of 7 p]
  by (simp add: to_int8_def)

end
