(* ===== verification/Kernel_State.thy ===== *)
theory Kernel_State
  imports Zprelude
begin

text \<open>
  The state shared by the scheduler and the kernel objects: \<^verbatim>\<open>struct k_thread\<close>
  (\<^verbatim>\<open>include/zephyr/kernel/thread.h\<close>), \<^verbatim>\<open>struct z_kernel\<close>
  (\<^verbatim>\<open>include/zephyr/kernel_structs.h\<close>), the static variables of \<^verbatim>\<open>kernel/timeout.c\<close> and
  \<^verbatim>\<open>kernel/timeslicing.c\<close>, and the inline predicates on thread states of
  \<^verbatim>\<open>kernel/include/kthread.h\<close>.  The configuration is the uniprocessor one: \<^verbatim>\<open>CONFIG_SMP=n\<close>,
  \<^verbatim>\<open>CONFIG_SCHED_DUMB\<close>, \<^verbatim>\<open>CONFIG_WAITQ_DUMB\<close>, \<^verbatim>\<open>CONFIG_TIMESLICING=y\<close>, \<^verbatim>\<open>CONFIG_EVENTS=y\<close>,
  \<^verbatim>\<open>CONFIG_USE_SWITCH=y\<close>, \<^verbatim>\<open>CONFIG_TIMEOUT_64BIT=y\<close>, no meta-IRQ priorities, no deadline
  scheduling, no per-thread time slices, no polling and no user mode.

  The queues are kept as sequences of threads; \<^verbatim>\<open>Sys_Dlist\<close> and \<^verbatim>\<open>Prio_Queue\<close> show that the linked
  lists of the sources implement them.  Spin locks only mask interrupts on one processor: the
  interrupt state at the entry of a call is \<open>irq_unlocked\<close>.
\<close>

subsection \<open>Identifiers\<close>

type_synonym tid = addr

text \<open>
  A wait queue is named by the object that embeds it (\<open>ObjQ\<close>, and \<open>ObjQ2\<close> for objects with two),
  or is the \<^verbatim>\<open>join_queue\<close> of a thread; a timeout by the structure that embeds it, which also fixes
  the expiry function it is armed with.
\<close>

datatype wq = ObjQ addr | ObjQ2 addr | JoinQ tid

datatype toid = ThreadTO tid | SliceTO | TimerTO addr | WorkTO addr

text \<open>\<^verbatim>\<open>k_timeout_t\<close>: a relative tick count, \<^verbatim>\<open>K_NO_WAIT\<close>, \<^verbatim>\<open>K_FOREVER\<close>, or below that an absolute one.\<close>

type_synonym k_timeout = int

abbreviation (input) K_NO_WAIT :: k_timeout where "K_NO_WAIT \<equiv> 0"
abbreviation (input) K_FOREVER :: k_timeout where "K_FOREVER \<equiv> - 1"

definition Z_TICK_ABS :: "int \<Rightarrow> int" where
  "Z_TICK_ABS t = - 1 - 1 - t"

definition K_TIMEOUT_ABS_TICKS :: "int \<Rightarrow> k_timeout" where
  "K_TIMEOUT_ABS_TICKS t = Z_TICK_ABS (max t 0)"

subsection \<open>Threads\<close>

abbreviation (input) THREAD_DUMMY :: u8 where "THREAD_DUMMY \<equiv> 1"
abbreviation (input) THREAD_PENDING :: u8 where "THREAD_PENDING \<equiv> 2"
abbreviation (input) THREAD_PRESTART :: u8 where "THREAD_PRESTART \<equiv> 4"
abbreviation (input) THREAD_DEAD :: u8 where "THREAD_DEAD \<equiv> 8"
abbreviation (input) THREAD_SUSPENDED :: u8 where "THREAD_SUSPENDED \<equiv> 16"
abbreviation (input) THREAD_ABORTING :: u8 where "THREAD_ABORTING \<equiv> 32"
abbreviation (input) THREAD_SUSPENDING :: u8 where "THREAD_SUSPENDING \<equiv> 64"
abbreviation (input) THREAD_QUEUED :: u8 where "THREAD_QUEUED \<equiv> 128"

abbreviation (input) PREEMPT_THRESHOLD :: u16 where "PREEMPT_THRESHOLD \<equiv> 0x7f"
abbreviation (input) K_ESSENTIAL :: u8 where "K_ESSENTIAL \<equiv> 1"

record k_thread =
  prio :: int
  sched_locked :: u8
  thread_state :: u8
  user_options :: u8
  pended_on :: "wq option"
  swap_retval :: retval
  swap_data :: addr
  next_event_link :: tid
  t_events :: u32
  event_options :: u32
  no_wake_on_timeout :: bool

text \<open>A structure that holds no thread yet: it counts as one that was never started.\<close>

definition blank_thread :: k_thread where
  "blank_thread = \<lparr>prio = 0, sched_locked = 0, thread_state = THREAD_PRESTART, user_options = 0, pended_on = None,
     swap_retval = ret_ok, swap_data = NULL, next_event_link = NULL, t_events = 0, event_options = 0,
     no_wake_on_timeout = False\<rparr>"

subsection \<open>The kernel\<close>

record kernel =
  threads :: "tid \<Rightarrow> k_thread"
  runq :: "tid list"
  cache :: tid
  current :: tid
  idle_thread :: tid
  in_isr :: bool
  irq_unlocked :: bool
  waitqs :: "wq \<Rightarrow> tid list"
  timeout_list :: "(toid \<times> int) list"
  curr_tick :: int
  announce_remaining :: int
  hw_elapsed :: int
  hw_timeout :: int
  slice_ticks :: int
  slice_max_prio :: int
  slice_expired :: bool
  mem :: "addr \<Rightarrow> u8"

text \<open>
  The zeroed \<^verbatim>\<open>_kernel\<close> at boot, with the initial values of \<^verbatim>\<open>slice_ticks\<close> and \<^verbatim>\<open>slice_max_prio\<close>
  (configuration constants).
\<close>

definition bss_kernel :: "int \<Rightarrow> int \<Rightarrow> kernel" where
  "bss_kernel ticks p = \<lparr>threads = \<lambda>_. blank_thread, runq = [], cache = NULL, current = NULL, idle_thread = NULL,
     in_isr = False, irq_unlocked = False, waitqs = \<lambda>_. [], timeout_list = [], curr_tick = 0,
     announce_remaining = 0, hw_elapsed = 0, hw_timeout = 0, slice_ticks = ticks, slice_max_prio = p,
     slice_expired = False, mem = \<lambda>_. 0\<rparr>"

definition upd_thread :: "tid \<Rightarrow> (k_thread \<Rightarrow> k_thread) \<Rightarrow> 'a kernel_scheme \<Rightarrow> 'a kernel_scheme" where
  "upd_thread t f ks = ks\<lparr>threads := (threads ks)(t := f (threads ks t))\<rparr>"

definition set_state_bits :: "tid \<Rightarrow> u8 \<Rightarrow> 'a kernel_scheme \<Rightarrow> 'a kernel_scheme" where
  "set_state_bits t m = upd_thread t (\<lambda>th. th\<lparr>thread_state := thread_state th OR m\<rparr>)"

definition clear_state_bits :: "tid \<Rightarrow> u8 \<Rightarrow> 'a kernel_scheme \<Rightarrow> 'a kernel_scheme" where
  "clear_state_bits t m = upd_thread t (\<lambda>th. th\<lparr>thread_state := thread_state th AND NOT m\<rparr>)"

definition z_is_thread_state_set :: "'a kernel_scheme \<Rightarrow> tid \<Rightarrow> u8 \<Rightarrow> bool" where
  "z_is_thread_state_set ks t state \<longleftrightarrow> thread_state (threads ks t) AND state \<noteq> 0"

subsection \<open>Thread predicates (kthread.h)\<close>

text \<open>\<^verbatim>\<open>preempt\<close> overlays \<^verbatim>\<open>prio\<close> (low byte) and \<^verbatim>\<open>sched_locked\<close> (high byte).\<close>

definition preempt :: "k_thread \<Rightarrow> u16" where
  "preempt th = push_bit 8 (ucast (sched_locked th)) OR ucast (word_of_int (prio th) :: u8)"

definition thread_is_preemptible :: "'a kernel_scheme \<Rightarrow> tid \<Rightarrow> bool" where
  "thread_is_preemptible ks t \<longleftrightarrow> preempt (threads ks t) \<le> PREEMPT_THRESHOLD"

definition z_is_thread_suspended :: "'a kernel_scheme \<Rightarrow> tid \<Rightarrow> bool" where
  "z_is_thread_suspended ks t \<longleftrightarrow> thread_state (threads ks t) AND THREAD_SUSPENDED \<noteq> 0"

definition z_is_thread_pending :: "'a kernel_scheme \<Rightarrow> tid \<Rightarrow> bool" where
  "z_is_thread_pending ks t \<longleftrightarrow> thread_state (threads ks t) AND THREAD_PENDING \<noteq> 0"

definition z_is_thread_prevented_from_running :: "'a kernel_scheme \<Rightarrow> tid \<Rightarrow> bool" where
  "z_is_thread_prevented_from_running ks t \<longleftrightarrow>
     thread_state (threads ks t) AND
       (THREAD_PENDING OR THREAD_PRESTART OR THREAD_DEAD OR THREAD_DUMMY OR THREAD_SUSPENDED) \<noteq> 0"

definition is_linked :: "'a kernel_scheme \<Rightarrow> toid \<Rightarrow> bool" where
  "is_linked ks to \<longleftrightarrow> to \<in> fst ` set (timeout_list ks)"

definition z_is_thread_timeout_active :: "'a kernel_scheme \<Rightarrow> tid \<Rightarrow> bool" where
  "z_is_thread_timeout_active ks t \<longleftrightarrow> is_linked ks (ThreadTO t)"

definition z_is_thread_ready :: "'a kernel_scheme \<Rightarrow> tid \<Rightarrow> bool" where
  "z_is_thread_ready ks t \<longleftrightarrow>
     \<not> (z_is_thread_prevented_from_running ks t \<or> z_is_thread_timeout_active ks t)"

definition z_has_thread_started :: "'a kernel_scheme \<Rightarrow> tid \<Rightarrow> bool" where
  "z_has_thread_started ks t \<longleftrightarrow> thread_state (threads ks t) AND THREAD_PRESTART = 0"

definition z_is_thread_queued :: "'a kernel_scheme \<Rightarrow> tid \<Rightarrow> bool" where
  "z_is_thread_queued ks t \<longleftrightarrow> z_is_thread_state_set ks t THREAD_QUEUED"

definition z_mark_thread_as_suspended :: "tid \<Rightarrow> 'a kernel_scheme \<Rightarrow> 'a kernel_scheme" where
  "z_mark_thread_as_suspended t = set_state_bits t THREAD_SUSPENDED"

definition z_mark_thread_as_not_suspended :: "tid \<Rightarrow> 'a kernel_scheme \<Rightarrow> 'a kernel_scheme" where
  "z_mark_thread_as_not_suspended t = clear_state_bits t THREAD_SUSPENDED"

definition z_mark_thread_as_started :: "tid \<Rightarrow> 'a kernel_scheme \<Rightarrow> 'a kernel_scheme" where
  "z_mark_thread_as_started t = clear_state_bits t THREAD_PRESTART"

definition z_mark_thread_as_pending :: "tid \<Rightarrow> 'a kernel_scheme \<Rightarrow> 'a kernel_scheme" where
  "z_mark_thread_as_pending t = set_state_bits t THREAD_PENDING"

definition z_mark_thread_as_not_pending :: "tid \<Rightarrow> 'a kernel_scheme \<Rightarrow> 'a kernel_scheme" where
  "z_mark_thread_as_not_pending t = clear_state_bits t THREAD_PENDING"

definition z_thread_essential_set :: "tid \<Rightarrow> 'a kernel_scheme \<Rightarrow> 'a kernel_scheme" where
  "z_thread_essential_set t = upd_thread t (\<lambda>th. th\<lparr>user_options := user_options th OR K_ESSENTIAL\<rparr>)"

definition z_thread_essential_clear :: "tid \<Rightarrow> 'a kernel_scheme \<Rightarrow> 'a kernel_scheme" where
  "z_thread_essential_clear t =
     upd_thread t (\<lambda>th. th\<lparr>user_options := user_options th AND NOT K_ESSENTIAL\<rparr>)"

definition z_is_thread_essential :: "'a kernel_scheme \<Rightarrow> tid \<Rightarrow> bool" where
  "z_is_thread_essential ks t \<longleftrightarrow> user_options (threads ks t) AND K_ESSENTIAL = K_ESSENTIAL"

definition z_is_idle_thread_object :: "'a kernel_scheme \<Rightarrow> tid \<Rightarrow> bool" where
  "z_is_idle_thread_object ks t \<longleftrightarrow> t = idle_thread ks"

definition should_preempt :: "'a kernel_scheme \<Rightarrow> tid \<Rightarrow> bool \<Rightarrow> bool" where
  "should_preempt ks t preempt_ok \<longleftrightarrow>
     (if preempt_ok then True
      else if z_is_thread_prevented_from_running ks (current ks) then True
      else thread_is_preemptible ks (current ks))"

definition arch_thread_return_value_set :: "tid \<Rightarrow> retval \<Rightarrow> 'a kernel_scheme \<Rightarrow> 'a kernel_scheme" where
  "arch_thread_return_value_set t v = upd_thread t (\<lambda>th. th\<lparr>swap_retval := v\<rparr>)"

definition z_thread_return_value_set_with_data ::
    "tid \<Rightarrow> retval \<Rightarrow> addr \<Rightarrow> 'a kernel_scheme \<Rightarrow> 'a kernel_scheme" where
  "z_thread_return_value_set_with_data t v d ks =
     (let ks = arch_thread_return_value_set t v ks
      in upd_thread t (\<lambda>th. th\<lparr>swap_data := d\<rparr>) ks)"

lemmas thread_state_defs =
  z_is_thread_suspended_def z_is_thread_pending_def z_is_thread_prevented_from_running_def
  z_has_thread_started_def z_is_thread_queued_def z_is_thread_state_set_def

lemmas thread_mark_defs =
  z_mark_thread_as_suspended_def z_mark_thread_as_not_suspended_def z_mark_thread_as_started_def
  z_mark_thread_as_pending_def z_mark_thread_as_not_pending_def

subsection \<open>Properties of the thread predicates\<close>

text \<open>
  The overlaid \<^verbatim>\<open>preempt\<close> word is below the threshold exactly when the scheduler is not locked and
  the priority is not cooperative: the comment in thread.h.
\<close>

lemma preempt_unat:
  "unat (preempt th) = 256 * unat (sched_locked th) + unat (word_of_int (prio th) :: u8)"
proof -
  define q :: u8 where "q = word_of_int (prio th)"
  have "(push_bit 8 (ucast (sched_locked th)) :: u16) AND ucast q = 0"
    by (rule bit_word_eqI) (auto simp: bit_simps dest: bit_imp_le_length)
  then have "preempt th = push_bit 8 (ucast (sched_locked th)) + ucast q"
    by (simp add: preempt_def q_def disjunctive_add_eq_or)
  moreover have "unat (push_bit 8 (ucast (sched_locked th)) :: u16) = 256 * unat (sched_locked th)"
    using unsigned_less [of "sched_locked th", where 'a = nat]
    by (simp add: push_bit_eq_mult unat_word_ariths unsigned_ucast_eq take_bit_nat_eq_self)
  moreover have "unat (ucast q :: u16) = unat q"
    using unsigned_less [of q, where 'a = nat]
    by (simp add: unsigned_ucast_eq take_bit_nat_eq_self)
  moreover have "256 * unat (sched_locked th) + unat q < 65536"
    using unsigned_less [of "sched_locked th", where 'a = nat] unsigned_less [of q, where 'a = nat]
    by simp
  ultimately show ?thesis
    by (simp add: unat_word_ariths q_def)
qed

lemma thread_is_preemptible_iff:
  assumes "- 128 \<le> prio (threads ks t)" and "prio (threads ks t) < 128"
  shows "thread_is_preemptible ks t \<longleftrightarrow> sched_locked (threads ks t) = 0 \<and> 0 \<le> prio (threads ks t)"
proof -
  let ?p = "prio (threads ks t)"
  have "?p mod 256 = ?p + 256" if "?p < 0"
    using that assms(1) by (subst mod_add_self2 [symmetric], subst mod_pos_pos_trivial) auto
  moreover have "?p mod 256 = ?p" if "0 \<le> ?p"
    using that assms(2) by (intro mod_pos_pos_trivial) auto
  ultimately have "unat (word_of_int ?p :: u8) = nat (if 0 \<le> ?p then ?p else ?p + 256)"
    by (simp add: unsigned_of_int take_bit_eq_mod)
  moreover have "preempt (threads ks t) \<le> PREEMPT_THRESHOLD \<longleftrightarrow> unat (preempt (threads ks t)) \<le> 127"
    by (simp add: word_le_nat_alt)
  moreover have "sched_locked (threads ks t) = 0 \<longleftrightarrow> unat (sched_locked (threads ks t)) = 0"
    by (simp add: unat_eq_zero)
  ultimately show ?thesis
    using assms unfolding thread_is_preemptible_def preempt_unat by auto
qed

end
