(* ===== verification/Timeout.thy ===== *)
theory Timeout
  imports Kernel_State
begin

text \<open>
  The timeout queue of \<^verbatim>\<open>kernel/timeout.c\<close>.  The list holds, for each armed timeout, the number of
  ticks after its predecessor (\<^verbatim>\<open>dticks\<close>); \<open>deadlines\<close> gives the absolute expiry ticks it stands for.
  Adding and aborting are shown to be insertion into and deletion from the deadlines sorted by expiry,
  first come first served; \<open>sys_clock_announce\<close> is shown to return and to expire exactly the timeouts
  that are due.
\<close>

subsection \<open>The operations\<close>

abbreviation (input) INT_MAX :: int where "INT_MAX \<equiv> 2147483647"
abbreviation (input) MAX_WAIT :: int where "MAX_WAIT \<equiv> INT_MAX"
abbreviation (input) UINT64_MAX :: int where "UINT64_MAX \<equiv> 18446744073709551615"

definition first :: "'a kernel_scheme \<Rightarrow> (toid \<times> int) option" where
  "first ks = (case timeout_list ks of [] \<Rightarrow> None | t # _ \<Rightarrow> Some t)"

text \<open>\<^verbatim>\<open>remove_timeout\<close>: the ticks of the removed entry are handed to its successor.\<close>

fun remove_timeout :: "toid \<Rightarrow> (toid \<times> int) list \<Rightarrow> (toid \<times> int) list" where
  "remove_timeout t [] = []"
| "remove_timeout t ((u, d) # r) =
     (if u = t then (case r of [] \<Rightarrow> [] | (v, e) # r' \<Rightarrow> (v, e + d) # r')
      else (u, d) # remove_timeout t r)"

definition elapsed :: "'a kernel_scheme \<Rightarrow> int" where
  "elapsed ks = (if announce_remaining ks = 0 then hw_elapsed ks else 0)"

definition next_timeout :: "'a kernel_scheme \<Rightarrow> int" where
  "next_timeout ks =
     (case first ks of
        None \<Rightarrow> MAX_WAIT
      | Some (_, d) \<Rightarrow> if d - elapsed ks > INT_MAX then MAX_WAIT else max 0 (d - elapsed ks))"

definition sys_clock_set_timeout :: "int \<Rightarrow> 'a kernel_scheme \<Rightarrow> 'a kernel_scheme" where
  "sys_clock_set_timeout n ks = ks\<lparr>hw_timeout := n\<rparr>"

text \<open>The loop of \<^verbatim>\<open>z_add_timeout\<close> over the list, with the ticks still to be accounted for.\<close>

fun insert_timeout :: "toid \<Rightarrow> int \<Rightarrow> (toid \<times> int) list \<Rightarrow> (toid \<times> int) list" where
  "insert_timeout to d [] = [(to, d)]"
| "insert_timeout to d ((t, e) # r) =
     (if e > d then (to, d) # (t, e - d) # r else (t, e) # insert_timeout to (d - e) r)"

definition timeout_dticks :: "k_timeout \<Rightarrow> 'a kernel_scheme \<Rightarrow> int" where
  "timeout_dticks timeout ks =
     (if Z_TICK_ABS timeout \<ge> 0 then max 1 (Z_TICK_ABS timeout - curr_tick ks)
      else timeout + 1 + elapsed ks)"

definition z_add_timeout :: "toid \<Rightarrow> k_timeout \<Rightarrow> 'a kernel_scheme \<Rightarrow> 'a kernel_scheme" where
  "z_add_timeout to timeout ks =
     (if timeout = K_FOREVER then ks
      else (let ks = ks\<lparr>timeout_list := insert_timeout to (timeout_dticks timeout ks) (timeout_list ks)\<rparr>
            in if map_option fst (first ks) = Some to \<and> announce_remaining ks = 0
               then sys_clock_set_timeout (next_timeout ks) ks else ks))"

definition z_abort_timeout :: "toid \<Rightarrow> 'a kernel_scheme \<Rightarrow> retval \<times> 'a kernel_scheme" where
  "z_abort_timeout to ks =
     (if is_linked ks to
      then (ret_ok, ks\<lparr>timeout_list := remove_timeout to (timeout_list ks)\<rparr>)
      else (Inl EINVAL, ks))"

fun timeout_rem_list :: "toid \<Rightarrow> int \<Rightarrow> (toid \<times> int) list \<Rightarrow> int" where
  "timeout_rem_list to ticks [] = ticks"
| "timeout_rem_list to ticks ((t, d) # r) =
     (if to = t then ticks + d else timeout_rem_list to (ticks + d) r)"

definition timeout_rem :: "toid \<Rightarrow> 'a kernel_scheme \<Rightarrow> int" where
  "timeout_rem to ks = timeout_rem_list to 0 (timeout_list ks)"

definition z_timeout_remaining :: "toid \<Rightarrow> 'a kernel_scheme \<Rightarrow> int" where
  "z_timeout_remaining to ks = (if is_linked ks to then timeout_rem to ks - elapsed ks else 0)"

definition z_timeout_expires :: "toid \<Rightarrow> 'a kernel_scheme \<Rightarrow> int" where
  "z_timeout_expires to ks = curr_tick ks + (if is_linked ks to then timeout_rem to ks else 0)"

definition z_get_next_timeout_expiry :: "'a kernel_scheme \<Rightarrow> int" where
  "z_get_next_timeout_expiry ks = next_timeout ks"

text \<open>
  The expiry functions are a parameter \<open>fn\<close>.  A pass of the loop removes the first entry, advances
  the clock to it and calls its function; the log lists the timeouts with the tick they expired at.
\<close>

partial_function (option) announce_loop ::
    "(toid \<Rightarrow> 'a kernel_scheme \<Rightarrow> 'a kernel_scheme) \<Rightarrow> 'a kernel_scheme \<Rightarrow> (toid \<times> int) list \<Rightarrow>
     ('a kernel_scheme \<times> (toid \<times> int) list) option" where
  "announce_loop fn ks log =
     (case first ks of
        None \<Rightarrow> Some (ks, log)
      | Some (t, d) \<Rightarrow>
          if d \<le> announce_remaining ks then
            (let ks = ks\<lparr>curr_tick := curr_tick ks + d\<rparr>;
                 ks = ks\<lparr>timeout_list := remove_timeout t ((t, 0) # tl (timeout_list ks))\<rparr>;
                 log = log @ [(t, curr_tick ks)];
                 ks = fn t ks
             in announce_loop fn (ks\<lparr>announce_remaining := announce_remaining ks - d\<rparr>) log)
          else Some (ks, log))"

definition announce_finish :: "'a kernel_scheme \<Rightarrow> 'a kernel_scheme" where
  "announce_finish ks =
     (let ks = (case timeout_list ks of
                  [] \<Rightarrow> ks
                | (t, d) # r \<Rightarrow> ks\<lparr>timeout_list := (t, d - announce_remaining ks) # r\<rparr>);
          ks = ks\<lparr>curr_tick := curr_tick ks + announce_remaining ks\<rparr>;
          ks = ks\<lparr>announce_remaining := 0\<rparr>
      in sys_clock_set_timeout (next_timeout ks) ks)"

text \<open>\<open>time_slice\<close> is \<^verbatim>\<open>z_time_slice\<close>, called out of each timer interrupt.\<close>

definition sys_clock_announce ::
    "(toid \<Rightarrow> 'a kernel_scheme \<Rightarrow> 'a kernel_scheme) \<Rightarrow> ('a kernel_scheme \<Rightarrow> 'a kernel_scheme) \<Rightarrow>
     int \<Rightarrow> 'a kernel_scheme \<Rightarrow> ('a kernel_scheme \<times> (toid \<times> int) list) option" where
  "sys_clock_announce fn time_slice ticks ks =
     map_option (\<lambda>(ks, log). (time_slice (announce_finish ks), log))
       (announce_loop fn (ks\<lparr>announce_remaining := ticks\<rparr>) [])"

definition sys_clock_tick_get :: "'a kernel_scheme \<Rightarrow> int" where
  "sys_clock_tick_get ks = curr_tick ks + elapsed ks"

definition sys_timepoint_calc :: "k_timeout \<Rightarrow> 'a kernel_scheme \<Rightarrow> int" where
  "sys_timepoint_calc timeout ks =
     (if timeout = K_FOREVER then UINT64_MAX
      else if timeout = K_NO_WAIT then 0
      else if Z_TICK_ABS timeout \<ge> 0 then Z_TICK_ABS timeout
      else sys_clock_tick_get ks + max 1 timeout)"

definition sys_timepoint_timeout :: "int \<Rightarrow> 'a kernel_scheme \<Rightarrow> k_timeout" where
  "sys_timepoint_timeout tp ks =
     (if tp = UINT64_MAX then K_FOREVER
      else if tp = 0 then K_NO_WAIT
      else (let now = sys_clock_tick_get ks in if tp > now then tp - now else 0))"

subsection \<open>Deadlines\<close>

fun deadlines :: "int \<Rightarrow> (toid \<times> int) list \<Rightarrow> (toid \<times> int) list" where
  "deadlines c [] = []"
| "deadlines c ((t, d) # r) = (t, c + d) # deadlines (c + d) r"

text \<open>Well-formed queues: distinct timeouts, no negative distances.\<close>

definition wf_timeouts :: "(toid \<times> int) list \<Rightarrow> bool" where
  "wf_timeouts l \<longleftrightarrow> distinct (map fst l) \<and> (\<forall>x \<in> set l. 0 \<le> snd x)"

lemma map_fst_deadlines [simp]: "map fst (deadlines c l) = map fst l"
  by (induction l arbitrary: c) auto

lemma deadlines_ge: "\<forall>x \<in> set l. 0 \<le> snd x \<Longrightarrow> y \<in> set (deadlines c l) \<Longrightarrow> c \<le> snd y"
  by (induction l arbitrary: c) fastforce+

lemma sorted_deadlines: "\<forall>x \<in> set l. 0 \<le> snd x \<Longrightarrow> sorted (map snd (deadlines c l))"
  by (induction l arbitrary: c) (use deadlines_ge in \<open>fastforce+\<close>)

lemma wf_timeouts_simps [simp]:
  "wf_timeouts []"
  "wf_timeouts ((t, d) # r) \<longleftrightarrow> t \<notin> fst ` set r \<and> 0 \<le> d \<and> wf_timeouts r"
  by (auto simp: wf_timeouts_def)

lemma deadlines_insert:
  "wf_timeouts l \<Longrightarrow> 0 \<le> d \<Longrightarrow>
   deadlines c (insert_timeout to d l) = insert_after snd (to, c + d) (deadlines c l)"
  by (induction to d l arbitrary: c rule: insert_timeout.induct) (auto simp: add.assoc)

lemma fst_insert_timeout [simp]: "fst ` set (insert_timeout to d l) = insert to (fst ` set l)"
  by (induction to d l rule: insert_timeout.induct) auto

lemma wf_insert_timeout:
  "wf_timeouts l \<Longrightarrow> 0 \<le> d \<Longrightarrow> to \<notin> fst ` set l \<Longrightarrow> wf_timeouts (insert_timeout to d l)"
  by (induction to d l rule: insert_timeout.induct) auto

lemma deadlines_remove:
  "distinct (map fst l) \<Longrightarrow>
   deadlines c (remove_timeout to l) = filter (\<lambda>(u, e). u \<noteq> to) (deadlines c l)"
proof (induction to l arbitrary: c rule: remove_timeout.induct)
  case (2 t u d r)
  have "filter (\<lambda>(v, e). v \<noteq> t) (deadlines b r) = deadlines b r" if "t \<notin> fst ` set r" for b
  proof -
    have "t \<notin> fst ` set (deadlines b r)"
      using that by (simp only: set_map [symmetric] map_fst_deadlines) simp
    then show ?thesis by (force intro!: filter_True)
  qed
  with 2 show ?case
    by (cases r) (auto simp: ac_simps split: list.splits)
qed simp

lemma map_fst_remove_timeout:
  assumes "distinct (map fst l)"
  shows "map fst (remove_timeout to l) = filter (\<lambda>u. u \<noteq> to) (map fst l)"
proof -
  have "map fst (deadlines 0 (remove_timeout to l)) = filter (\<lambda>u. u \<noteq> to) (map fst (deadlines 0 l))"
    by (simp only: deadlines_remove [OF assms] filter_map comp_def split_def)
  then show ?thesis by simp
qed

lemma fst_remove_timeout [simp]:
  "distinct (map fst l) \<Longrightarrow> fst ` set (remove_timeout to l) = fst ` set l - {to}"
  using arg_cong [OF map_fst_remove_timeout, of l set to] by auto

lemma nonneg_remove_timeout:
  "\<forall>x \<in> set l. 0 \<le> snd x \<Longrightarrow> \<forall>x \<in> set (remove_timeout to l). 0 \<le> snd x"
proof (induction to l rule: remove_timeout.induct)
  case (2 t u d r)
  then show ?case by (cases r) auto
qed simp

lemma wf_remove_timeout: "wf_timeouts l \<Longrightarrow> wf_timeouts (remove_timeout to l)"
  using nonneg_remove_timeout [of l to] by (simp add: wf_timeouts_def map_fst_remove_timeout)

text \<open>The list determines the deadlines and the deadlines the list.\<close>

lemma timeout_rem_list:
  "to \<in> fst ` set l \<Longrightarrow> distinct (map fst l) \<Longrightarrow>
   map_of (deadlines c l) to = Some (timeout_rem_list to c l)"
  by (induction to c l rule: timeout_rem_list.induct) auto

lemma timeout_rem_list_shift: "timeout_rem_list to (c + e) l = c + timeout_rem_list to e l"
  by (induction to e l rule: timeout_rem_list.induct) (auto simp: add.assoc)

subsection \<open>Queue invariant and the operations of the kernel\<close>

definition timeouts_ok :: "'a kernel_scheme \<Rightarrow> bool" where
  "timeouts_ok ks \<longleftrightarrow> wf_timeouts (timeout_list ks) \<and> 0 \<le> hw_elapsed ks"

abbreviation expiries :: "'a kernel_scheme \<Rightarrow> (toid \<times> int) list" where
  "expiries ks \<equiv> deadlines (curr_tick ks) (timeout_list ks)"

lemma timeout_dticks_pos: "0 \<le> hw_elapsed ks \<Longrightarrow> timeout \<noteq> K_FOREVER \<Longrightarrow> 1 \<le> timeout_dticks timeout ks"
  by (auto simp: timeout_dticks_def Z_TICK_ABS_def elapsed_def)

lemma timeout_list_add [simp]:
  "timeout \<noteq> K_FOREVER \<Longrightarrow>
   timeout_list (z_add_timeout to timeout ks) =
     insert_timeout to (timeout_dticks timeout ks) (timeout_list ks)"
  by (simp add: z_add_timeout_def sys_clock_set_timeout_def Let_def)

lemma z_add_timeout_forever [simp]: "z_add_timeout to K_FOREVER ks = ks"
  by (simp add: z_add_timeout_def)

lemma z_add_timeout_frame [simp]:
  "threads (z_add_timeout to w ks) = threads ks"
  "runq (z_add_timeout to w ks) = runq ks"
  "cache (z_add_timeout to w ks) = cache ks"
  "current (z_add_timeout to w ks) = current ks"
  "idle_thread (z_add_timeout to w ks) = idle_thread ks"
  "in_isr (z_add_timeout to w ks) = in_isr ks"
  "irq_unlocked (z_add_timeout to w ks) = irq_unlocked ks"
  "waitqs (z_add_timeout to w ks) = waitqs ks"
  "curr_tick (z_add_timeout to w ks) = curr_tick ks"
  "announce_remaining (z_add_timeout to w ks) = announce_remaining ks"
  "hw_elapsed (z_add_timeout to w ks) = hw_elapsed ks"
  "slice_ticks (z_add_timeout to w ks) = slice_ticks ks"
  "slice_max_prio (z_add_timeout to w ks) = slice_max_prio ks"
  "slice_expired (z_add_timeout to w ks) = slice_expired ks"
  "mem (z_add_timeout to w ks) = mem ks"
  "kernel.more (z_add_timeout to w ks) = kernel.more ks"
  by (simp_all add: z_add_timeout_def sys_clock_set_timeout_def Let_def)

lemma z_abort_timeout_frame [simp]:
  "threads (snd (z_abort_timeout to ks)) = threads ks"
  "runq (snd (z_abort_timeout to ks)) = runq ks"
  "cache (snd (z_abort_timeout to ks)) = cache ks"
  "current (snd (z_abort_timeout to ks)) = current ks"
  "idle_thread (snd (z_abort_timeout to ks)) = idle_thread ks"
  "in_isr (snd (z_abort_timeout to ks)) = in_isr ks"
  "irq_unlocked (snd (z_abort_timeout to ks)) = irq_unlocked ks"
  "waitqs (snd (z_abort_timeout to ks)) = waitqs ks"
  "curr_tick (snd (z_abort_timeout to ks)) = curr_tick ks"
  "announce_remaining (snd (z_abort_timeout to ks)) = announce_remaining ks"
  "hw_elapsed (snd (z_abort_timeout to ks)) = hw_elapsed ks"
  "slice_ticks (snd (z_abort_timeout to ks)) = slice_ticks ks"
  "slice_max_prio (snd (z_abort_timeout to ks)) = slice_max_prio ks"
  "slice_expired (snd (z_abort_timeout to ks)) = slice_expired ks"
  "mem (snd (z_abort_timeout to ks)) = mem ks"
  "kernel.more (snd (z_abort_timeout to ks)) = kernel.more ks"
  by (simp_all add: z_abort_timeout_def)

lemma is_linked_add:
  "is_linked (z_add_timeout to w ks) u \<longleftrightarrow> is_linked ks u \<or> (w \<noteq> K_FOREVER \<and> u = to)"
  by (cases "w = K_FOREVER") (auto simp: is_linked_def)

lemma remove_timeout_absent: "to \<notin> fst ` set l \<Longrightarrow> remove_timeout to l = l"
  by (induction to l rule: remove_timeout.induct) auto

lemma timeout_list_abort:
  "timeout_list (snd (z_abort_timeout to ks)) = remove_timeout to (timeout_list ks)"
  by (simp add: z_abort_timeout_def is_linked_def remove_timeout_absent)

lemma is_linked_abort:
  "timeouts_ok ks \<Longrightarrow> is_linked (snd (z_abort_timeout to ks)) u \<longleftrightarrow> is_linked ks u \<and> u \<noteq> to"
  by (auto simp: is_linked_def timeout_list_abort timeouts_ok_def wf_timeouts_def)

lemma timeouts_ok_add:
  "timeouts_ok ks \<Longrightarrow> w = K_FOREVER \<or> \<not> is_linked ks to \<Longrightarrow> timeouts_ok (z_add_timeout to w ks)"
  using timeout_dticks_pos [of ks w]
  by (cases "w = K_FOREVER") (auto simp: timeouts_ok_def is_linked_def intro!: wf_insert_timeout)

lemma timeouts_ok_abort: "timeouts_ok ks \<Longrightarrow> timeouts_ok (snd (z_abort_timeout to ks))"
  by (simp add: timeouts_ok_def timeout_list_abort wf_remove_timeout)

subsection \<open>Expiry functions and the announcement of ticks\<close>

text \<open>
  What \<open>sys_clock_announce\<close> relies on of the expiry functions it calls: they keep the queue well
  formed, do not touch the clock, and whatever they arm expires after the current tick.
\<close>

locale timeout_handler =
  fixes fn :: "toid \<Rightarrow> 'a kernel_scheme \<Rightarrow> 'a kernel_scheme"
  assumes fn_ok: "timeouts_ok ks \<Longrightarrow> timeouts_ok (fn t ks)"
    and fn_tick: "timeouts_ok ks \<Longrightarrow> curr_tick (fn t ks) = curr_tick ks"
    and fn_remaining: "timeouts_ok ks \<Longrightarrow> announce_remaining (fn t ks) = announce_remaining ks"
    and fn_later: "timeouts_ok ks \<Longrightarrow> x \<in> set (expiries (fn t ks)) \<Longrightarrow>
      x \<in> set (expiries ks) \<or> curr_tick ks < snd x"

definition due_now :: "'a kernel_scheme \<Rightarrow> nat" where
  "due_now ks = card {x \<in> set (expiries ks). snd x \<le> curr_tick ks}"

text \<open>One pass of the loop, up to the call of the expiry function.\<close>

definition expire_first :: "toid \<Rightarrow> int \<Rightarrow> 'a kernel_scheme \<Rightarrow> 'a kernel_scheme" where
  "expire_first t d ks =
     ks\<lparr>curr_tick := curr_tick ks + d,
        timeout_list := remove_timeout t ((t, 0) # tl (timeout_list ks))\<rparr>"

lemma announce_loop_unfold:
  "announce_loop fn ks log =
     (case timeout_list ks of
        [] \<Rightarrow> Some (ks, log)
      | (t, d) # _ \<Rightarrow>
          if d \<le> announce_remaining ks
          then announce_loop fn
                 ((fn t (expire_first t d ks))\<lparr>announce_remaining :=
                    announce_remaining (fn t (expire_first t d ks)) - d\<rparr>)
                 (log @ [(t, curr_tick ks + d)])
          else Some (ks, log))"
  by (subst announce_loop.simps)
    (simp add: first_def expire_first_def Let_def split: list.split prod.split)

lemma expire_first:
  assumes "timeouts_ok ks" and "timeout_list ks = (t, d) # r"
  shows "timeouts_ok (expire_first t d ks)" and "0 \<le> d"
    and "curr_tick (expire_first t d ks) = curr_tick ks + d"
    and "announce_remaining (expire_first t d ks) = announce_remaining ks"
    and "expiries ks = (t, curr_tick ks + d) # expiries (expire_first t d ks)"
proof -
  have "remove_timeout t ((t, 0) # r) = r"
    by (cases r) auto
  then show "timeouts_ok (expire_first t d ks)" and "0 \<le> d"
    and "curr_tick (expire_first t d ks) = curr_tick ks + d"
    and "announce_remaining (expire_first t d ks) = announce_remaining ks"
    and "expiries ks = (t, curr_tick ks + d) # expiries (expire_first t d ks)"
    using assms by (auto simp: expire_first_def timeouts_ok_def)
qed

lemma expiries_ge: "timeouts_ok ks \<Longrightarrow> x \<in> set (expiries ks) \<Longrightarrow> curr_tick ks \<le> snd x"
  by (rule deadlines_ge [of "timeout_list ks"]) (simp_all add: timeouts_ok_def wf_timeouts_def)

lemma distinct_expiries: "timeouts_ok ks \<Longrightarrow> distinct (expiries ks)"
  using map_fst_deadlines [of "curr_tick ks" "timeout_list ks"]
  by (metis distinct_map timeouts_ok_def wf_timeouts_def)

lemma announce_finish:
  assumes "timeouts_ok ks"
  shows "curr_tick (announce_finish ks) = curr_tick ks + announce_remaining ks"
    and "announce_remaining (announce_finish ks) = 0"
    and "expiries (announce_finish ks) = expiries ks"
    and "\<forall>x \<in> set (expiries ks). curr_tick ks + announce_remaining ks < snd x \<Longrightarrow>
      timeouts_ok (announce_finish ks)"
  using assms
  by (force simp: announce_finish_def sys_clock_set_timeout_def Let_def timeouts_ok_def
      wf_timeouts_def split: list.split prod.split)+

context timeout_handler
begin

lemma pass_decreases:
  assumes ok: "timeouts_ok ks" and l: "timeout_list ks = (t, d) # r" and d: "d \<le> announce_remaining ks"
    and ks1: "ks1 = (fn t (expire_first t d ks))\<lparr>announce_remaining :=
                      announce_remaining (fn t (expire_first t d ks)) - d\<rparr>"
  shows "(ks1, ks) \<in> measures [\<lambda>ks. nat (announce_remaining ks), due_now]"
proof (cases "d = 0")
  case False
  with expire_first [OF ok l] d show ?thesis
    by (simp add: ks1 fn_remaining)
next
  case True
  let ?e = "expire_first t d ks"
  note e = expire_first [OF ok l]
  have tick: "curr_tick ks1 = curr_tick ks"
    using e(1,3) True by (simp add: ks1 fn_tick)
  have sub: "{x \<in> set (expiries ks1). snd x \<le> curr_tick ks1}
      \<subseteq> {x \<in> set (expiries ks). snd x \<le> curr_tick ks} - {(t, curr_tick ks)}"
  proof
    fix x assume "x \<in> {x \<in> set (expiries ks1). snd x \<le> curr_tick ks1}"
    then have x: "x \<in> set (expiries (fn t ?e))" "snd x \<le> curr_tick ks"
      using tick by (simp_all add: ks1)
    then have "x \<in> set (expiries ?e)"
      using fn_later [OF e(1) x(1)] e(3) True by auto
    with x(2) show "x \<in> {x \<in> set (expiries ks). snd x \<le> curr_tick ks} - {(t, curr_tick ks)}"
      using e(5) distinct_expiries [OF ok] True by auto
  qed
  have "(t, curr_tick ks) \<in> {x \<in> set (expiries ks). snd x \<le> curr_tick ks}"
    using e(5) True by simp
  then have "due_now ks1 < due_now ks"
    unfolding due_now_def using sub by (intro psubset_card_mono) auto
  then show ?thesis
    using e(1,4) True by (simp add: ks1 fn_remaining due_now_def)
qed

text \<open>
  Total correctness of the loop by induction on its passes: a relation \<open>Q\<close> between the arguments and
  the results that holds when nothing is due and is carried backwards over a pass holds of the loop,
  which returns.
\<close>

lemma announce_loop_induct:
  assumes "timeouts_ok ks" and "0 \<le> announce_remaining ks"
    and stop: "\<And>ks log. timeouts_ok ks \<Longrightarrow> 0 \<le> announce_remaining ks \<Longrightarrow>
      \<forall>x \<in> set (expiries ks). curr_tick ks + announce_remaining ks < snd x \<Longrightarrow> Q ks log ks log"
    and pass: "\<And>ks log t d r ks1 ks' log'. timeouts_ok ks \<Longrightarrow> timeout_list ks = (t, d) # r \<Longrightarrow>
      d \<le> announce_remaining ks \<Longrightarrow>
      ks1 = (fn t (expire_first t d ks))\<lparr>announce_remaining := announce_remaining (fn t (expire_first t d ks)) - d\<rparr> \<Longrightarrow>
      timeouts_ok ks1 \<Longrightarrow> curr_tick ks1 = curr_tick ks + d \<Longrightarrow>
      announce_remaining ks1 = announce_remaining ks - d \<Longrightarrow>
      Q ks1 (log @ [(t, curr_tick ks + d)]) ks' log' \<Longrightarrow> Q ks log ks' log'"
  shows "\<exists>ks' log'. announce_loop fn ks log = Some (ks', log') \<and> Q ks log ks' log'"
  using assms(1,2)
proof (induction ks arbitrary: log
    rule: wf_induct_rule [OF wf_measures [of "[\<lambda>ks. nat (announce_remaining ks), due_now]"]])
  case (1 ks)
  note ok = "1.prems"(1)
  show ?case
  proof (cases "timeout_list ks")
    case Nil
    then show ?thesis
      using "1.prems" stop [of ks log] by (subst announce_loop_unfold) simp
  next
    case (Cons x r)
    obtain t d where l: "timeout_list ks = (t, d) # r"
      using Cons by (cases x) simp
    note e = expire_first [OF ok l]
    show ?thesis
    proof (cases "d \<le> announce_remaining ks")
      case False
      have "curr_tick ks + announce_remaining ks < snd y" if "y \<in> set (expiries ks)" for y
        using that e(5) expiries_ge [OF e(1), of y] e(3) False by auto
      then show ?thesis
        using "1.prems" l False stop [of ks log] by (subst announce_loop_unfold) auto
    next
      case True
      define ks1 where "ks1 = (fn t (expire_first t d ks))\<lparr>announce_remaining :=
        announce_remaining (fn t (expire_first t d ks)) - d\<rparr>"
      have ks1: "timeouts_ok ks1" "curr_tick ks1 = curr_tick ks + d"
        "announce_remaining ks1 = announce_remaining ks - d"
        using e(1,3,4) fn_ok [OF e(1), of t]
        by (simp_all add: ks1_def fn_tick fn_remaining timeouts_ok_def)
      from "1.IH" [OF pass_decreases [OF ok l True ks1_def] ks1(1), of "log @ [(t, curr_tick ks + d)]"] ks1(3) True
      obtain ks' log' where "announce_loop fn ks1 (log @ [(t, curr_tick ks + d)]) = Some (ks', log')"
        and "Q ks1 (log @ [(t, curr_tick ks + d)]) ks' log'" by auto
      with pass [OF ok l True ks1_def ks1] show ?thesis
        using l True by (subst announce_loop_unfold) (auto simp: ks1_def)
    qed
  qed
qed

lemma announce_loop_returns:
  assumes "timeouts_ok ks" and "0 \<le> announce_remaining ks"
  shows "\<exists>ks' fired. announce_loop fn ks log = Some (ks', log @ fired) \<and> timeouts_ok ks' \<and>
    curr_tick ks' + announce_remaining ks' = curr_tick ks + announce_remaining ks \<and>
    0 \<le> announce_remaining ks' \<and> curr_tick ks \<le> curr_tick ks' \<and> sorted (map snd fired) \<and>
    (\<forall>x \<in> set fired. curr_tick ks \<le> snd x \<and> snd x \<le> curr_tick ks') \<and>
    (\<forall>x \<in> set (expiries ks'). curr_tick ks + announce_remaining ks < snd x)"
proof -
  define Q where "Q ks log ks' log' \<longleftrightarrow> (\<exists>fired. log' = log @ fired \<and> timeouts_ok ks' \<and>
    curr_tick ks' + announce_remaining ks' = curr_tick ks + announce_remaining ks \<and>
    0 \<le> announce_remaining ks' \<and> curr_tick ks \<le> curr_tick ks' \<and> sorted (map snd fired) \<and>
    (\<forall>x \<in> set fired. curr_tick ks \<le> snd x \<and> snd x \<le> curr_tick ks') \<and>
    (\<forall>x \<in> set (expiries ks'). curr_tick ks + announce_remaining ks < snd x))"
    for ks ks' :: "'a kernel_scheme" and log log' :: "(toid \<times> int) list"
  have "\<exists>ks' log'. announce_loop fn ks log = Some (ks', log') \<and> Q ks log ks' log'"
  proof (rule announce_loop_induct [OF assms])
    fix ks :: "'a kernel_scheme" and log t d r ks1 ks' log'
    assume ok: "timeouts_ok ks" and l: "timeout_list ks = (t, d) # r"
      and ks1: "curr_tick ks1 = curr_tick ks + d" "announce_remaining ks1 = announce_remaining ks - d"
      and "Q ks1 (log @ [(t, curr_tick ks + d)]) ks' log'"
    then obtain fired where "log' = log @ (t, curr_tick ks + d) # fired"
      and f: "timeouts_ok ks'" "curr_tick ks' + announce_remaining ks' = curr_tick ks + announce_remaining ks"
        "0 \<le> announce_remaining ks'" "curr_tick ks + d \<le> curr_tick ks'" "sorted (map snd fired)"
        "\<forall>x \<in> set fired. curr_tick ks + d \<le> snd x \<and> snd x \<le> curr_tick ks'"
        "\<forall>x \<in> set (expiries ks'). curr_tick ks + announce_remaining ks < snd x"
      unfolding Q_def by auto
    with expire_first(2) [OF ok l] show "Q ks log ks' log'"
      unfolding Q_def by (intro exI [of _ "(t, curr_tick ks + d) # fired"]) auto
  qed (simp add: Q_def)
  then show ?thesis
    unfolding Q_def by blast
qed

text \<open>What every expiry keeps, the announcement keeps.\<close>

lemma announce_loop_invariant:
  assumes "timeouts_ok ks" and "0 \<le> announce_remaining ks" and "I ks"
    and step: "\<And>ks t d r. timeouts_ok ks \<Longrightarrow> timeout_list ks = (t, d) # r \<Longrightarrow> I ks \<Longrightarrow>
      I ((fn t (expire_first t d ks))\<lparr>announce_remaining := announce_remaining (fn t (expire_first t d ks)) - d\<rparr>)"
  shows "\<exists>ks' log'. announce_loop fn ks log = Some (ks', log') \<and> I ks'"
  using announce_loop_induct [OF assms(1,2), of "\<lambda>ks log ks' log'. I ks \<longrightarrow> I ks'" log] step assms(3)
  by blast

lemma sys_clock_announce_returns:
  assumes "timeouts_ok ks" and "0 \<le> ticks"
  shows "\<exists>ks' fired. sys_clock_announce fn time_slice ticks ks = Some (time_slice ks', fired) \<and>
    timeouts_ok ks' \<and> curr_tick ks' = curr_tick ks + ticks \<and> announce_remaining ks' = 0 \<and>
    sorted (map snd fired) \<and> (\<forall>x \<in> set fired. curr_tick ks \<le> snd x \<and> snd x \<le> curr_tick ks') \<and>
    (\<forall>x \<in> set (expiries ks'). curr_tick ks' < snd x)"
proof -
  have "timeouts_ok (ks\<lparr>announce_remaining := ticks\<rparr>)"
    using assms by (simp add: timeouts_ok_def)
  from announce_loop_returns [OF this, of "[]"] assms(2) obtain ks1 fired where
    loop: "announce_loop fn (ks\<lparr>announce_remaining := ticks\<rparr>) [] = Some (ks1, fired)"
    and ks1: "timeouts_ok ks1" "curr_tick ks1 + announce_remaining ks1 = curr_tick ks + ticks"
      "0 \<le> announce_remaining ks1"
      "\<forall>x \<in> set (expiries ks1). curr_tick ks + ticks < snd x"
    and fired: "sorted (map snd fired)"
      "\<forall>x \<in> set fired. curr_tick ks \<le> snd x \<and> snd x \<le> curr_tick ks1"
    by auto
  note fin = announce_finish [OF ks1(1)]
  have "sys_clock_announce fn time_slice ticks ks = Some (time_slice (announce_finish ks1), fired)"
    by (simp add: sys_clock_announce_def loop)
  moreover have "\<forall>x \<in> set fired. curr_tick ks \<le> snd x \<and> snd x \<le> curr_tick ks + ticks"
    using fired(2) ks1(2,3) by force
  ultimately show ?thesis
    using fin ks1 fired(1) by (intro exI [of _ "announce_finish ks1"] exI [of _ fired]) auto
qed

end

text \<open>
  Expiry functions that leave the timeouts of \<open>P\<close> alone: of these, exactly the ones that are due
  expire, each once and in order.
\<close>

locale quiet_handler = timeout_handler fn
  for fn :: "toid \<Rightarrow> 'a kernel_scheme \<Rightarrow> 'a kernel_scheme" +
  fixes P :: "toid \<Rightarrow> bool"
  assumes fn_quiet: "timeouts_ok ks \<Longrightarrow>
    filter (\<lambda>x. P (fst x)) (expiries (fn t ks)) = filter (\<lambda>x. P (fst x)) (expiries ks)"
begin

lemma announce_loop_exact:
  assumes "timeouts_ok ks" and "0 \<le> announce_remaining ks" and "due = curr_tick ks + announce_remaining ks"
  shows "\<exists>ks' log'. announce_loop fn ks log = Some (ks', log') \<and>
    filter (\<lambda>x. P (fst x)) log' =
      filter (\<lambda>x. P (fst x)) log @ filter (\<lambda>x. P (fst x) \<and> snd x \<le> due) (expiries ks) \<and>
    filter (\<lambda>x. P (fst x)) (expiries ks') = filter (\<lambda>x. P (fst x) \<and> due < snd x) (expiries ks)"
proof -
  define Q where "Q ks log ks' log' \<longleftrightarrow> (let due = curr_tick ks + announce_remaining ks in
    filter (\<lambda>x. P (fst x)) log' =
      filter (\<lambda>x. P (fst x)) log @ filter (\<lambda>x. P (fst x) \<and> snd x \<le> due) (expiries ks) \<and>
    filter (\<lambda>x. P (fst x)) (expiries ks') = filter (\<lambda>x. P (fst x) \<and> due < snd x) (expiries ks))"
    for ks ks' :: "'a kernel_scheme" and log log' :: "(toid \<times> int) list"
  have "\<exists>ks' log'. announce_loop fn ks log = Some (ks', log') \<and> Q ks log ks' log'"
  proof (rule announce_loop_induct [OF assms(1,2)])
    fix ks :: "'a kernel_scheme" and log
    assume late: "\<forall>x \<in> set (expiries ks). curr_tick ks + announce_remaining ks < snd x"
    then show "Q ks log ks log"
      unfolding Q_def Let_def by (auto simp: filter_empty_conv intro!: filter_cong)
  next
    fix ks :: "'a kernel_scheme" and log t d r ks1 ks' log'
    assume ok: "timeouts_ok ks" and l: "timeout_list ks = (t, d) # r" and le: "d \<le> announce_remaining ks"
      and ks1: "ks1 = (fn t (expire_first t d ks))\<lparr>announce_remaining := announce_remaining (fn t (expire_first t d ks)) - d\<rparr>"
        "curr_tick ks1 = curr_tick ks + d" "announce_remaining ks1 = announce_remaining ks - d"
      and Q: "Q ks1 (log @ [(t, curr_tick ks + d)]) ks' log'"
    note e = expire_first [OF ok l]
    have q: "filter (\<lambda>x. P (fst x)) (expiries ks1) = filter (\<lambda>x. P (fst x)) (expiries (expire_first t d ks))"
      using fn_quiet [OF e(1), of t] by (simp add: ks1)
    have split: "filter (\<lambda>x. P (fst x) \<and> R x) (expiries ks1) =
        filter (\<lambda>x. P (fst x) \<and> R x) (expiries (expire_first t d ks))" for R
      using arg_cong [OF q, of "filter R"] by (simp add: conj_commute)
    show "Q ks log ks' log'"
      using Q le unfolding Q_def Let_def split by (simp add: e(5) ks1(2,3))
  qed
  then show ?thesis
    unfolding Q_def Let_def assms(3) .
qed

lemma sys_clock_announce_exact:
  assumes "timeouts_ok ks" and "0 \<le> ticks"
  shows "\<exists>ks' fired. sys_clock_announce fn time_slice ticks ks = Some (time_slice ks', fired) \<and>
    filter (\<lambda>x. P (fst x)) fired = filter (\<lambda>x. P (fst x) \<and> snd x \<le> curr_tick ks + ticks) (expiries ks) \<and>
    timeouts_ok ks' \<and> curr_tick ks' = curr_tick ks + ticks \<and> announce_remaining ks' = 0 \<and>
    filter (\<lambda>x. P (fst x)) (expiries ks') = filter (\<lambda>x. P (fst x) \<and> curr_tick ks + ticks < snd x) (expiries ks)"
proof -
  let ?due = "curr_tick ks + ticks" and ?ks = "ks\<lparr>announce_remaining := ticks\<rparr>"
  have ok: "timeouts_ok ?ks"
    using assms by (simp add: timeouts_ok_def)
  from announce_loop_returns [OF this, of "[]"] assms(2) obtain ks1 fired where
    loop: "announce_loop fn ?ks [] = Some (ks1, fired)"
    and ks1: "timeouts_ok ks1" "curr_tick ks1 + announce_remaining ks1 = ?due"
      "\<forall>x \<in> set (expiries ks1). ?due < snd x"
    by auto
  have "filter (\<lambda>x. P (fst x)) fired = filter (\<lambda>x. P (fst x) \<and> snd x \<le> ?due) (expiries ks)"
    "filter (\<lambda>x. P (fst x)) (expiries ks1) = filter (\<lambda>x. P (fst x) \<and> ?due < snd x) (expiries ks)"
    using announce_loop_exact [OF ok _ refl, of "[]"] assms(2) loop by simp_all
  with ks1 announce_finish [OF ks1(1)] loop show ?thesis
    by (intro exI [of _ "announce_finish ks1"] exI [of _ fired]) (auto simp: sys_clock_announce_def)
qed

end

end
