(* ===== verification/Sys_Dlist.thy ===== *)
theory Sys_Dlist
  imports Zprelude
begin

text \<open>
  Intrusive doubly-linked lists (\<^verbatim>\<open>include/zephyr/sys/dlist.h\<close>) over an explicit store: a node is an
  address, a store gives the \<^verbatim>\<open>next\<close> and \<^verbatim>\<open>prev\<close> fields of every node, and a list is a node too
  (its \<^verbatim>\<open>head\<close> and \<^verbatim>\<open>tail\<close> share the storage of \<^verbatim>\<open>next\<close> and \<^verbatim>\<open>prev\<close>).  \<open>dlist s l xs\<close> says that
  in store \<open>s\<close> the circular list \<open>l\<close> links exactly the nodes \<open>xs\<close>; every operation of the header is
  shown to implement its counterpart on sequences, to leave other lists alone, and the walks over a
  list to return.
\<close>

subsection \<open>The store and the operations of dlist.h\<close>

record dstore =
  d_next :: "addr \<Rightarrow> addr"
  d_prev :: "addr \<Rightarrow> addr"

definition set_next :: "addr \<Rightarrow> addr \<Rightarrow> dstore \<Rightarrow> dstore" where
  "set_next a b s = s\<lparr>d_next := (d_next s)(a := b)\<rparr>"

definition set_prev :: "addr \<Rightarrow> addr \<Rightarrow> dstore \<Rightarrow> dstore" where
  "set_prev a b s = s\<lparr>d_prev := (d_prev s)(a := b)\<rparr>"

definition sys_dlist_init :: "addr \<Rightarrow> dstore \<Rightarrow> dstore" where
  "sys_dlist_init l s = (let s = set_next l l s in set_prev l l s)"

definition sys_dnode_init :: "addr \<Rightarrow> dstore \<Rightarrow> dstore" where
  "sys_dnode_init n s = (let s = set_next n NULL s in set_prev n NULL s)"

definition sys_dnode_is_linked :: "addr \<Rightarrow> dstore \<Rightarrow> bool" where
  "sys_dnode_is_linked n s \<longleftrightarrow> d_next s n \<noteq> NULL"

definition sys_dlist_is_head :: "addr \<Rightarrow> addr \<Rightarrow> dstore \<Rightarrow> bool" where
  "sys_dlist_is_head l n s \<longleftrightarrow> d_next s l = n"

definition sys_dlist_is_tail :: "addr \<Rightarrow> addr \<Rightarrow> dstore \<Rightarrow> bool" where
  "sys_dlist_is_tail l n s \<longleftrightarrow> d_prev s l = n"

definition sys_dlist_is_empty :: "addr \<Rightarrow> dstore \<Rightarrow> bool" where
  "sys_dlist_is_empty l s \<longleftrightarrow> d_next s l = l"

definition sys_dlist_has_multiple_nodes :: "addr \<Rightarrow> dstore \<Rightarrow> bool" where
  "sys_dlist_has_multiple_nodes l s \<longleftrightarrow> d_next s l \<noteq> d_prev s l"

definition sys_dlist_peek_head :: "addr \<Rightarrow> dstore \<Rightarrow> addr" where
  "sys_dlist_peek_head l s = (if sys_dlist_is_empty l s then NULL else d_next s l)"

definition sys_dlist_peek_next_no_check :: "addr \<Rightarrow> addr \<Rightarrow> dstore \<Rightarrow> addr" where
  "sys_dlist_peek_next_no_check l n s = (if n = d_prev s l then NULL else d_next s n)"

definition sys_dlist_peek_next :: "addr \<Rightarrow> addr \<Rightarrow> dstore \<Rightarrow> addr" where
  "sys_dlist_peek_next l n s = (if n \<noteq> NULL then sys_dlist_peek_next_no_check l n s else NULL)"

definition sys_dlist_peek_prev_no_check :: "addr \<Rightarrow> addr \<Rightarrow> dstore \<Rightarrow> addr" where
  "sys_dlist_peek_prev_no_check l n s = (if n = d_next s l then NULL else d_prev s n)"

definition sys_dlist_peek_prev :: "addr \<Rightarrow> addr \<Rightarrow> dstore \<Rightarrow> addr" where
  "sys_dlist_peek_prev l n s = (if n \<noteq> NULL then sys_dlist_peek_prev_no_check l n s else NULL)"

definition sys_dlist_peek_tail :: "addr \<Rightarrow> dstore \<Rightarrow> addr" where
  "sys_dlist_peek_tail l s = (if sys_dlist_is_empty l s then NULL else d_prev s l)"

definition sys_dlist_append :: "addr \<Rightarrow> addr \<Rightarrow> dstore \<Rightarrow> dstore" where
  "sys_dlist_append l n s =
     (let tail = d_prev s l;
          s = set_next n l s;
          s = set_prev n tail s;
          s = set_next tail n s
      in set_prev l n s)"

definition sys_dlist_prepend :: "addr \<Rightarrow> addr \<Rightarrow> dstore \<Rightarrow> dstore" where
  "sys_dlist_prepend l n s =
     (let head = d_next s l;
          s = set_next n head s;
          s = set_prev n l s;
          s = set_prev head n s
      in set_next l n s)"

definition sys_dlist_insert :: "addr \<Rightarrow> addr \<Rightarrow> dstore \<Rightarrow> dstore" where
  "sys_dlist_insert successor n s =
     (let prev = d_prev s successor;
          s = set_prev n prev s;
          s = set_next n successor s;
          s = set_next prev n s
      in set_prev successor n s)"

definition sys_dlist_remove :: "addr \<Rightarrow> dstore \<Rightarrow> dstore" where
  "sys_dlist_remove n s =
     (let prev = d_prev s n;
          nxt = d_next s n;
          s = set_next prev nxt s;
          s = set_prev nxt prev s
      in sys_dnode_init n s)"

definition sys_dlist_get :: "addr \<Rightarrow> dstore \<Rightarrow> addr \<times> dstore" where
  "sys_dlist_get l s =
     (if \<not> sys_dlist_is_empty l s
      then (let n = d_next s l in (n, sys_dlist_remove n s))
      else (NULL, s))"

text \<open>The loops walk the list through \<open>sys_dlist_peek_next\<close>; on a corrupt store they may not end.\<close>

partial_function (option) insert_at_pos ::
    "(addr \<Rightarrow> bool) \<Rightarrow> addr \<Rightarrow> addr \<Rightarrow> dstore \<Rightarrow> addr option" where
  "insert_at_pos cond l pos s =
     (if pos \<noteq> NULL \<and> \<not> cond pos
      then insert_at_pos cond l (sys_dlist_peek_next l pos s) s
      else Some pos)"

definition sys_dlist_insert_at ::
    "addr \<Rightarrow> addr \<Rightarrow> (addr \<Rightarrow> bool) \<Rightarrow> dstore \<Rightarrow> dstore option" where
  "sys_dlist_insert_at l n cond s =
     (if sys_dlist_is_empty l s then Some (sys_dlist_append l n s)
      else map_option
             (\<lambda>pos. if pos \<noteq> NULL then sys_dlist_insert pos n s else sys_dlist_append l n s)
             (insert_at_pos cond l (sys_dlist_peek_head l s) s))"

partial_function (option) dlist_len_from :: "addr \<Rightarrow> addr \<Rightarrow> nat \<Rightarrow> dstore \<Rightarrow> nat option" where
  "dlist_len_from l n len s =
     (if n \<noteq> NULL then dlist_len_from l (sys_dlist_peek_next l n s) (Suc len) s else Some len)"

definition sys_dlist_len :: "addr \<Rightarrow> dstore \<Rightarrow> nat option" where
  "sys_dlist_len l s = dlist_len_from l (sys_dlist_peek_head l s) 0 s"

lemmas dlist_defs =
  set_next_def set_prev_def sys_dlist_init_def sys_dnode_init_def sys_dlist_append_def
  sys_dlist_prepend_def sys_dlist_insert_def sys_dlist_remove_def Let_def

subsection \<open>Representation of a sequence of nodes\<close>

fun links :: "dstore \<Rightarrow> addr list \<Rightarrow> bool" where
  "links s (a # b # r) \<longleftrightarrow> d_next s a = b \<and> d_prev s b = a \<and> links s (b # r)"
| "links s _ \<longleftrightarrow> True"

definition dlist :: "dstore \<Rightarrow> addr \<Rightarrow> addr list \<Rightarrow> bool" where
  "dlist s l xs \<longleftrightarrow> l \<noteq> NULL \<and> NULL \<notin> set xs \<and> distinct (l # xs) \<and> links s (l # xs @ [l])"

lemma links_append: "links s (us @ a # vs) \<longleftrightarrow> links s (us @ [a]) \<and> links s (a # vs)"
proof (induction us)
  case (Cons u us)
  then show ?case by (cases us) auto
qed simp

lemma links_mid: "links s (us @ a # b # vs) \<Longrightarrow> d_next s a = b \<and> d_prev s b = a"
  by (simp add: links_append [of s us a "b # vs"])

lemma links_cong:
  assumes "\<And>a. a \<in> set (butlast xs) \<Longrightarrow> d_next s a = d_next t a"
    and "\<And>a. a \<in> set (tl xs) \<Longrightarrow> d_prev s a = d_prev t a"
  shows "links s xs \<longleftrightarrow> links t xs"
  using assms by (induction t xs rule: links.induct) (auto split: if_splits)

text \<open>Inserting between, and removing from between, two neighbours.\<close>

lemma links_insert_between:
  assumes "links s (p @ a # b # q)" and "n \<notin> set (p @ a # b # q)"
    and "a \<notin> set p" and "a \<notin> set (butlast (b # q))" and "b \<notin> set q" and "b \<notin> set (tl (p @ [a]))"
    and "d_next t = (d_next s)(n := b, a := n)" and "d_prev t = (d_prev s)(n := a, b := n)"
  shows "links t (p @ a # n # b # q)"
proof -
  have l: "links s (p @ [a])" and r: "links s (b # q)"
    using assms(1) links_append [of s p a "b # q"] by auto
  have n: "n \<notin> set (tl (p @ [a]))" "n \<notin> set (butlast (b # q))"
    using assms(2) in_set_tlD [of n "p @ [a]"] in_set_butlastD [of n "b # q"] by auto
  have "links t (p @ [a])"
    using l assms(2-8) n by (subst links_cong [of _ t s]) auto
  moreover have "links t (b # q)"
    using r assms(2-8) n by (subst links_cong [of _ t s]) auto
  moreover have "links t (a # n # b # q)"
    using assms(2,7,8) calculation(2) by auto
  ultimately show ?thesis
    by (simp add: links_append [of t p a "n # b # q"])
qed

lemma links_remove_between:
  assumes "links s (p @ a # n # b # q)" and "n \<notin> set (p @ a # b # q)"
    and "a \<notin> set p" and "a \<notin> set (butlast (b # q))" and "b \<notin> set q" and "b \<notin> set (tl (p @ [a]))"
    and "d_next t = (d_next s)(a := b, n := x)" and "d_prev t = (d_prev s)(b := a, n := y)"
  shows "links t (p @ a # b # q)"
proof -
  have l: "links s (p @ [a])" and r: "links s (b # q)"
    using assms(1) links_append [of s p a "n # b # q"] by auto
  have n: "n \<notin> set (tl (p @ [a]))" "n \<notin> set (butlast (b # q))"
    using assms(2) in_set_tlD [of n "p @ [a]"] in_set_butlastD [of n "b # q"] by auto
  have "links t (p @ [a])"
    using l assms(2-8) n by (subst links_cong [of _ t s]) auto
  moreover have "links t (b # q)"
    using r assms(2-8) n by (subst links_cong [of _ t s]) auto
  moreover have "links t (a # b # q)"
    using assms(2,7,8) calculation(2) by auto
  ultimately show ?thesis
    by (simp add: links_append [of t p a "b # q"])
qed

subsection \<open>Refinement of the operations\<close>

lemma dlist_init: "l \<noteq> NULL \<Longrightarrow> dlist (sys_dlist_init l s) l []"
  by (simp add: dlist_def dlist_defs)

text \<open>A circular list cut before and after a position.\<close>

lemma cut_before:
  obtains p a where "\<And>ws. l # us @ ws = p @ a # ws" and "tl (p @ [a]) = us"
    and "insert l (set us) = insert a (set p)"
proof -
  obtain p a where p: "l # us = p @ [a]"
    by (metis rev_exhaust list.distinct(1))
  have "l # us @ ws = p @ a # ws" for ws
    using arg_cong [OF p, of "\<lambda>z. z @ ws"] by simp
  moreover have "tl (p @ [a]) = us"
    by (simp add: p [symmetric])
  moreover have "insert l (set us) = insert a (set p)"
    using arg_cong [OF p, of set] by simp
  ultimately show thesis
    by (rule that)
qed

lemma cut_after:
  obtains b q where "vs @ [l] = b # q" and "set (butlast (b # q)) = set vs"
    and "distinct (vs @ [l]) \<Longrightarrow> b \<notin> set q" and "b = (if vs = [] then l else hd vs)"
proof (cases "vs @ [l]")
  case (Cons b q)
  then have "butlast (b # q) = vs"
    by (metis butlast_snoc)
  with Cons show ?thesis
    by (intro that [of b q]) (auto simp: Cons_eq_append_conv)
qed simp

lemma dlist_insert:
  assumes "dlist s l (us @ k # vs)" and "n \<notin> set (l # us @ k # vs)" and "n \<noteq> NULL"
  shows "dlist (sys_dlist_insert k n s) l (us @ n # k # vs)"
proof -
  obtain p a where cat: "\<And>ws. l # us @ ws = p @ a # ws" and tl: "tl (p @ [a]) = us"
    and set_pa: "insert l (set us) = insert a (set p)"
    by (rule cut_before [of l us]) (rule that)
  have l: "links s (p @ a # k # vs @ [l])" and d: "distinct (p @ a # k # vs)"
    using assms(1) by (simp_all add: dlist_def cat [symmetric])
  have prev: "d_prev s k = a"
    using l by (simp add: links_append [of s p a "k # vs @ [l]"])
  have ids: "l \<noteq> k" "n \<notin> set (p @ a # k # vs @ [l])"
    using assms(1,2) by (auto simp: dlist_def cat [symmetric])
  have "links (sys_dlist_insert k n s) (p @ a # n # k # vs @ [l])"
    by (rule links_insert_between [OF l ids(2)])
      (use d prev ids assms(1) tl in \<open>simp_all add: dlist_defs dlist_def butlast_append fun_upd_twist\<close>)
  then show ?thesis
    using assms by (auto simp: dlist_def cat)
qed

lemma dlist_append:
  assumes "dlist s l xs" and "n \<notin> set (l # xs)" and "n \<noteq> NULL"
  shows "dlist (sys_dlist_append l n s) l (xs @ [n])"
proof -
  obtain p a where cat: "\<And>ws. l # xs @ ws = p @ a # ws" and tl: "tl (p @ [a]) = xs"
    and set_pa: "insert l (set xs) = insert a (set p)"
    by (rule cut_before [of l xs]) (rule that)
  have l: "links s (p @ a # [l])" and d: "distinct (p @ [a])"
    using assms(1) cat [of "[]"] by (simp_all add: dlist_def cat [symmetric])
  have prev: "d_prev s l = a"
    using l by (simp add: links_append [of s p a "[l]"])
  have n: "n \<notin> set (p @ a # [l])"
    using assms(2) by (simp add: cat [symmetric])
  have "links (sys_dlist_append l n s) (p @ a # n # [l])"
    by (rule links_insert_between [OF l n])
      (use d prev assms(1,2) n tl in \<open>simp_all add: dlist_defs dlist_def fun_upd_twist\<close>)
  then have "links (sys_dlist_append l n s) (l # xs @ [n, l])"
    by (simp add: cat)
  then show ?thesis
    using assms by (auto simp: dlist_def)
qed

lemma dlist_prepend:
  assumes "dlist s l xs" and "n \<notin> set (l # xs)" and "n \<noteq> NULL"
  shows "dlist (sys_dlist_prepend l n s) l (n # xs)"
proof -
  obtain b q where bq: "xs @ [l] = b # q" and bl: "set (butlast (b # q)) = set xs"
    and b: "distinct (xs @ [l]) \<Longrightarrow> b \<notin> set q" and hd_b: "b = (if xs = [] then l else hd xs)"
    by (rule cut_after [of xs l]) (rule that)
  have set_bq: "insert b (set q) = insert l (set xs)"
    using arg_cong [OF bq, of set] by auto
  have l: "links s ([] @ l # b # q)"
    using assms(1) by (simp add: dlist_def bq)
  then have nxt: "d_next s l = b"
    by simp
  have "links (sys_dlist_prepend l n s) ([] @ l # n # b # q)"
    by (rule links_insert_between [OF l])
      (use b nxt assms(1,2) bl set_bq in \<open>auto simp: dlist_defs dlist_def fun_upd_twist\<close>)
  then show ?thesis
    using assms by (auto simp: dlist_def bq)
qed

lemma dlist_remove:
  assumes "dlist s l (us @ n # vs)"
  shows "dlist (sys_dlist_remove n s) l (us @ vs)"
    and "\<not> sys_dnode_is_linked n (sys_dlist_remove n s)"
proof -
  obtain p a where cat: "\<And>ws. l # us @ ws = p @ a # ws" and tl: "tl (p @ [a]) = us"
    and set_pa: "insert l (set us) = insert a (set p)"
    by (rule cut_before [of l us]) (rule that)
  obtain b q where bq: "vs @ [l] = b # q" and bl: "set (butlast (b # q)) = set vs"
    and b: "distinct (vs @ [l]) \<Longrightarrow> b \<notin> set q" and hd_b: "b = (if vs = [] then l else hd vs)"
    by (rule cut_after [of vs l]) (rule that)
  have set_bq: "insert b (set q) = insert l (set vs)"
    using arg_cong [OF bq, of set] by auto
  have l: "links s (p @ a # n # b # q)" and d: "distinct (p @ a # n # vs)"
    using assms by (simp_all add: dlist_def cat [symmetric] bq [symmetric])
  have nb: "d_prev s n = a" "d_next s n = b"
    using l by (simp_all add: links_append [of s p a "n # b # q"])
  have l': "l \<notin> set (us @ n # vs)" "distinct (us @ n # vs)"
    using assms by (auto simp: dlist_def)
  have n: "n \<notin> set (p @ a # b # q)"
    using l' set_pa set_bq by auto
  have "links (sys_dlist_remove n s) (p @ a # b # q)"
  proof (rule links_remove_between [OF l n])
    show "b \<notin> set (tl (p @ [a]))"
      using l' hd_b tl by (cases vs) auto
    show "a \<notin> set (butlast (b # q))"
      using d bl by auto
    show "b \<notin> set q"
      using l' by (intro b) auto
  qed (use nb d in \<open>auto simp: dlist_defs\<close>)
  then have "links (sys_dlist_remove n s) (l # us @ vs @ [l])"
    by (simp add: cat bq)
  then show "dlist (sys_dlist_remove n s) l (us @ vs)"
    using assms by (auto simp: dlist_def)
  show "\<not> sys_dnode_is_linked n (sys_dlist_remove n s)"
    by (simp add: sys_dnode_is_linked_def dlist_defs)
qed

lemma dlist_unique: "dlist s l xs \<Longrightarrow> dlist s l ys \<Longrightarrow> xs = ys"
proof -
  have "links s (a # xs @ [l]) \<Longrightarrow> links s (a # ys @ [l]) \<Longrightarrow> l \<notin> set xs \<Longrightarrow> l \<notin> set ys \<Longrightarrow> xs = ys" for a
  proof (induction xs arbitrary: a ys)
    case Nil
    then show ?case by (cases ys) auto
  next
    case (Cons x xs)
    then show ?case by (cases ys) auto
  qed
  then show "dlist s l xs \<Longrightarrow> dlist s l ys \<Longrightarrow> xs = ys"
    by (auto simp: dlist_def)
qed

lemma dlist_head: "dlist s l xs \<Longrightarrow> d_next s l = (if xs = [] then l else hd xs)"
  by (cases xs) (auto simp: dlist_def)

lemma dlist_tail: "dlist s l xs \<Longrightarrow> d_prev s l = (if xs = [] then l else last xs)"
  by (cases xs rule: rev_cases) (auto simp: dlist_def dest: links_mid [of s "l # us" a l "[]" for us a, simplified])

lemma dlist_is_empty: "dlist s l xs \<Longrightarrow> sys_dlist_is_empty l s \<longleftrightarrow> xs = []"
  by (cases xs) (auto simp: sys_dlist_is_empty_def dlist_def)

lemma dlist_peek_head: "dlist s l xs \<Longrightarrow> sys_dlist_peek_head l s = (if xs = [] then NULL else hd xs)"
  by (simp add: sys_dlist_peek_head_def dlist_is_empty dlist_head)

lemma dlist_peek_tail: "dlist s l xs \<Longrightarrow> sys_dlist_peek_tail l s = (if xs = [] then NULL else last xs)"
  by (simp add: sys_dlist_peek_tail_def dlist_is_empty dlist_tail)

lemma dlist_has_multiple_nodes:
  assumes "dlist s l xs"
  shows "sys_dlist_has_multiple_nodes l s \<longleftrightarrow> 2 \<le> length xs"
proof -
  have "hd xs = last xs \<longleftrightarrow> length xs < 2" if "xs \<noteq> []" "distinct xs"
    using that by (cases xs) auto
  moreover have "distinct xs"
    using assms by (simp add: dlist_def)
  ultimately show ?thesis
    using dlist_head [OF assms] dlist_tail [OF assms]
    by (auto simp: sys_dlist_has_multiple_nodes_def)
qed

lemma dlist_next: "dlist s l (us @ n # vs) \<Longrightarrow> d_next s n = hd (vs @ [l])"
  using links_mid [of s "l # us" n "hd (vs @ [l])" "tl (vs @ [l])"]
  by (cases vs) (auto simp: dlist_def)

lemma dlist_peek_next:
  assumes "dlist s l (us @ n # vs)"
  shows "sys_dlist_peek_next l n s = (if vs = [] then NULL else hd vs)"
proof -
  have "d_next s n = hd (vs @ [l])"
    using assms by (rule dlist_next)
  moreover have "n = d_prev s l \<longleftrightarrow> vs = []"
    using dlist_tail [OF assms] assms by (auto simp: dlist_def)
  moreover have "n \<noteq> NULL"
    using assms by (auto simp: dlist_def)
  ultimately show ?thesis
    by (auto simp: sys_dlist_peek_next_def sys_dlist_peek_next_no_check_def)
qed

lemma dlist_peek_prev:
  assumes "dlist s l (us @ n # vs)"
  shows "sys_dlist_peek_prev l n s = (if us = [] then NULL else last us)"
proof -
  obtain p a where cat: "\<And>ws. l # us @ ws = p @ a # ws" and tl: "tl (p @ [a]) = us"
    and set_pa: "insert l (set us) = insert a (set p)"
    by (rule cut_before [of l us]) (rule that)
  have "links s (p @ a # n # vs @ [l])"
    using assms by (simp add: dlist_def cat)
  then have "d_prev s n = a"
    by (simp add: links_append [of s p a "n # vs @ [l]"])
  moreover have "us \<noteq> [] \<Longrightarrow> a = last us"
    using tl by (cases p) auto
  moreover have "n = d_next s l \<longleftrightarrow> us = []"
    using dlist_head [OF assms] assms by (cases us) (auto simp: dlist_def)
  moreover have "n \<noteq> NULL"
    using assms by (auto simp: dlist_def)
  ultimately show ?thesis
    by (auto simp: sys_dlist_peek_prev_def sys_dlist_peek_prev_no_check_def)
qed

lemma dlist_get:
  assumes "dlist s l xs" and "sys_dlist_get l s = (n, t)"
  shows "dlist t l (tl xs)" and "n = (if xs = [] then NULL else hd xs)"
  using assms dlist_remove(1) [of s l "[]" "hd xs" "tl xs"]
  by (auto simp: sys_dlist_get_def dlist_is_empty dlist_head Let_def split: if_splits)

text \<open>Nodes of a list are linked, and only the nodes next to the change are written.\<close>

lemma dlist_is_linked:
  assumes "dlist s l xs" and "n \<in> set xs"
  shows "sys_dnode_is_linked n s"
proof -
  obtain us vs where xs: "xs = us @ n # vs"
    using split_list [OF assms(2)] by blast
  then have "d_next s n = hd (vs @ [l])"
    using assms(1) by (simp add: dlist_next)
  then show ?thesis
    using assms(1) xs by (cases vs) (auto simp: sys_dnode_is_linked_def dlist_def)
qed

lemma dlist_cong:
  assumes "\<And>a. a \<in> set (l # xs) \<Longrightarrow> d_next s a = d_next t a"
    and "\<And>a. a \<in> set (l # xs) \<Longrightarrow> d_prev s a = d_prev t a"
  shows "dlist s l xs \<longleftrightarrow> dlist t l xs"
  using links_cong [of "l # xs @ [l]" s t] assms by (auto simp: dlist_def butlast_append)

lemma dlist_nbrs:
  assumes "dlist s l xs"
  shows "d_next s l \<in> set (l # xs)" and "d_prev s l \<in> set (l # xs)"
  using dlist_head [OF assms] dlist_tail [OF assms] by simp_all

lemma dlist_prev:
  assumes "dlist s l (us @ n # vs)"
  shows "d_prev s n = last (l # us)"
proof -
  obtain p a where cat: "\<And>ws. l # us @ ws = p @ a # ws" and tl: "tl (p @ [a]) = us"
    and set_pa: "insert l (set us) = insert a (set p)"
    by (rule cut_before [of l us]) (rule that)
  have "last (l # us) = a"
    using arg_cong [OF cat [of "[]"], of last] by simp
  moreover have "links s (p @ a # n # vs @ [l])"
    using assms by (simp add: dlist_def cat)
  ultimately show ?thesis
    using links_mid by metis
qed

lemma append_frame:
  assumes "dlist s l xs" and "a \<notin> set (n # l # xs)"
  shows "d_next (sys_dlist_append l n s) a = d_next s a"
    and "d_prev (sys_dlist_append l n s) a = d_prev s a"
proof -
  have "a \<noteq> d_prev s l"
    using assms dlist_nbrs [OF assms(1)] by auto
  then show "d_next (sys_dlist_append l n s) a = d_next s a"
    and "d_prev (sys_dlist_append l n s) a = d_prev s a"
    using assms(2) by (simp_all add: dlist_defs)
qed

lemma prepend_frame:
  assumes "dlist s l xs" and "a \<notin> set (n # l # xs)"
  shows "d_next (sys_dlist_prepend l n s) a = d_next s a"
    and "d_prev (sys_dlist_prepend l n s) a = d_prev s a"
proof -
  have "a \<noteq> d_next s l"
    using assms dlist_nbrs [OF assms(1)] by auto
  then show "d_next (sys_dlist_prepend l n s) a = d_next s a"
    and "d_prev (sys_dlist_prepend l n s) a = d_prev s a"
    using assms(2) by (simp_all add: dlist_defs)
qed

lemma insert_frame:
  assumes "dlist s l (us @ k # vs)" and "a \<notin> set (n # l # us @ k # vs)"
  shows "d_next (sys_dlist_insert k n s) a = d_next s a"
    and "d_prev (sys_dlist_insert k n s) a = d_prev s a"
proof -
  have "a \<noteq> d_prev s k"
    using assms dlist_prev [OF assms(1)] last_in_set [of "l # us"] by auto
  then show "d_next (sys_dlist_insert k n s) a = d_next s a"
    and "d_prev (sys_dlist_insert k n s) a = d_prev s a"
    using assms(2) by (simp_all add: dlist_defs)
qed

lemma remove_frame:
  assumes "dlist s l (us @ n # vs)" and "a \<notin> set (l # us @ n # vs)"
  shows "d_next (sys_dlist_remove n s) a = d_next s a"
    and "d_prev (sys_dlist_remove n s) a = d_prev s a"
proof -
  have "a \<noteq> d_prev s n" and "a \<noteq> d_next s n"
    using assms(2) dlist_prev [OF assms(1)] dlist_next [OF assms(1)] last_in_set [of "l # us"]
      hd_in_set [of "vs @ [l]"] by auto
  then show "d_next (sys_dlist_remove n s) a = d_next s a"
    and "d_prev (sys_dlist_remove n s) a = d_prev s a"
    using assms(2) by (simp_all add: dlist_defs)
qed

subsection \<open>The loops\<close>

lemma insert_at_pos_returns:
  "dlist s l (us @ vs) \<Longrightarrow>
   insert_at_pos cond l (if vs = [] then NULL else hd vs) s =
     Some (case dropWhile (\<lambda>x. \<not> cond x) vs of [] \<Rightarrow> NULL | k # _ \<Rightarrow> k)"
proof (induction vs arbitrary: us)
  case Nil
  then show ?case by (simp add: insert_at_pos.simps)
next
  case (Cons v vs)
  have "v \<noteq> NULL" and "sys_dlist_peek_next l v s = (if vs = [] then NULL else hd vs)"
    using Cons.prems dlist_peek_next [OF Cons.prems] by (auto simp: dlist_def)
  then show ?case
    using Cons.IH [of "us @ [v]"] Cons.prems by (subst insert_at_pos.simps) auto
qed

lemma dlist_insert_at:
  assumes "dlist s l xs" and "n \<notin> set (l # xs)" and "n \<noteq> NULL"
  shows "\<exists>t. sys_dlist_insert_at l n cond s = Some t \<and>
           dlist t l (takeWhile (\<lambda>x. \<not> cond x) xs @ n # dropWhile (\<lambda>x. \<not> cond x) xs)"
proof (cases "dropWhile (\<lambda>x. \<not> cond x) xs")
  case Nil
  then have "takeWhile (\<lambda>x. \<not> cond x) xs = xs"
    by (metis append_Nil2 takeWhile_dropWhile_id)
  moreover have "sys_dlist_insert_at l n cond s = Some (sys_dlist_append l n s)"
    using insert_at_pos_returns [of s l "[]" xs cond] assms(1) unfolding Nil
    by (cases "xs = []") (simp_all add: sys_dlist_insert_at_def dlist_is_empty dlist_peek_head)
  ultimately show ?thesis
    using dlist_append [OF assms] Nil by metis
next
  case (Cons k ks)
  then have xs: "takeWhile (\<lambda>x. \<not> cond x) xs @ k # ks = xs"
    by (metis takeWhile_dropWhile_id)
  then have k: "k \<in> set xs"
    by (metis in_set_conv_decomp)
  then have "xs \<noteq> []" and "k \<noteq> NULL"
    using assms(1) by (auto simp: dlist_def) (metis not_gr0)
  then have "sys_dlist_insert_at l n cond s = Some (sys_dlist_insert k n s)"
    using insert_at_pos_returns [of s l "[]" xs cond] assms(1) unfolding Cons
    by (simp add: sys_dlist_insert_at_def dlist_is_empty dlist_peek_head)
  then show ?thesis
    using assms dlist_insert [of s l "takeWhile (\<lambda>x. \<not> cond x) xs" k ks n]
    unfolding Cons xs by simp
qed

lemma dlist_len_from:
  "dlist s l (us @ vs) \<Longrightarrow>
   dlist_len_from l (if vs = [] then NULL else hd vs) k s = Some (k + length vs)"
proof (induction vs arbitrary: us k)
  case Nil
  then show ?case by (simp add: dlist_len_from.simps)
next
  case (Cons v vs)
  have "v \<noteq> NULL" and "sys_dlist_peek_next l v s = (if vs = [] then NULL else hd vs)"
    using Cons.prems dlist_peek_next [OF Cons.prems] by (auto simp: dlist_def)
  then show ?case
    using Cons.IH [of "us @ [v]" "Suc k"] Cons.prems by (subst dlist_len_from.simps) auto
qed

lemma dlist_len: "dlist s l xs \<Longrightarrow> sys_dlist_len l s = Some (length xs)"
  using dlist_len_from [of s l "[]" xs 0] by (simp add: sys_dlist_len_def dlist_peek_head)

subsection \<open>Properties\<close>

text \<open>C8: The list operations implement sequences: appending, prepending, inserting at the first node that
  meets a condition (which returns) and removing a node act on the linked sequence as their names say,
  and \<^verbatim>\<open>sys_dlist_get\<close> takes the first element of a list.\<close>

theorem dlist_refines_sequence:
  assumes "dlist s l xs" and "n \<notin> set (l # xs)" and "n \<noteq> NULL"
  shows "dlist (sys_dlist_append l n s) l (xs @ [n]) \<and> dlist (sys_dlist_prepend l n s) l (n # xs) \<and>
    (\<exists>t. sys_dlist_insert_at l n cond s = Some t \<and>
       dlist t l (takeWhile (\<lambda>x. \<not> cond x) xs @ n # dropWhile (\<lambda>x. \<not> cond x) xs)) \<and>
    (\<forall>us m vs. xs = us @ m # vs \<longrightarrow> dlist (sys_dlist_remove m s) l (us @ vs)) \<and>
    dlist (snd (sys_dlist_get l s)) l (tl xs) \<and>
    fst (sys_dlist_get l s) = (if xs = [] then NULL else hd xs)"
  using dlist_append [OF assms] dlist_prepend [OF assms] dlist_insert_at [OF assms, of cond]
    dlist_remove(1) [of s l] dlist_get [OF assms(1), of "fst (sys_dlist_get l s)" "snd (sys_dlist_get l s)"] assms(1)
  by auto

theorem dlist_refines_sequence_witness:
  "dlist (sys_dlist_append 1 2 (sys_dlist_init 1 \<lparr>d_next = \<lambda>_. 0, d_prev = \<lambda>_. 0\<rparr>)) 1 [2]"
  using dlist_refines_sequence [of "sys_dlist_init 1 \<lparr>d_next = \<lambda>_. 0, d_prev = \<lambda>_. 0\<rparr>" 1 "[]" 2] dlist_init [of 1]
  by simp

text \<open>\<^verbatim>\<open>sys_dlist_len\<close> returns on every well-formed list, with the number of nodes linked in it.\<close>

lemma sys_dlist_len_returns:
  assumes "dlist s l xs"
  shows "sys_dlist_len l s = Some (length xs)"
  using assms by (rule dlist_len)

end
