(* ===== verification/Math_Extras.thy ===== *)
theory Math_Extras
  imports Zprelude
begin

text \<open>
  \<^verbatim>\<open>include/zephyr/sys/math_extras_impl.h\<close>: the portable versions of the overflow-checked
  arithmetic (the value of \<^verbatim>\<open>*result\<close> is returned beside the flag; \<^verbatim>\<open>size_t\<close> has 32 bits) and
  of the bit counts.  The flags are shown to be set exactly when the exact result does not fit, and
  the counts to be the position of the lowest and of the highest set bit.
\<close>

subsection \<open>Overflow-checked arithmetic\<close>

definition u16_add_overflow :: "u16 \<Rightarrow> u16 \<Rightarrow> bool \<times> u16" where
  "u16_add_overflow a b = (let c = a + b in (c < a, c))"

definition u32_add_overflow :: "u32 \<Rightarrow> u32 \<Rightarrow> bool \<times> u32" where
  "u32_add_overflow a b = (let c = a + b in (c < a, c))"

definition u64_add_overflow :: "u64 \<Rightarrow> u64 \<Rightarrow> bool \<times> u64" where
  "u64_add_overflow a b = (let c = a + b in (c < a, c))"

definition size_add_overflow :: "u32 \<Rightarrow> u32 \<Rightarrow> bool \<times> u32" where
  "size_add_overflow a b = (let c = a + b in (c < a, c))"

definition u16_mul_overflow :: "u16 \<Rightarrow> u16 \<Rightarrow> bool \<times> u16" where
  "u16_mul_overflow a b = (let c = a * b in (a \<noteq> 0 \<and> c div a \<noteq> b, c))"

definition u32_mul_overflow :: "u32 \<Rightarrow> u32 \<Rightarrow> bool \<times> u32" where
  "u32_mul_overflow a b = (let c = a * b in (a \<noteq> 0 \<and> c div a \<noteq> b, c))"

definition u64_mul_overflow :: "u64 \<Rightarrow> u64 \<Rightarrow> bool \<times> u64" where
  "u64_mul_overflow a b = (let c = a * b in (a \<noteq> 0 \<and> c div a \<noteq> b, c))"

definition size_mul_overflow :: "u32 \<Rightarrow> u32 \<Rightarrow> bool \<times> u32" where
  "size_mul_overflow a b = (let c = a * b in (a \<noteq> 0 \<and> c div a \<noteq> b, c))"

lemma add_wraps_iff:
  fixes a b :: "'w::len word"
  shows "a + b < a \<longleftrightarrow> 2 ^ LENGTH('w) \<le> unat a + unat b"
proof (cases "unat a + unat b < 2 ^ LENGTH('w)")
  case True
  then show ?thesis
    by (simp add: word_less_nat_alt unat_word_ariths)
next
  case False
  moreover have "unat a + unat b - 2 ^ LENGTH('w) < 2 ^ LENGTH('w)"
    using unsigned_less [of a, where 'a = nat] unsigned_less [of b, where 'a = nat] by linarith
  ultimately have "unat (a + b) = unat a + unat b - 2 ^ LENGTH('w)"
    by (simp add: unat_word_ariths mod_if [of "unat a + unat b"])
  then show ?thesis
    using False unsigned_less [of b, where 'a = nat] unfolding word_less_nat_alt by linarith
qed

lemma mul_wraps_iff:
  fixes a b :: "'w::len word"
  shows "(a \<noteq> 0 \<and> (a * b) div a \<noteq> b) \<longleftrightarrow> 2 ^ LENGTH('w) \<le> unat a * unat b"
proof (cases "unat a * unat b < 2 ^ LENGTH('w)")
  case True
  then have "unat (a * b) = unat a * unat b"
    by (simp add: unat_word_ariths)
  moreover have "(a * b) div a = b \<longleftrightarrow> unat (a * b) div unat a = unat b"
    by (metis unat_div_distrib word_unat_eq_iff)
  ultimately show ?thesis
    using True by (auto simp: unat_eq_zero)
next
  case False
  then have pos: "0 < unat a"
    by (cases "unat a = 0") auto
  have "unat (a * b) < unat a * unat b"
    using False unsigned_less [of "a * b", where 'a = nat] by linarith
  then have "unat (a * b) div unat a < unat b"
    using pos by (simp add: div_less_iff_less_mult mult.commute)
  then have "(a * b) div a \<noteq> b"
    by (metis less_irrefl unat_div_distrib)
  then show ?thesis
    using False pos by (auto simp: unat_gt_0)
qed

subsection \<open>Counting zeros\<close>

function u32_clz_loop :: "nat \<Rightarrow> u32 \<Rightarrow> nat" where
  "u32_clz_loop b x = (if b < 32 \<and> drop_bit 31 x = 0 then u32_clz_loop (Suc b) (push_bit 1 x) else b)"
  by auto
termination by (relation "measure (\<lambda>(b, x). 32 - b)") auto

definition u32_count_leading_zeros :: "u32 \<Rightarrow> nat" where
  "u32_count_leading_zeros x = u32_clz_loop 0 x"

definition u64_count_leading_zeros :: "u64 \<Rightarrow> nat" where
  "u64_count_leading_zeros x =
     (if x = ucast (ucast x :: u32) then 32 + u32_count_leading_zeros (ucast x)
      else u32_count_leading_zeros (ucast (drop_bit 32 x)))"

function u32_ctz_loop :: "nat \<Rightarrow> u32 \<Rightarrow> nat" where
  "u32_ctz_loop b x = (if b < 32 \<and> x AND 1 = 0 then u32_ctz_loop (Suc b) (drop_bit 1 x) else b)"
  by auto
termination by (relation "measure (\<lambda>(b, x). 32 - b)") auto

definition u32_count_trailing_zeros :: "u32 \<Rightarrow> nat" where
  "u32_count_trailing_zeros x = u32_ctz_loop 0 x"

definition u64_count_trailing_zeros :: "u64 \<Rightarrow> nat" where
  "u64_count_trailing_zeros x =
     (if (ucast x :: u32) \<noteq> 0 then u32_count_trailing_zeros (ucast x)
      else 32 + u32_count_trailing_zeros (ucast (drop_bit 32 x)))"

declare u32_clz_loop.simps [simp del] u32_ctz_loop.simps [simp del]

lemma u32_bit_high: "32 \<le> i \<Longrightarrow> \<not> bit x i" for x :: u32
  using bit_imp_le_length [of x i] by auto

lemma u32_ctz_loop_spec:
  assumes "b \<le> 32" and "\<And>i. 32 \<le> b + i \<Longrightarrow> \<not> bit x i"
  shows "b \<le> u32_ctz_loop b x \<and> u32_ctz_loop b x \<le> 32 \<and>
    (\<forall>i. b + i < u32_ctz_loop b x \<longrightarrow> \<not> bit x i) \<and>
    (u32_ctz_loop b x < 32 \<longrightarrow> bit x (u32_ctz_loop b x - b))"
  using assms
proof (induction b x rule: u32_ctz_loop.induct)
  case (1 b x)
  have zero: "x AND 1 = 0 \<longleftrightarrow> \<not> bit x 0"
    by (simp add: and_one_eq bit_0 odd_iff_mod_2_eq_one even_iff_mod_2_eq_zero)
  show ?case
  proof (cases "b < 32 \<and> x AND 1 = 0")
    case True
    let ?n = "u32_ctz_loop (Suc b) (drop_bit 1 x)"
    have eq: "u32_ctz_loop b x = ?n"
      using True by (subst u32_ctz_loop.simps) simp
    have IH: "Suc b \<le> ?n \<and> ?n \<le> 32 \<and> (\<forall>i. Suc b + i < ?n \<longrightarrow> \<not> bit (drop_bit 1 x) i) \<and>
        (?n < 32 \<longrightarrow> bit (drop_bit 1 x) (?n - Suc b))"
      using True "1.prems"(2) by (intro "1.IH") (auto simp: bit_drop_bit_eq)
    have "\<not> bit x i" if "b + i < ?n" for i
      using that True IH zero by (cases i) (auto simp: bit_drop_bit_eq)
    moreover have "Suc (?n - Suc b) = ?n - b"
      using IH by linarith
    ultimately show ?thesis
      using IH by (auto simp: eq bit_drop_bit_eq)
  next
    case False
    then have "u32_ctz_loop b x = b"
      by (subst u32_ctz_loop.simps) auto
    with False zero "1.prems" show ?thesis by auto
  qed
qed

lemma u32_count_trailing_zeros_spec:
  "u32_count_trailing_zeros x \<le> 32 \<and> (\<forall>i < u32_count_trailing_zeros x. \<not> bit x i) \<and>
   (x \<noteq> 0 \<longrightarrow> bit x (u32_count_trailing_zeros x) \<and> u32_count_trailing_zeros x < 32)"
proof -
  let ?n = "u32_count_trailing_zeros x"
  have *: "?n \<le> 32" "\<forall>i < ?n. \<not> bit x i" "?n < 32 \<longrightarrow> bit x ?n"
    using u32_ctz_loop_spec [of 0 x] u32_bit_high [of _ x]
    by (auto simp: u32_count_trailing_zeros_def)
  moreover have "?n < 32" if "x \<noteq> 0"
  proof (rule ccontr)
    assume "\<not> ?n < 32"
    then have "x = 0"
      using * by (intro bit_word_eqI) auto
    with that show False by simp
  qed
  ultimately show ?thesis by blast
qed

lemma u32_clz_loop_spec:
  assumes "b \<le> 32" and "x = push_bit b y" and "\<And>i. 32 \<le> b + i \<Longrightarrow> \<not> bit y i"
  shows "b \<le> u32_clz_loop b x \<and> u32_clz_loop b x \<le> 32 \<and>
    (\<forall>i. 32 \<le> u32_clz_loop b x + i \<longrightarrow> \<not> bit y i) \<and>
    (u32_clz_loop b x < 32 \<longrightarrow> bit y (31 - u32_clz_loop b x))"
  using assms
proof (induction b x rule: u32_clz_loop.induct)
  case (1 b x)
  have "drop_bit 31 x = 0 \<longleftrightarrow> \<not> bit x 31"
  proof
    assume "\<not> bit x 31"
    then have "\<not> bit x (31 + n)" for n
      using u32_bit_high [of "31 + n" x] by (cases n) auto
    then show "drop_bit 31 x = 0"
      by (intro bit_word_eqI) (auto simp: bit_drop_bit_eq)
  next
    assume "drop_bit 31 x = 0"
    then have "\<not> bit (drop_bit 31 x) 0" by simp
    then show "\<not> bit x 31" by (simp add: bit_drop_bit_eq)
  qed
  then have top: "drop_bit 31 x = 0 \<longleftrightarrow> \<not> bit y (31 - b)" if "b < 32"
    using that "1.prems"(2) by (auto simp: bit_push_bit_iff)
  show ?case
  proof (cases "b < 32 \<and> drop_bit 31 x = 0")
    case True
    have eq: "u32_clz_loop b x = u32_clz_loop (Suc b) (push_bit 1 x)"
      using True by (subst u32_clz_loop.simps) simp
    have "\<not> bit y i" if "32 \<le> Suc b + i" for i
      using that True top "1.prems"(3) [of i] by (cases "i = 31 - b") auto
    then show ?thesis
      using True "1.prems"(2) "1.IH" unfolding eq by auto
  next
    case False
    then have "u32_clz_loop b x = b"
      by (subst u32_clz_loop.simps) auto
    with False top "1.prems" show ?thesis by auto
  qed
qed

lemma u32_count_leading_zeros_spec:
  "u32_count_leading_zeros x \<le> 32 \<and> (\<forall>i. 32 \<le> u32_count_leading_zeros x + i \<longrightarrow> \<not> bit x i) \<and>
   (x \<noteq> 0 \<longrightarrow> u32_count_leading_zeros x < 32 \<and> bit x (31 - u32_count_leading_zeros x))"
proof -
  let ?n = "u32_count_leading_zeros x"
  have *: "?n \<le> 32" "\<forall>i. 32 \<le> ?n + i \<longrightarrow> \<not> bit x i" "?n < 32 \<longrightarrow> bit x (31 - ?n)"
    using u32_clz_loop_spec [of 0 x x] u32_bit_high [of _ x]
    by (auto simp: u32_count_leading_zeros_def)
  moreover have "?n < 32" if "x \<noteq> 0"
    using that * by (metis bit_eqI le_neq_implies_less bit_0_eq bot_apply bot_bool_def le_add1)
  ultimately show ?thesis by blast
qed

subsection \<open>Properties\<close>

text \<open>C9: The overflow-checked additions and multiplications report an overflow exactly when the exact
  result does not fit the type, and store the result modulo the size of the type.\<close>

theorem overflow_flags_exact:
  "u16_add_overflow a b = (2 ^ 16 \<le> unat a + unat b, a + b) \<and>
   u32_add_overflow c d = (2 ^ 32 \<le> unat c + unat d, c + d) \<and>
   u64_add_overflow e f = (2 ^ 64 \<le> unat e + unat f, e + f) \<and>
   size_add_overflow c d = (2 ^ 32 \<le> unat c + unat d, c + d) \<and>
   u16_mul_overflow a b = (2 ^ 16 \<le> unat a * unat b, a * b) \<and>
   u32_mul_overflow c d = (2 ^ 32 \<le> unat c * unat d, c * d) \<and>
   u64_mul_overflow e f = (2 ^ 64 \<le> unat e * unat f, e * f) \<and>
   size_mul_overflow c d = (2 ^ 32 \<le> unat c * unat d, c * d)"
  unfolding u16_add_overflow_def u32_add_overflow_def u64_add_overflow_def size_add_overflow_def
    u16_mul_overflow_def u32_mul_overflow_def u64_mul_overflow_def size_mul_overflow_def Let_def
    add_wraps_iff mul_wraps_iff
  by simp

text \<open>The portable bit counts stop within 32 steps at the lowest, respectively the highest, set bit.\<close>

lemma u32_bit_counts:
  assumes "x \<noteq> 0"
  shows "u32_count_trailing_zeros x < 32 \<and> bit x (u32_count_trailing_zeros x) \<and>
    (\<forall>i < u32_count_trailing_zeros x. \<not> bit x i) \<and>
    u32_count_leading_zeros x < 32 \<and> bit x (31 - u32_count_leading_zeros x) \<and>
    (\<forall>i > 31 - u32_count_leading_zeros x. \<not> bit x i)"
  using u32_count_trailing_zeros_spec [of x] u32_count_leading_zeros_spec [of x] assms by auto

end
