(* ===== verification/Prio_Queue.thy ===== *)
theory Prio_Queue
  imports Sys_Dlist Kernel_State Math_Extras "HOL-Library.Multiset"
begin

text \<open>
  The priority queues of \<^verbatim>\<open>kernel/include/priority_q.h\<close>.  Three layers are related: the ``dumb''
  queue as a sequence of threads (used by the scheduler model), the same queue on the pointer store
  of \<^verbatim>\<open>Sys_Dlist\<close> (the queue node of a thread is identified with the thread), and the
  multi-queue with its bitmap.  Both implementations satisfy the contract \<open>prio_queue\<close>, under which
  draining a queue yields a stable sort by priority.
\<close>

subsection \<open>The queue as a sequence\<close>

definition z_sched_prio_cmp :: "(tid \<Rightarrow> k_thread) \<Rightarrow> tid \<Rightarrow> tid \<Rightarrow> int" where
  "z_sched_prio_cmp th thread_1 thread_2 =
     (let b1 = prio (th thread_1); b2 = prio (th thread_2) in if b1 \<noteq> b2 then b2 - b1 else 0)"

fun z_priq_dumb_add :: "(tid \<Rightarrow> k_thread) \<Rightarrow> tid \<Rightarrow> tid list \<Rightarrow> tid list" where
  "z_priq_dumb_add th thread [] = [thread]"
| "z_priq_dumb_add th thread (t # pq) =
     (if z_sched_prio_cmp th thread t > 0 then thread # t # pq else t # z_priq_dumb_add th thread pq)"

definition z_priq_dumb_remove :: "tid \<Rightarrow> tid list \<Rightarrow> tid list" where
  "z_priq_dumb_remove thread pq = remove1 thread pq"

definition z_priq_dumb_best :: "tid list \<Rightarrow> tid option" where
  "z_priq_dumb_best pq = (case pq of [] \<Rightarrow> None | t # _ \<Rightarrow> Some t)"

lemma z_sched_prio_cmp_pos: "0 < z_sched_prio_cmp th a b \<longleftrightarrow> prio (th a) < prio (th b)"
  by (simp add: z_sched_prio_cmp_def Let_def)

lemma z_priq_dumb_add_eq: "z_priq_dumb_add th thread pq = insert_after (\<lambda>t. prio (th t)) thread pq"
  by (induction pq) (simp_all add: z_sched_prio_cmp_pos)

lemma z_priq_dumb_best_eq: "z_priq_dumb_best pq = (if pq = [] then None else Some (hd pq))"
  by (cases pq) (simp_all add: z_priq_dumb_best_def)

subsection \<open>The queue on the pointer store\<close>

partial_function (option) priq_dumb_add_walk ::
    "(tid \<Rightarrow> k_thread) \<Rightarrow> addr \<Rightarrow> tid \<Rightarrow> tid \<Rightarrow> dstore \<Rightarrow> dstore option" where
  "priq_dumb_add_walk th l thread t s =
     (if t \<noteq> NULL then
        (if z_sched_prio_cmp th thread t > 0 then Some (sys_dlist_insert t thread s)
         else priq_dumb_add_walk th l thread (sys_dlist_peek_next l t s) s)
      else Some (sys_dlist_append l thread s))"

definition priq_dumb_add_ptr :: "(tid \<Rightarrow> k_thread) \<Rightarrow> addr \<Rightarrow> tid \<Rightarrow> dstore \<Rightarrow> dstore option" where
  "priq_dumb_add_ptr th l thread s = priq_dumb_add_walk th l thread (sys_dlist_peek_head l s) s"

definition priq_dumb_remove_ptr :: "tid \<Rightarrow> dstore \<Rightarrow> dstore" where
  "priq_dumb_remove_ptr thread s = sys_dlist_remove thread s"

definition priq_dumb_best_ptr :: "addr \<Rightarrow> dstore \<Rightarrow> tid" where
  "priq_dumb_best_ptr l s = sys_dlist_peek_head l s"

lemma priq_dumb_add_walk:
  "dlist s l (us @ vs) \<Longrightarrow> thread \<notin> set (l # us @ vs) \<Longrightarrow> thread \<noteq> NULL \<Longrightarrow>
   \<exists>s'. priq_dumb_add_walk th l thread (if vs = [] then NULL else hd vs) s = Some s' \<and>
        dlist s' l (us @ z_priq_dumb_add th thread vs)"
proof (induction vs arbitrary: us)
  case Nil
  then show ?case
    using dlist_append [of s l us thread] by (simp add: priq_dumb_add_walk.simps)
next
  case (Cons v vs)
  have v: "v \<noteq> NULL" and nx: "sys_dlist_peek_next l v s = (if vs = [] then NULL else hd vs)"
    using Cons.prems(1) dlist_peek_next [OF Cons.prems(1)] by (auto simp: dlist_def)
  show ?case
  proof (cases "z_sched_prio_cmp th thread v > 0")
    case True
    then show ?thesis
      using v dlist_insert [OF Cons.prems] by (subst priq_dumb_add_walk.simps) simp
  next
    case False
    then show ?thesis
      using v nx Cons.IH [of "us @ [v]"] Cons.prems by (subst priq_dumb_add_walk.simps) simp
  qed
qed

lemma priq_dumb_add_ptr:
  assumes "dlist s l pq" and "thread \<notin> set (l # pq)" and "thread \<noteq> NULL"
  shows "\<exists>s'. priq_dumb_add_ptr th l thread s = Some s' \<and> dlist s' l (z_priq_dumb_add th thread pq)"
  using priq_dumb_add_walk [of s l "[]" pq thread th] assms
  by (simp add: priq_dumb_add_ptr_def dlist_peek_head)

subsection \<open>The multi-queue\<close>

text \<open>
  \<^verbatim>\<open>struct _priq_mq\<close> on a 32-bit target: one queue per priority and a bitmap of the non-empty
  ones.  \<open>highest\<close> is \<^verbatim>\<open>K_HIGHEST_THREAD_PRIO\<close>; \<open>n\<close> is \<^verbatim>\<open>PRIQ_BITMAP_SIZE\<close>.
\<close>

record priq_mq =
  queues :: "nat \<Rightarrow> tid list"
  bitmask :: "nat \<Rightarrow> u32"

record prio_info =
  offset_prio :: nat
  idx :: nat
  bit_pos :: nat

definition get_prio_info :: "int \<Rightarrow> int \<Rightarrow> prio_info" where
  "get_prio_info highest old_prio =
     (let off = nat ((old_prio - highest) mod 256)
      in \<lparr>offset_prio = off, idx = off div 32, bit_pos = off mod 32\<rparr>)"

definition z_priq_mq_add :: "int \<Rightarrow> (tid \<Rightarrow> k_thread) \<Rightarrow> tid \<Rightarrow> priq_mq \<Rightarrow> priq_mq" where
  "z_priq_mq_add highest th thread pq =
     (let pos = get_prio_info highest (prio (th thread));
          pq = pq\<lparr>queues := (queues pq)(offset_prio pos := queues pq (offset_prio pos) @ [thread])\<rparr>
      in pq\<lparr>bitmask := (bitmask pq)(idx pos := bitmask pq (idx pos) OR push_bit (bit_pos pos) 1)\<rparr>)"

definition z_priq_mq_remove :: "int \<Rightarrow> (tid \<Rightarrow> k_thread) \<Rightarrow> tid \<Rightarrow> priq_mq \<Rightarrow> priq_mq" where
  "z_priq_mq_remove highest th thread pq =
     (let pos = get_prio_info highest (prio (th thread));
          pq = pq\<lparr>queues := (queues pq)(offset_prio pos := remove1 thread (queues pq (offset_prio pos)))\<rparr>
      in if queues pq (offset_prio pos) = []
         then pq\<lparr>bitmask := (bitmask pq)(idx pos := bitmask pq (idx pos) AND NOT (push_bit (bit_pos pos) 1))\<rparr>
         else pq)"

fun mq_best_from :: "priq_mq \<Rightarrow> nat \<Rightarrow> nat \<Rightarrow> tid option" where
  "mq_best_from pq i 0 = None"
| "mq_best_from pq i (Suc n) =
     (if bitmask pq i = 0 then mq_best_from pq (Suc i) n
      else (case queues pq (i * 32 + u32_count_trailing_zeros (bitmask pq i)) of
              [] \<Rightarrow> mq_best_from pq (Suc i) n
            | t # _ \<Rightarrow> Some t))"

definition z_priq_mq_best :: "nat \<Rightarrow> priq_mq \<Rightarrow> tid option" where
  "z_priq_mq_best n pq = mq_best_from pq 0 n"

subsection \<open>The contract of a priority queue\<close>

fun drain :: "('q \<Rightarrow> tid option) \<Rightarrow> (tid \<Rightarrow> 'q \<Rightarrow> 'q) \<Rightarrow> nat \<Rightarrow> 'q \<Rightarrow> tid list" where
  "drain best rem 0 q = []"
| "drain best rem (Suc n) q =
     (case best q of None \<Rightarrow> [] | Some t \<Rightarrow> t # drain best rem n (rem t q))"

lemma filter_insert_after:
  "sorted (map f ys) \<Longrightarrow> filter (\<lambda>y. k = f y) (insert_after f x ys) = filter (\<lambda>y. k = f y) (ys @ [x])"
  for f :: "'a \<Rightarrow> 'k::linorder"
proof (induction ys)
  case (Cons a ys)
  show ?case
  proof (cases "f x < f a \<and> k = f x")
    case True
    with Cons.prems have "\<forall>y \<in> set (a # ys). k \<noteq> f y" by auto
    then have "filter (\<lambda>y. k = f y) (a # ys) = []" by (simp add: filter_empty_conv)
    with True show ?thesis by (auto split: if_splits)
  qed (use Cons in auto)
qed simp

lemma mset_insert_after: "mset (insert_after f x ys) = add_mset x (mset ys)"
  by (induction ys) auto

lemma fold_insert_after:
  fixes f :: "'a \<Rightarrow> 'k::linorder"
  assumes "sorted (map f ys)"
  shows "mset (fold (insert_after f) xs ys) = mset xs + mset ys \<and> sorted (map f (fold (insert_after f) xs ys)) \<and>
    filter (\<lambda>x. k = f x) (fold (insert_after f) xs ys) = filter (\<lambda>x. k = f x) (ys @ xs)"
  using assms
  by (induction xs arbitrary: ys) (simp_all add: filter_insert_after mset_insert_after)

lemma fold_insert_after_sort: "fold (insert_after f) xs [] = sort_key f xs"
  for f :: "'a \<Rightarrow> 'k::linorder"
  using fold_insert_after [of f "[]" xs]
  by (intro properties_for_sort_key [symmetric]) auto

locale prio_queue =
  fixes key :: "tid \<Rightarrow> int" and seq :: "'q \<Rightarrow> tid list" and ok :: "'q \<Rightarrow> bool"
    and can :: "tid \<Rightarrow> bool" and add rem :: "tid \<Rightarrow> 'q \<Rightarrow> 'q" and best :: "'q \<Rightarrow> tid option"
  assumes ok_sorted: "ok q \<Longrightarrow> sorted (map key (seq q)) \<and> distinct (seq q)"
    and add_seq: "ok q \<Longrightarrow> can t \<Longrightarrow> t \<notin> set (seq q) \<Longrightarrow>
      ok (add t q) \<and> seq (add t q) = insert_after key t (seq q)"
    and rem_seq: "ok q \<Longrightarrow> t \<in> set (seq q) \<Longrightarrow> ok (rem t q) \<and> seq (rem t q) = remove1 t (seq q)"
    and best_seq: "ok q \<Longrightarrow> best q = (if seq q = [] then None else Some (hd (seq q)))"
begin

lemma best_highest:
  assumes "ok q" and "best q = Some t"
  shows "t \<in> set (seq q) \<and> (\<forall>u \<in> set (seq q). key t \<le> key u)"
  using assms best_seq [OF assms(1)] ok_sorted [OF assms(1)]
  by (auto split: if_splits simp: sorted_map_hd_le)

lemma fold_add:
  "ok q \<Longrightarrow> distinct ts \<Longrightarrow> set ts \<inter> set (seq q) = {} \<Longrightarrow> \<forall>t \<in> set ts. can t \<Longrightarrow>
   ok (fold add ts q) \<and> seq (fold add ts q) = fold (insert_after key) ts (seq q)"
proof (induction ts arbitrary: q)
  case (Cons t ts)
  then show ?case
    using add_seq [of q t] by auto
qed simp

lemma drain_seq: "ok q \<Longrightarrow> n = length (seq q) \<Longrightarrow> drain best rem n q = seq q"
proof (induction n arbitrary: q)
  case (Suc n)
  then obtain t ts where "seq q = t # ts"
    by (cases "seq q") auto
  with Suc.prems Suc.IH [of "rem t q"] show ?case
    using rem_seq [of q t] best_seq [of q] by simp
qed simp

lemma drain_stable_sort:
  assumes "ok q" and "seq q = []" and "distinct ts" and "\<forall>t \<in> set ts. can t"
  shows "drain best rem (length ts) (fold add ts q) = sort_key key ts"
  using fold_add [of q ts] drain_seq [of "fold add ts q" "length ts"] assms
  by (simp add: fold_insert_after_sort)

end

lemma insert_after_append:
  "\<forall>a \<in> set as. f a \<le> f x \<Longrightarrow> \<forall>b \<in> set bs. f x < f b \<Longrightarrow>
   insert_after f x (as @ bs) = as @ x # bs"
proof (induction as)
  case Nil
  then show ?case by (cases bs) auto
qed auto

text \<open>The dumb queue meets the contract.\<close>

interpretation dumb: prio_queue "\<lambda>t. prio (th t)" "\<lambda>q. q"
  "\<lambda>q. sorted (map (\<lambda>t. prio (th t)) q) \<and> distinct q" "\<lambda>_. True"
  "z_priq_dumb_add th" z_priq_dumb_remove z_priq_dumb_best for th
  by unfold_locales
    (auto simp: z_priq_dumb_add_eq z_priq_dumb_remove_def z_priq_dumb_best_eq sorted_map_remove1)

subsection \<open>The multi-queue meets the contract\<close>

definition mq_seq :: "nat \<Rightarrow> priq_mq \<Rightarrow> tid list" where
  "mq_seq n pq = concat (map (queues pq) [0..<32 * n])"

definition mq_can :: "int \<Rightarrow> nat \<Rightarrow> (tid \<Rightarrow> k_thread) \<Rightarrow> tid \<Rightarrow> bool" where
  "mq_can highest n th t \<longleftrightarrow>
     highest \<le> prio (th t) \<and> prio (th t) < highest + int (32 * n) \<and> prio (th t) < highest + 256"

definition mq_ok :: "int \<Rightarrow> nat \<Rightarrow> (tid \<Rightarrow> k_thread) \<Rightarrow> priq_mq \<Rightarrow> bool" where
  "mq_ok highest n th pq \<longleftrightarrow>
     (\<forall>i < 32 * n. distinct (queues pq i) \<and> (bit (bitmask pq (i div 32)) (i mod 32) \<longleftrightarrow> queues pq i \<noteq> []) \<and>
        (\<forall>t \<in> set (queues pq i). mq_can highest n th t \<and> prio (th t) = highest + int i))"

lemma get_prio_info_can:
  assumes "mq_can highest n th t"
  shows "offset_prio (get_prio_info highest (prio (th t))) = nat (prio (th t) - highest)"
    and "nat (prio (th t) - highest) < 32 * n"
  using assms by (auto simp: get_prio_info_def mq_can_def Let_def nat_less_iff)

lemma mq_seq_split:
  assumes "k < 32 * n"
  shows "mq_seq n pq =
    concat (map (queues pq) [0..<k]) @ queues pq k @ concat (map (queues pq) [Suc k..<32 * n])"
proof -
  have "[0..<32 * n] = [0..<k] @ k # [Suc k..<32 * n]"
    using assms by (metis le_add1 less_imp_le plus_nat.add_0 upt_add_eq_append upt_conv_Cons le_add_diff_inverse)
  then show ?thesis by (simp add: mq_seq_def)
qed

lemma mq_seq_upd:
  assumes "k < 32 * n"
  shows "mq_seq n (pq\<lparr>queues := (queues pq)(k := q)\<rparr>) =
    concat (map (queues pq) [0..<k]) @ q @ concat (map (queues pq) [Suc k..<32 * n])"
  using mq_seq_split [OF assms, of "pq\<lparr>queues := (queues pq)(k := q)\<rparr>"] by simp

lemma mq_seq_bitmask [simp]: "mq_seq n (pq\<lparr>bitmask := b\<rparr>) = mq_seq n pq"
  by (simp add: mq_seq_def)

lemma mq_seq_member:
  assumes "mq_ok highest n th pq"
  shows "t \<in> set (mq_seq n pq) \<longleftrightarrow> mq_can highest n th t \<and> t \<in> set (queues pq (nat (prio (th t) - highest)))"
proof
  assume "t \<in> set (mq_seq n pq)"
  then obtain i where "i < 32 * n" "t \<in> set (queues pq i)"
    by (auto simp: mq_seq_def)
  with assms show "mq_can highest n th t \<and> t \<in> set (queues pq (nat (prio (th t) - highest)))"
    by (auto simp: mq_ok_def)
next
  assume "mq_can highest n th t \<and> t \<in> set (queues pq (nat (prio (th t) - highest)))"
  with get_prio_info_can(2) [of highest n th t] show "t \<in> set (mq_seq n pq)"
    by (auto simp: mq_seq_def)
qed

lemma mq_ok_bounds:
  assumes "mq_ok highest n th pq" and "k < 32 * n"
  shows "\<forall>t \<in> set (concat (map (queues pq) [0..<k])). prio (th t) < highest + int k"
    and "\<forall>t \<in> set (queues pq k). prio (th t) = highest + int k"
    and "\<forall>t \<in> set (concat (map (queues pq) [Suc k..<32 * n])). highest + int k < prio (th t)"
proof -
  have eq: "prio (th t) = highest + int i" if "i < 32 * n" "t \<in> set (queues pq i)" for i t
    using that assms(1) by (auto simp: mq_ok_def)
  have "prio (th t) < highest + int k" if "i < k" "t \<in> set (queues pq i)" for i t
    using eq [of i t] that assms(2) by simp
  then show "\<forall>t \<in> set (concat (map (queues pq) [0..<k])). prio (th t) < highest + int k"
    by auto
  show "\<forall>t \<in> set (queues pq k). prio (th t) = highest + int k"
    using eq assms(2) by blast
  show "\<forall>t \<in> set (concat (map (queues pq) [Suc k..<32 * n])). highest + int k < prio (th t)"
    using eq by fastforce
qed

lemma mq_ok_sorted: "mq_ok highest n th pq \<Longrightarrow>
    sorted (map (\<lambda>t. prio (th t)) (mq_seq n pq)) \<and> distinct (mq_seq n pq)"
proof -
  assume ok: "mq_ok highest n th pq"
  have "sorted (map (\<lambda>t. prio (th t)) (concat (map (queues pq) [0..<k]))) \<and>
      distinct (concat (map (queues pq) [0..<k]))" if "k \<le> 32 * n" for k
    using that
  proof (induction k)
    case (Suc k)
    have d: "distinct (queues pq k)"
      using ok Suc.prems by (auto simp: mq_ok_def)
    have "map (\<lambda>t. prio (th t)) (queues pq k) = replicate (length (queues pq k)) (highest + int k)"
      using mq_ok_bounds(2) [OF ok, of k] Suc.prems by (intro nth_equalityI) auto
    then have "sorted (map (\<lambda>t. prio (th t)) (queues pq k))"
      by (simp add: sorted_replicate)
    with d Suc mq_ok_bounds(1,2) [OF ok, of k] show ?case
      by (fastforce simp: sorted_append)
  qed simp
  then show ?thesis by (simp add: mq_seq_def)
qed

lemma div_mod_32_inj: "i div 32 = k div 32 \<Longrightarrow> i mod 32 = k mod 32 \<Longrightarrow> i = k" for i k :: nat
  by (metis div_mult_mod_eq)

lemma get_prio_info_at:
  assumes "mq_can highest n th t" and "k = nat (prio (th t) - highest)"
  shows "k < 32 * n" and "prio (th t) = highest + int k"
    and "get_prio_info highest (prio (th t)) = \<lparr>offset_prio = k, idx = k div 32, bit_pos = k mod 32\<rparr>"
  using get_prio_info_can [OF assms(1)] assms by (auto simp: get_prio_info_def Let_def mq_can_def)

lemma mq_add_seq:
  assumes ok: "mq_ok highest n th pq" and can: "mq_can highest n th t" and new: "t \<notin> set (mq_seq n pq)"
  shows "mq_ok highest n th (z_priq_mq_add highest th t pq) \<and>
    mq_seq n (z_priq_mq_add highest th t pq) = insert_after (\<lambda>t. prio (th t)) t (mq_seq n pq)"
proof -
  define k where "k = nat (prio (th t) - highest)"
  note k = get_prio_info_at [OF can k_def]
  have add: "z_priq_mq_add highest th t pq = pq\<lparr>queues := (queues pq)(k := queues pq k @ [t]),
      bitmask := (bitmask pq)(k div 32 := bitmask pq (k div 32) OR push_bit (k mod 32) 1)\<rparr>"
    by (simp add: z_priq_mq_add_def k(3))
  have "t \<notin> set (queues pq k)"
    using new mq_seq_member [OF ok] can by (simp add: k_def)
  then have "mq_ok highest n th (z_priq_mq_add highest th t pq)"
    using ok k(1,2) can unfolding mq_ok_def add
    by (auto simp: bit_or_iff bit_push_bit_iff bit_1_iff simp del: push_bit_of_1 dest: div_mod_32_inj)
  moreover have "mq_seq n (z_priq_mq_add highest th t pq) = insert_after (\<lambda>t. prio (th t)) t (mq_seq n pq)"
    using mq_ok_bounds [OF ok k(1)] k(2)
      insert_after_append [of "concat (map (queues pq) [0..<k]) @ queues pq k" "\<lambda>t. prio (th t)" t
        "concat (map (queues pq) [Suc k..<32 * n])"]
    by (simp add: add mq_seq_upd [OF k(1)] mq_seq_split [OF k(1), of pq] ball_Un less_imp_le)
  ultimately show ?thesis by blast
qed

lemma mq_rem_seq:
  assumes ok: "mq_ok highest n th pq" and mem: "t \<in> set (mq_seq n pq)"
  shows "mq_ok highest n th (z_priq_mq_remove highest th t pq) \<and>
    mq_seq n (z_priq_mq_remove highest th t pq) = remove1 t (mq_seq n pq)"
proof -
  define k where "k = nat (prio (th t) - highest)"
  have can: "mq_can highest n th t" and tk: "t \<in> set (queues pq k)"
    using mem mq_seq_member [OF ok] by (simp_all add: k_def)
  note k = get_prio_info_at [OF can k_def]
  define q where "q = remove1 t (queues pq k)"
  have rem: "z_priq_mq_remove highest th t pq = pq\<lparr>queues := (queues pq)(k := q),
      bitmask := (if q = [] then (bitmask pq)(k div 32 := bitmask pq (k div 32) AND NOT (push_bit (k mod 32) 1))
        else bitmask pq)\<rparr>"
    by (simp add: z_priq_mq_remove_def k(3) q_def Let_def)
  have "distinct q" "set q \<subseteq> set (queues pq k)" "queues pq k \<noteq> []"
    using ok k(1) tk by (auto simp: mq_ok_def q_def dest: notin_set_remove1)
  then have "mq_ok highest n th (z_priq_mq_remove highest th t pq)"
    using ok k(1,2) can unfolding mq_ok_def rem
    by (auto simp: bit_and_iff bit_not_iff bit_push_bit_iff bit_1_iff simp del: push_bit_of_1
        dest: div_mod_32_inj)
  moreover have "t \<notin> set (concat (map (queues pq) [0..<k]))"
    using mq_ok_bounds(1) [OF ok k(1)] k(2) by fastforce
  then have "mq_seq n (z_priq_mq_remove highest th t pq) = remove1 t (mq_seq n pq)"
    using tk by (simp add: rem mq_seq_upd [OF k(1)] mq_seq_split [OF k(1), of pq] remove1_append q_def)
  ultimately show ?thesis by blast
qed

lemma mq_best_from_seq:
  assumes "mq_ok highest n th pq" and "i + m = n"
  shows "mq_best_from pq i m =
    (case concat (map (queues pq) [32 * i..<32 * n]) of [] \<Rightarrow> None | t # _ \<Rightarrow> Some t)"
  using assms(2)
proof (induction m arbitrary: i)
  case (Suc m)
  let ?w = "bitmask pq i" and ?c = "u32_count_trailing_zeros (bitmask pq i)"
  have blk: "bit ?w j \<longleftrightarrow> queues pq (32 * i + j) \<noteq> []" if "j < 32" for j
    using assms(1) that Suc.prems unfolding mq_ok_def
    by (elim allE [of _ "32 * i + j"]) (simp add: div_mult_self4 [symmetric])
  have IH: "mq_best_from pq (Suc i) m =
      (case concat (map (queues pq) [32 * i + 32..<32 * n]) of [] \<Rightarrow> None | t # _ \<Rightarrow> Some t)"
    using Suc.IH [of "Suc i"] Suc.prems by (simp add: add.commute)
  have split: "[32 * i..<32 * n] = [32 * i..<32 * i + j] @ [32 * i + j..<32 * n]" if "j \<le> 32" for j
    using upt_add_eq_append [of "32 * i" "32 * i + j" "32 * n - (32 * i + j)"] that Suc.prems by simp
  show ?case
  proof (cases "?w = 0")
    case True
    then have e: "concat (map (queues pq) [32 * i..<32 * i + 32]) = []"
      using blk by (auto simp: le_iff_add)
    show ?thesis
      using True IH by (simp add: split [of 32] e del: concat_eq_Nil_conv)
  next
    case False
    have c: "?c < 32" "bit ?w ?c" "\<forall>j < ?c. \<not> bit ?w j"
      using u32_count_trailing_zeros_spec [of ?w] False by auto
    have e: "concat (map (queues pq) [32 * i..<32 * i + ?c]) = []"
      using blk c by (auto simp: le_iff_add)
    have u: "[32 * i + ?c..<32 * n] = (32 * i + ?c) # [Suc (32 * i + ?c)..<32 * n]"
      using c(1) Suc.prems by (intro upt_conv_Cons) auto
    obtain t ts where q: "queues pq (32 * i + ?c) = t # ts"
      using blk [of ?c] c by (cases "queues pq (32 * i + ?c)") auto
    show ?thesis
      using False c(1) by (simp add: split [of ?c] e u q mult.commute [of i] del: concat_eq_Nil_conv)
  qed
qed simp

lemma mq_best_seq:
  assumes "mq_ok highest n th pq"
  shows "z_priq_mq_best n pq = (if mq_seq n pq = [] then None else Some (hd (mq_seq n pq)))"
  using mq_best_from_seq [OF assms, of 0 n]
  by (cases "mq_seq n pq") (simp_all add: z_priq_mq_best_def mq_seq_def del: concat_eq_Nil_conv)

interpretation multiq: prio_queue "\<lambda>t. prio (th t)" "mq_seq n" "mq_ok highest n th" "mq_can highest n th"
  "z_priq_mq_add highest th" "z_priq_mq_remove highest th" "z_priq_mq_best n" for th n highest
  by unfold_locales
    (use mq_ok_sorted mq_add_seq mq_rem_seq mq_best_seq in blast)+

lemma insert_after_split:
  "insert_after f x ys = takeWhile (\<lambda>y. f y \<le> f x) ys @ x # dropWhile (\<lambda>y. f y \<le> f x) ys"
  by (induction ys) auto

lemma dropWhile_above:
  "sorted (map f ys) \<Longrightarrow> t \<in> set (dropWhile (\<lambda>y. f y \<le> c) ys) \<Longrightarrow> c < f t" for f :: "'a \<Rightarrow> 'k :: linorder"
  by (induction ys) (auto split: if_splits)

subsection \<open>Properties\<close>

text \<open>C7: Adding a thread to the run queue kept on the linked list returns.  In a list sorted by priority the thread goes
  behind the threads of its own and of higher priority and before the first one of lower priority, the list stays
  sorted, and its head is a thread no other one of the list has a higher priority than (a lower number is a higher priority).\<close>

theorem priq_dumb_ptr_refines:
  assumes "dlist s l pq" and "thread \<notin> set (l # pq)" and "thread \<noteq> NULL" and "sorted (map (\<lambda>t. prio (th t)) pq)"
  shows "\<exists>s' qs rs. priq_dumb_add_ptr th l thread s = Some s' \<and> dlist s' l (qs @ thread # rs) \<and> pq = qs @ rs \<and>
    (\<forall>t \<in> set qs. prio (th t) \<le> prio (th thread)) \<and> (\<forall>t \<in> set rs. prio (th thread) < prio (th t)) \<and>
    z_priq_dumb_add th thread pq = qs @ thread # rs \<and>
    priq_dumb_best_ptr l s' \<in> set (thread # pq) \<and> (\<forall>t \<in> set (thread # pq). prio (th (priq_dumb_best_ptr l s')) \<le> prio (th t))"
proof -
  let ?f = "\<lambda>t. prio (th t)" and ?b = "\<lambda>t. prio (th t) \<le> prio (th thread)"
  let ?q = "takeWhile ?b pq" and ?r = "dropWhile ?b pq"
  obtain s' where s': "priq_dumb_add_ptr th l thread s = Some s'" "dlist s' l (z_priq_dumb_add th thread pq)"
    using priq_dumb_add_ptr [OF assms(1-3)] by blast
  have e: "z_priq_dumb_add th thread pq = ?q @ thread # ?r"
    by (simp add: z_priq_dumb_add_eq insert_after_split)
  have r: "\<forall>t \<in> set ?r. prio (th thread) < prio (th t)"
    using dropWhile_above [OF assms(4)] by blast
  have "sorted (map ?f (z_priq_dumb_add th thread pq))"
    using assms(4) by (simp add: z_priq_dumb_add_eq)
  moreover have "priq_dumb_best_ptr l s' = hd (z_priq_dumb_add th thread pq)" "z_priq_dumb_add th thread pq \<noteq> []"
    using dlist_peek_head [OF s'(2)] by (auto simp: priq_dumb_best_ptr_def e split: list.splits)
  moreover have "set (z_priq_dumb_add th thread pq) = set (thread # pq)"
    by (simp add: z_priq_dumb_add_eq)
  ultimately have "priq_dumb_best_ptr l s' \<in> set (thread # pq)" "\<forall>t \<in> set (thread # pq). ?f (priq_dumb_best_ptr l s') \<le> ?f t"
    using sorted_map_hd_le [of ?f "z_priq_dumb_add th thread pq"] hd_in_set by metis+
  then show ?thesis
    using s' e r by (intro exI [of _ s'] exI [of _ ?q] exI [of _ ?r]) (auto dest: set_takeWhileD)
qed

theorem priq_dumb_ptr_refines_witness:
  "\<exists>s'. priq_dumb_add_ptr (\<lambda>_. blank_thread) 1 2 (sys_dlist_init 1 \<lparr>d_next = \<lambda>_. 0, d_prev = \<lambda>_. 0\<rparr>) = Some s' \<and>
    priq_dumb_best_ptr 1 s' = 2"
  using priq_dumb_ptr_refines [of _ 1 "[]" 2 "\<lambda>_. blank_thread"] dlist_init [of 1] by fastforce

text \<open>C6: The multi-queue with its bitmap is equivalent to the sorted list: threads added to the two in any
  order come out of both in the same order, a stable sort by priority.\<close>

theorem multiq_equivalent_dumb:
  assumes "distinct ts" and "\<forall>t \<in> set ts. mq_can highest n th t"
  shows "drain (z_priq_mq_best n) (z_priq_mq_remove highest th) (length ts)
      (fold (z_priq_mq_add highest th) ts \<lparr>queues = \<lambda>_. [], bitmask = \<lambda>_. 0\<rparr>) =
    drain z_priq_dumb_best z_priq_dumb_remove (length ts) (fold (z_priq_dumb_add th) ts []) \<and>
    drain z_priq_dumb_best z_priq_dumb_remove (length ts) (fold (z_priq_dumb_add th) ts []) =
      sort_key (\<lambda>t. prio (th t)) ts"
proof -
  have "mq_ok highest n th \<lparr>queues = \<lambda>_. [], bitmask = \<lambda>_. 0\<rparr>" "mq_seq n \<lparr>queues = \<lambda>_. [], bitmask = \<lambda>_. 0\<rparr> = []"
    by (simp_all add: mq_ok_def mq_seq_def)
  then show ?thesis
    using multiq.drain_stable_sort [of highest n th _ ts] dumb.drain_stable_sort [of th "[]" ts] assms by simp
qed

theorem multiq_equivalent_dumb_witness:
  "drain (z_priq_mq_best 1) (z_priq_mq_remove (- 16) (\<lambda>_. blank_thread)) (length [7, 5])
     (fold (z_priq_mq_add (- 16) (\<lambda>_. blank_thread)) [7, 5] \<lparr>queues = \<lambda>_. [], bitmask = \<lambda>_. 0\<rparr>) = [7, 5]"
proof -
  have "sort_key (\<lambda>t. prio blank_thread) [7, 5 :: tid] = [7, 5]"
    by simp
  moreover have "\<forall>t \<in> set [7, 5 :: tid]. mq_can (- 16) 1 (\<lambda>_. blank_thread) t"
    by (simp add: mq_can_def blank_thread_def)
  ultimately show ?thesis
    using multiq_equivalent_dumb [of "[7, 5]" "- 16" 1 "\<lambda>_. blank_thread"] by (simp del: drain.simps fold_simps)
qed

end
