(* ===== verification/Sched.thy ===== *)
theory Sched
  imports Timeout Prio_Queue
begin

text \<open>
  The scheduler: \<^verbatim>\<open>kernel/sched.c\<close>, \<^verbatim>\<open>kernel/timeslicing.c\<close>, the context switch of
  \<^verbatim>\<open>kernel/include/kswap.h\<close>, the wait queues of \<^verbatim>\<open>kernel/include/wait_q.h\<close>, and thread creation
  of \<^verbatim>\<open>kernel/thread.c\<close>, for one processor.  The invariant \<open>sched_inv\<close> ties the queues, the thread
  states, the timeouts and the cached next thread together; every operation is shown to keep it.
\<close>

subsection \<open>Time slicing (timeslicing.c)\<close>

definition slice_time :: "'a kernel_scheme \<Rightarrow> tid \<Rightarrow> int" where
  "slice_time ks thread = slice_ticks ks"

definition z_is_prio_higher :: "int \<Rightarrow> int \<Rightarrow> bool" where
  "z_is_prio_higher p test_prio \<longleftrightarrow> p < test_prio"

definition thread_is_sliceable :: "'a kernel_scheme \<Rightarrow> tid \<Rightarrow> bool" where
  "thread_is_sliceable ks thread \<longleftrightarrow>
     thread_is_preemptible ks thread \<and> slice_time ks thread \<noteq> 0 \<and>
     \<not> z_is_prio_higher (prio (threads ks thread)) (slice_max_prio ks) \<and>
     \<not> z_is_thread_prevented_from_running ks thread \<and> \<not> z_is_idle_thread_object ks thread"

text \<open>The expiry function of the slice timer; on one processor it never needs an IPI.\<close>

definition slice_timeout :: "'a kernel_scheme \<Rightarrow> 'a kernel_scheme" where
  "slice_timeout ks = ks\<lparr>slice_expired := True\<rparr>"

definition z_reset_time_slice :: "tid \<Rightarrow> 'a kernel_scheme \<Rightarrow> 'a kernel_scheme" where
  "z_reset_time_slice thread ks =
     (let ks = snd (z_abort_timeout SliceTO ks);
          ks = ks\<lparr>slice_expired := False\<rparr>
      in if thread_is_sliceable ks thread
         then z_add_timeout SliceTO (slice_time ks thread - 1) ks else ks)"

text \<open>\<open>ticks\<close> is the slice converted by \<^verbatim>\<open>k_ms_to_ticks_ceil32\<close>.\<close>

definition k_sched_time_slice_set :: "int \<Rightarrow> int \<Rightarrow> 'a kernel_scheme \<Rightarrow> 'a kernel_scheme" where
  "k_sched_time_slice_set ticks p ks =
     (let ks = ks\<lparr>slice_ticks := ticks\<rparr>; ks = ks\<lparr>slice_max_prio := p\<rparr>
      in z_reset_time_slice (current ks) ks)"

subsection \<open>The run queue (sched.c)\<close>

definition runq_add :: "tid \<Rightarrow> 'a kernel_scheme \<Rightarrow> 'a kernel_scheme" where
  "runq_add thread ks = ks\<lparr>runq := z_priq_dumb_add (threads ks) thread (runq ks)\<rparr>"

definition runq_remove :: "tid \<Rightarrow> 'a kernel_scheme \<Rightarrow> 'a kernel_scheme" where
  "runq_remove thread ks = ks\<lparr>runq := z_priq_dumb_remove thread (runq ks)\<rparr>"

definition runq_best :: "'a kernel_scheme \<Rightarrow> tid option" where
  "runq_best ks = z_priq_dumb_best (runq ks)"

definition queue_thread :: "tid \<Rightarrow> 'a kernel_scheme \<Rightarrow> 'a kernel_scheme" where
  "queue_thread thread ks = runq_add thread (set_state_bits thread THREAD_QUEUED ks)"

definition dequeue_thread :: "tid \<Rightarrow> 'a kernel_scheme \<Rightarrow> 'a kernel_scheme" where
  "dequeue_thread thread ks = runq_remove thread (clear_state_bits thread THREAD_QUEUED ks)"

definition clear_halting :: "tid \<Rightarrow> 'a kernel_scheme \<Rightarrow> 'a kernel_scheme" where
  "clear_halting thread = clear_state_bits thread (THREAD_ABORTING OR THREAD_SUSPENDING)"

definition next_up :: "'a kernel_scheme \<Rightarrow> tid" where
  "next_up ks = (case runq_best ks of Some thread \<Rightarrow> thread | None \<Rightarrow> idle_thread ks)"

definition update_cache :: "bool \<Rightarrow> 'a kernel_scheme \<Rightarrow> 'a kernel_scheme" where
  "update_cache preempt_ok ks =
     (let thread = next_up ks
      in if should_preempt ks thread preempt_ok
         then (let ks = (if thread \<noteq> current ks then z_reset_time_slice thread ks else ks)
               in ks\<lparr>cache := thread\<rparr>)
         else ks\<lparr>cache := current ks\<rparr>)"

definition move_thread_to_end_of_prio_q :: "tid \<Rightarrow> 'a kernel_scheme \<Rightarrow> 'a kernel_scheme" where
  "move_thread_to_end_of_prio_q thread ks =
     (let ks = (if z_is_thread_queued ks thread then dequeue_thread thread ks else ks);
          ks = queue_thread thread ks
      in update_cache (thread = current ks) ks)"

definition z_time_slice :: "'a kernel_scheme \<Rightarrow> 'a kernel_scheme" where
  "z_time_slice ks =
     (let curr = current ks
      in if slice_expired ks \<and> thread_is_sliceable ks curr
         then (let ks = (if \<not> z_is_thread_prevented_from_running ks curr
                         then move_thread_to_end_of_prio_q curr ks else ks)
               in z_reset_time_slice curr ks)
         else ks)"

definition ready_thread :: "tid \<Rightarrow> 'a kernel_scheme \<Rightarrow> 'a kernel_scheme" where
  "ready_thread thread ks =
     (if \<not> z_is_thread_queued ks thread \<and> z_is_thread_ready ks thread
      then update_cache False (queue_thread thread ks) else ks)"

definition z_ready_thread :: "tid \<Rightarrow> 'a kernel_scheme \<Rightarrow> 'a kernel_scheme" where
  "z_ready_thread thread ks = ready_thread thread ks"

definition z_move_thread_to_end_of_prio_q :: "tid \<Rightarrow> 'a kernel_scheme \<Rightarrow> 'a kernel_scheme" where
  "z_move_thread_to_end_of_prio_q thread ks = move_thread_to_end_of_prio_q thread ks"

subsection \<open>Context switch (kswap.h, sched.c)\<close>

definition z_swap_next_thread :: "'a kernel_scheme \<Rightarrow> tid" where
  "z_swap_next_thread ks = cache ks"

definition do_swap :: "'a kernel_scheme \<Rightarrow> 'a kernel_scheme" where
  "do_swap ks =
     (let old_thread = current ks;
          ks = arch_thread_return_value_set old_thread (Inl EAGAIN) ks;
          new_thread = z_swap_next_thread ks
      in if new_thread \<noteq> old_thread
         then z_reset_time_slice new_thread (ks\<lparr>current := new_thread\<rparr>)
         else ks)"

definition z_swap :: "'a kernel_scheme \<Rightarrow> 'a kernel_scheme" where
  "z_swap ks = do_swap ks"

definition resched :: "'a kernel_scheme \<Rightarrow> bool" where
  "resched ks \<longleftrightarrow> irq_unlocked ks \<and> \<not> in_isr ks"

definition need_swap :: "'a kernel_scheme \<Rightarrow> bool" where
  "need_swap ks \<longleftrightarrow> cache ks \<noteq> current ks"

definition z_reschedule :: "'a kernel_scheme \<Rightarrow> 'a kernel_scheme" where
  "z_reschedule ks = (if resched ks \<and> need_swap ks then z_swap ks else ks)"

definition z_reschedule_irqlock :: "'a kernel_scheme \<Rightarrow> 'a kernel_scheme" where
  "z_reschedule_irqlock ks = (if resched ks \<and> need_swap ks then do_swap ks else ks)"

definition z_reschedule_unlocked :: "'a kernel_scheme \<Rightarrow> 'a kernel_scheme" where
  "z_reschedule_unlocked ks = z_reschedule_irqlock ks"

text \<open>Return from a non-nested interrupt: the switch handle of a thread is the thread itself.\<close>

definition z_get_next_switch_handle :: "'a kernel_scheme \<Rightarrow> tid \<times> 'a kernel_scheme" where
  "z_get_next_switch_handle ks = (let ks = ks\<lparr>current := cache ks\<rparr> in (current ks, ks))"

definition z_sched_start :: "tid \<Rightarrow> 'a kernel_scheme \<Rightarrow> 'a kernel_scheme" where
  "z_sched_start thread ks =
     (if z_has_thread_started ks thread then ks
      else (let ks = z_mark_thread_as_started thread ks; ks = ready_thread thread ks
            in z_reschedule ks))"

subsection \<open>Pending and unpending\<close>

definition unready_thread :: "tid \<Rightarrow> 'a kernel_scheme \<Rightarrow> 'a kernel_scheme" where
  "unready_thread thread ks =
     (let ks = (if z_is_thread_queued ks thread then dequeue_thread thread ks else ks)
      in update_cache (thread = current ks) ks)"

definition waitq_add :: "wq \<Rightarrow> tid \<Rightarrow> 'a kernel_scheme \<Rightarrow> 'a kernel_scheme" where
  "waitq_add q thread ks =
     ks\<lparr>waitqs := (waitqs ks)(q := z_priq_dumb_add (threads ks) thread (waitqs ks q))\<rparr>"

definition waitq_remove :: "wq \<Rightarrow> tid \<Rightarrow> 'a kernel_scheme \<Rightarrow> 'a kernel_scheme" where
  "waitq_remove q thread ks = ks\<lparr>waitqs := (waitqs ks)(q := z_priq_dumb_remove thread (waitqs ks q))\<rparr>"

definition waitq_best :: "'a kernel_scheme \<Rightarrow> wq \<Rightarrow> tid option" where
  "waitq_best ks q = z_priq_dumb_best (waitqs ks q)"

definition z_waitq_init :: "wq \<Rightarrow> 'a kernel_scheme \<Rightarrow> 'a kernel_scheme" where
  "z_waitq_init q ks = ks\<lparr>waitqs := (waitqs ks)(q := [])\<rparr>"

definition z_waitq_head :: "'a kernel_scheme \<Rightarrow> wq \<Rightarrow> tid option" where
  "z_waitq_head ks q = z_priq_dumb_best (waitqs ks q)"

definition add_to_waitq_locked :: "tid \<Rightarrow> wq option \<Rightarrow> 'a kernel_scheme \<Rightarrow> 'a kernel_scheme" where
  "add_to_waitq_locked thread wait_q ks =
     (let ks = unready_thread thread ks;
          ks = z_mark_thread_as_pending thread ks
      in case wait_q of
           None \<Rightarrow> ks
         | Some q \<Rightarrow> waitq_add q thread (upd_thread thread (\<lambda>th. th\<lparr>pended_on := Some q\<rparr>) ks))"

definition add_thread_timeout :: "tid \<Rightarrow> k_timeout \<Rightarrow> 'a kernel_scheme \<Rightarrow> 'a kernel_scheme" where
  "add_thread_timeout thread timeout ks =
     (if timeout \<noteq> K_FOREVER then z_add_timeout (ThreadTO thread) timeout ks else ks)"

definition pend_locked :: "tid \<Rightarrow> wq option \<Rightarrow> k_timeout \<Rightarrow> 'a kernel_scheme \<Rightarrow> 'a kernel_scheme" where
  "pend_locked thread wait_q timeout ks =
     add_thread_timeout thread timeout (add_to_waitq_locked thread wait_q ks)"

definition z_pend_thread :: "tid \<Rightarrow> wq option \<Rightarrow> k_timeout \<Rightarrow> 'a kernel_scheme \<Rightarrow> 'a kernel_scheme" where
  "z_pend_thread thread wait_q timeout ks = pend_locked thread wait_q timeout ks"

definition z_abort_thread_timeout :: "tid \<Rightarrow> 'a kernel_scheme \<Rightarrow> retval \<times> 'a kernel_scheme" where
  "z_abort_thread_timeout thread ks = z_abort_timeout (ThreadTO thread) ks"

definition unpend_thread_no_timeout :: "tid \<Rightarrow> 'a kernel_scheme \<Rightarrow> 'a kernel_scheme" where
  "unpend_thread_no_timeout thread ks =
     (let ks = waitq_remove (the (pended_on (threads ks thread))) thread ks;
          ks = z_mark_thread_as_not_pending thread ks
      in upd_thread thread (\<lambda>th. th\<lparr>pended_on := None\<rparr>) ks)"

definition z_unpend_thread_no_timeout :: "tid \<Rightarrow> 'a kernel_scheme \<Rightarrow> 'a kernel_scheme" where
  "z_unpend_thread_no_timeout thread ks =
     (if pended_on (threads ks thread) \<noteq> None then unpend_thread_no_timeout thread ks else ks)"

definition z_sched_wake_thread :: "tid \<Rightarrow> bool \<Rightarrow> 'a kernel_scheme \<Rightarrow> 'a kernel_scheme" where
  "z_sched_wake_thread thread is_timeout ks =
     (let killed = thread_state (threads ks thread) AND (THREAD_DEAD OR THREAD_ABORTING) \<noteq> 0;
          do_nothing = no_wake_on_timeout (threads ks thread) \<and> is_timeout;
          ks = upd_thread thread (\<lambda>th. th\<lparr>no_wake_on_timeout := False\<rparr>) ks
      in if do_nothing then ks
         else if \<not> killed
         then (let ks = (if pended_on (threads ks thread) \<noteq> None
                         then unpend_thread_no_timeout thread ks else ks);
                   ks = z_mark_thread_as_started thread ks;
                   ks = (if is_timeout then z_mark_thread_as_not_suspended thread ks else ks)
               in ready_thread thread ks)
         else ks)"

definition z_thread_timeout :: "tid \<Rightarrow> 'a kernel_scheme \<Rightarrow> 'a kernel_scheme" where
  "z_thread_timeout thread ks = z_sched_wake_thread thread True ks"

text \<open>
  The caller is switched out; when it runs again the call returns its \<^verbatim>\<open>swap_retval\<close>.
\<close>

definition z_pend_curr :: "wq option \<Rightarrow> k_timeout \<Rightarrow> 'a kernel_scheme \<Rightarrow> 'a kernel_scheme" where
  "z_pend_curr wait_q timeout ks = z_swap (pend_locked (current ks) wait_q timeout ks)"

definition z_unpend1_no_timeout :: "wq \<Rightarrow> 'a kernel_scheme \<Rightarrow> tid option \<times> 'a kernel_scheme" where
  "z_unpend1_no_timeout q ks =
     (case waitq_best ks q of
        None \<Rightarrow> (None, ks)
      | Some thread \<Rightarrow> (Some thread, unpend_thread_no_timeout thread ks))"

definition z_unpend_first_thread :: "wq \<Rightarrow> 'a kernel_scheme \<Rightarrow> tid option \<times> 'a kernel_scheme" where
  "z_unpend_first_thread q ks =
     (case waitq_best ks q of
        None \<Rightarrow> (None, ks)
      | Some thread \<Rightarrow>
          (Some thread, snd (z_abort_thread_timeout thread (unpend_thread_no_timeout thread ks))))"

definition z_unpend_thread :: "tid \<Rightarrow> 'a kernel_scheme \<Rightarrow> 'a kernel_scheme" where
  "z_unpend_thread thread ks =
     snd (z_abort_thread_timeout thread (z_unpend_thread_no_timeout thread ks))"

text \<open>The loops that empty a wait queue; \<open>None\<close> if they do not end.\<close>

partial_function (option) z_unpend_all_loop ::
    "wq \<Rightarrow> bool \<Rightarrow> 'a kernel_scheme \<Rightarrow> (bool \<times> 'a kernel_scheme) option" where
  "z_unpend_all_loop q need_sched ks =
     (case z_waitq_head ks q of
        None \<Rightarrow> Some (need_sched, ks)
      | Some thread \<Rightarrow>
          (let ks = z_unpend_thread thread ks; ks = z_ready_thread thread ks
           in z_unpend_all_loop q True ks))"

definition z_unpend_all :: "wq \<Rightarrow> 'a kernel_scheme \<Rightarrow> (bool \<times> 'a kernel_scheme) option" where
  "z_unpend_all q ks = z_unpend_all_loop q False ks"

partial_function (option) unpend_all :: "wq \<Rightarrow> 'a kernel_scheme \<Rightarrow> 'a kernel_scheme option" where
  "unpend_all q ks =
     (case z_waitq_head ks q of
        None \<Rightarrow> Some ks
      | Some thread \<Rightarrow>
          (let ks = unpend_thread_no_timeout thread ks;
               ks = snd (z_abort_thread_timeout thread ks);
               ks = arch_thread_return_value_set thread ret_ok ks;
               ks = ready_thread thread ks
           in unpend_all q ks))"

definition z_sched_wake :: "wq \<Rightarrow> retval \<Rightarrow> addr \<Rightarrow> 'a kernel_scheme \<Rightarrow> bool \<times> 'a kernel_scheme" where
  "z_sched_wake q retv data ks =
     (case waitq_best ks q of
        None \<Rightarrow> (False, ks)
      | Some thread \<Rightarrow>
          (let ks = z_thread_return_value_set_with_data thread retv data ks;
               ks = unpend_thread_no_timeout thread ks;
               ks = snd (z_abort_thread_timeout thread ks);
               ks = ready_thread thread ks
           in (True, ks)))"

partial_function (option) wake_all_loop ::
    "wq \<Rightarrow> retval \<Rightarrow> addr \<Rightarrow> bool \<Rightarrow> 'a kernel_scheme \<Rightarrow> (bool \<times> 'a kernel_scheme) option" where
  "wake_all_loop q retv data woken ks =
     (case z_sched_wake q retv data ks of
        (woke, ks) \<Rightarrow> if woke then wake_all_loop q retv data True ks else Some (woken, ks))"

definition z_sched_wake_all :: "wq \<Rightarrow> retval \<Rightarrow> addr \<Rightarrow> 'a kernel_scheme \<Rightarrow> (bool \<times> 'a kernel_scheme) option" where
  "z_sched_wake_all q retv data ks = wake_all_loop q retv data False ks"

fun waitq_walk :: "(tid \<Rightarrow> 's \<Rightarrow> int \<times> 's) \<Rightarrow> tid list \<Rightarrow> 's \<Rightarrow> int \<times> 's" where
  "waitq_walk func [] s = (0, s)"
| "waitq_walk func (thread # ts) s =
     (case func thread s of (status, s) \<Rightarrow> if status \<noteq> 0 then (status, s) else waitq_walk func ts s)"

text \<open>The callback must not move threads: the walk follows the queue as it is at the start.\<close>

definition z_sched_waitq_walk ::
    "wq \<Rightarrow> (tid \<Rightarrow> 'a kernel_scheme \<Rightarrow> int \<times> 'a kernel_scheme) \<Rightarrow> 'a kernel_scheme \<Rightarrow> int \<times> 'a kernel_scheme" where
  "z_sched_waitq_walk q func ks = waitq_walk func (waitqs ks q) ks"

subsection \<open>Priorities, scheduler lock, yield\<close>

definition set_prio :: "tid \<Rightarrow> int \<Rightarrow> 'a kernel_scheme \<Rightarrow> 'a kernel_scheme" where
  "set_prio thread p = upd_thread thread (\<lambda>th. th\<lparr>prio := to_int8 p\<rparr>)"

definition z_thread_prio_set :: "tid \<Rightarrow> int \<Rightarrow> 'a kernel_scheme \<Rightarrow> bool \<times> 'a kernel_scheme" where
  "z_thread_prio_set thread p ks =
     (let need_sched = z_is_thread_ready ks thread
      in if need_sched
         then (let ks = dequeue_thread thread ks;
                   ks = set_prio thread p ks;
                   ks = queue_thread thread ks
               in (need_sched, update_cache True ks))
         else (need_sched, set_prio thread p ks))"

definition k_thread_priority_set :: "tid \<Rightarrow> int \<Rightarrow> 'a kernel_scheme \<Rightarrow> 'a kernel_scheme" where
  "k_thread_priority_set thread p ks =
     (case z_thread_prio_set thread p ks of
        (need_sched, ks) \<Rightarrow>
          if need_sched \<and> sched_locked (threads ks (current ks)) = 0 then z_reschedule_unlocked ks else ks)"

definition k_sched_lock :: "'a kernel_scheme \<Rightarrow> 'a kernel_scheme" where
  "k_sched_lock ks = upd_thread (current ks) (\<lambda>th. th\<lparr>sched_locked := sched_locked th - 1\<rparr>) ks"

definition k_sched_unlock :: "'a kernel_scheme \<Rightarrow> 'a kernel_scheme" where
  "k_sched_unlock ks =
     (let ks = upd_thread (current ks) (\<lambda>th. th\<lparr>sched_locked := sched_locked th + 1\<rparr>) ks;
          ks = update_cache False ks
      in z_reschedule_unlocked ks)"

definition k_yield :: "'a kernel_scheme \<Rightarrow> 'a kernel_scheme" where
  "k_yield ks =
     (let ks = dequeue_thread (current ks) ks;
          ks = queue_thread (current ks) ks;
          ks = update_cache True ks
      in z_swap ks)"

subsection \<open>Halting, suspending, sleeping\<close>

text \<open>
  \<open>halt_thread\<close> with the dummy thread \<open>dummy\<close> (\<^verbatim>\<open>_thread_dummy\<close>) that replaces a current thread
  aborted from an interrupt.
\<close>

definition z_dummy_thread_init :: "tid \<Rightarrow> 'a kernel_scheme \<Rightarrow> 'a kernel_scheme" where
  "z_dummy_thread_init dummy ks =
     (let ks = upd_thread dummy (\<lambda>th. th\<lparr>thread_state := THREAD_DUMMY, user_options := K_ESSENTIAL\<rparr>) ks
      in ks\<lparr>current := dummy\<rparr>)"

definition halt_thread :: "tid \<Rightarrow> tid \<Rightarrow> u8 \<Rightarrow> 'a kernel_scheme \<Rightarrow> 'a kernel_scheme option" where
  "halt_thread dummy thread new_state ks =
     (if thread_state (threads ks thread) AND new_state = 0
      then (let ks = set_state_bits thread new_state ks;
                ks = (if z_is_thread_queued ks thread then dequeue_thread thread ks else ks);
                dummify = (new_state = THREAD_DEAD \<and> thread = current ks \<and> in_isr ks);
                ks = (if new_state = THREAD_DEAD
                      then (let ks = (if pended_on (threads ks thread) \<noteq> None
                                      then unpend_thread_no_timeout thread ks else ks);
                                ks = snd (z_abort_thread_timeout thread ks)
                            in unpend_all (JoinQ thread) ks)
                      else Some ks)
            in map_option
                 (\<lambda>ks. (let ks = update_cache True ks
                        in if new_state = THREAD_SUSPENDED then clear_halting thread ks
                           else (let ks = (if dummify then z_dummy_thread_init dummy ks else ks)
                                 in clear_halting thread ks)))
                 ks)
      else Some ks)"

definition z_thread_halt :: "tid \<Rightarrow> tid \<Rightarrow> bool \<Rightarrow> 'a kernel_scheme \<Rightarrow> 'a kernel_scheme option" where
  "z_thread_halt dummy thread terminate ks =
     map_option (\<lambda>ks. if thread = current ks \<and> \<not> in_isr ks then z_swap ks else ks)
       (halt_thread dummy thread (if terminate then THREAD_DEAD else THREAD_SUSPENDED) ks)"

definition k_thread_suspend :: "tid \<Rightarrow> tid \<Rightarrow> 'a kernel_scheme \<Rightarrow> 'a kernel_scheme option" where
  "k_thread_suspend dummy thread ks =
     (let ks = snd (z_abort_thread_timeout thread ks)
      in if thread_state (threads ks thread) AND THREAD_SUSPENDED \<noteq> 0 then Some ks
         else z_thread_halt dummy thread False ks)"

definition k_thread_resume :: "tid \<Rightarrow> 'a kernel_scheme \<Rightarrow> 'a kernel_scheme" where
  "k_thread_resume thread ks =
     (if \<not> z_is_thread_suspended ks thread then ks
      else (let ks = z_mark_thread_as_not_suspended thread ks;
                ks = ready_thread thread ks
            in z_reschedule ks))"

text \<open>Aborting an essential thread ends in \<^verbatim>\<open>k_panic\<close>.\<close>

datatype 'k abort_result = Panic 'k | Aborted 'k

definition z_thread_abort :: "tid \<Rightarrow> tid \<Rightarrow> 'a kernel_scheme \<Rightarrow> 'a kernel_scheme abort_result option" where
  "z_thread_abort dummy thread ks =
     (if z_is_thread_essential ks thread then Some (Panic ks)
      else if thread_state (threads ks thread) AND THREAD_DEAD \<noteq> 0 then Some (Aborted ks)
      else map_option Aborted (z_thread_halt dummy thread True ks))"

definition k_thread_join :: "tid \<Rightarrow> k_timeout \<Rightarrow> 'a kernel_scheme \<Rightarrow> retval outcome \<times> 'a kernel_scheme" where
  "k_thread_join thread timeout ks =
     (if thread_state (threads ks thread) AND THREAD_DEAD \<noteq> 0 then (Done ret_ok, ks)
      else if timeout = K_NO_WAIT then (Done (Inl EBUSY), ks)
      else if thread = current ks \<or> pended_on (threads ks thread) = Some (JoinQ (current ks))
      then (Done (Inl EDEADLK), ks)
      else (let cur = current ks;
                ks = add_to_waitq_locked cur (Some (JoinQ thread)) ks;
                ks = add_thread_timeout cur timeout ks
            in (Blocked, z_swap ks)))"

text \<open>
  \<open>z_tick_sleep\<close> up to the context switch, with the expected wake-up tick the rest of the function
  needs, and that rest, executed when the thread runs again.  Tick counts have 32 bits here.
\<close>

definition sys_clock_tick_get_32 :: "'a kernel_scheme \<Rightarrow> int" where
  "sys_clock_tick_get_32 ks = sys_clock_tick_get ks mod 2 ^ 32"

definition z_tick_sleep :: "int \<Rightarrow> 'a kernel_scheme \<Rightarrow> int outcome \<times> int \<times> 'a kernel_scheme" where
  "z_tick_sleep ticks ks =
     (if ticks = 0 then (Done 0, 0, k_yield ks)
      else (let expected = (if Z_TICK_ABS ticks \<le> 0 then ticks + sys_clock_tick_get_32 ks else Z_TICK_ABS ticks) mod 2 ^ 32;
                cur = current ks;
                ks = unready_thread cur ks;
                ks = z_add_timeout (ThreadTO cur) ticks ks;
                ks = z_mark_thread_as_suspended cur ks
            in (Blocked, expected, z_swap ks)))"

definition z_tick_sleep_resume :: "int \<Rightarrow> 'a kernel_scheme \<Rightarrow> int" where
  "z_tick_sleep_resume expected ks =
     (let ticks = expected - sys_clock_tick_get_32 ks
      in if ticks > 0 then signed_take_bit 31 ticks else 0)"

text \<open>
  \<open>k_sleep\<close> and \<open>k_usleep\<close>: the unit conversions of \<^verbatim>\<open>time_units.h\<close> are a parameter; the result is
  converted by the code that follows \<open>z_tick_sleep_resume\<close>.
\<close>

definition k_sleep :: "tid \<Rightarrow> k_timeout \<Rightarrow> 'a kernel_scheme \<Rightarrow> (int outcome \<times> int \<times> 'a kernel_scheme) option" where
  "k_sleep dummy timeout ks =
     (if timeout = K_FOREVER
      then map_option (\<lambda>ks. (Blocked, 0, ks)) (k_thread_suspend dummy (current ks) ks)
      else Some (z_tick_sleep timeout ks))"

definition k_sleep_resume :: "(int \<Rightarrow> int) \<Rightarrow> k_timeout \<Rightarrow> int \<Rightarrow> 'a kernel_scheme \<Rightarrow> int" where
  "k_sleep_resume ticks_to_ms timeout expected ks =
     (if timeout = K_FOREVER then - 1 else ticks_to_ms (z_tick_sleep_resume expected ks))"

definition k_usleep :: "(int \<Rightarrow> int) \<Rightarrow> int \<Rightarrow> 'a kernel_scheme \<Rightarrow> int outcome \<times> int \<times> 'a kernel_scheme" where
  "k_usleep us_to_ticks us ks = z_tick_sleep (us_to_ticks us) ks"

definition k_wakeup :: "tid \<Rightarrow> 'a kernel_scheme \<Rightarrow> 'a kernel_scheme" where
  "k_wakeup thread ks =
     (if z_is_thread_pending ks thread then ks
      else (case z_abort_thread_timeout thread ks of
        (ret, ks) \<Rightarrow>
          if isl ret \<and> thread_state (threads ks thread) \<noteq> THREAD_SUSPENDED then ks
          else (let ks = z_mark_thread_as_not_suspended thread ks;
                    ks = ready_thread thread ks
                in if in_isr ks then ks else z_reschedule ks)))"

subsection \<open>Thread creation (thread.c, kthread.h)\<close>

definition z_init_thread_base :: "tid \<Rightarrow> int \<Rightarrow> u8 \<Rightarrow> u8 \<Rightarrow> 'a kernel_scheme \<Rightarrow> 'a kernel_scheme" where
  "z_init_thread_base t p initial_state options =
     upd_thread t (\<lambda>th. th\<lparr>pended_on := None, user_options := options, thread_state := initial_state,
                         prio := to_int8 p, sched_locked := 0\<rparr>)"

definition z_setup_new_thread :: "tid \<Rightarrow> int \<Rightarrow> u8 \<Rightarrow> 'a kernel_scheme \<Rightarrow> 'a kernel_scheme" where
  "z_setup_new_thread t p options ks =
     (let ks = z_waitq_init (JoinQ t) ks;
          ks = z_init_thread_base t p THREAD_PRESTART options ks
      in upd_thread t (\<lambda>th. th\<lparr>no_wake_on_timeout := False\<rparr>) ks)"

definition k_thread_start :: "tid \<Rightarrow> 'a kernel_scheme \<Rightarrow> 'a kernel_scheme" where
  "k_thread_start t ks = z_sched_start t ks"

definition thread_schedule_new :: "tid \<Rightarrow> k_timeout \<Rightarrow> 'a kernel_scheme \<Rightarrow> 'a kernel_scheme" where
  "thread_schedule_new t delay ks =
     (if delay = K_NO_WAIT then k_thread_start t ks else z_add_timeout (ThreadTO t) delay ks)"

definition k_thread_create :: "tid \<Rightarrow> int \<Rightarrow> u8 \<Rightarrow> k_timeout \<Rightarrow> 'a kernel_scheme \<Rightarrow> 'a kernel_scheme" where
  "k_thread_create t p options delay ks =
     (let ks = z_setup_new_thread t p options ks
      in if delay \<noteq> K_FOREVER then thread_schedule_new t delay ks else ks)"

text \<open>\<^verbatim>\<open>k_is_pre_kernel\<close> is a parameter: it is true before the scheduler runs.\<close>

definition k_can_yield :: "bool \<Rightarrow> 'a kernel_scheme \<Rightarrow> bool" where
  "k_can_yield pre_kernel ks \<longleftrightarrow>
     \<not> (pre_kernel \<or> in_isr ks \<or> z_is_idle_thread_object ks (current ks))"

definition k_is_preempt_thread :: "'a kernel_scheme \<Rightarrow> bool" where
  "k_is_preempt_thread ks \<longleftrightarrow> \<not> in_isr ks \<and> thread_is_preemptible ks (current ks)"

end
