(* ===== verification/Sched_Inv.thy ===== *)
theory Sched_Inv
  imports Sched
begin

text \<open>
  The invariant of the scheduler and its preservation.  \<open>sched_inv_but X\<close> allows the threads of
  \<open>X\<close> to be ready without being queued, the situation between unpending a thread and readying it;
  \<open>sched_inv\<close> is the case \<open>X = {}\<close> that holds between kernel calls.
\<close>

subsection \<open>Thread state bits after the primitive updates\<close>

lemma state_set_set [simp]:
  "z_is_thread_state_set (set_state_bits u m ks) t k \<longleftrightarrow>
     z_is_thread_state_set ks t k \<or> t = u \<and> m AND k \<noteq> 0"
  by (auto simp: z_is_thread_state_set_def set_state_bits_def upd_thread_def flag_or or_eq_0_iff)

lemma state_set_clear [simp]:
  "m AND k = 0 \<or> m AND k = k \<Longrightarrow>
   z_is_thread_state_set (clear_state_bits u m ks) t k \<longleftrightarrow>
     z_is_thread_state_set ks t k \<and> \<not> (t = u \<and> m AND k \<noteq> 0)"
proof -
  assume mk: "m AND k = 0 \<or> m AND k = k"
  have "(w AND NOT m) AND k = (if m AND k = 0 then w AND k else 0)" for w :: u8
  proof (cases "m AND k = 0")
    case True
    have "\<not> (bit m n \<and> bit k n)" for n
      using arg_cong [OF True, of "\<lambda>w. bit w n"] by (simp add: bit_and_iff)
    then have "(w AND NOT m) AND k = w AND k"
      by (intro bit_word_eqI) (auto simp: bit_simps)
    with True show ?thesis by simp
  next
    case False
    with mk have sub: "m AND k = k" by simp
    have "bit k n \<Longrightarrow> bit m n" for n
      using arg_cong [OF sub, of "\<lambda>w. bit w n"] by (simp add: bit_and_iff)
    then have "(w AND NOT m) AND k = 0"
      by (intro bit_word_eqI) (auto simp: bit_simps)
    with False show ?thesis by simp
  qed
  with mk show ?thesis
    by (auto simp: z_is_thread_state_set_def clear_state_bits_def upd_thread_def)
qed

lemma state_set_upd [simp]:
  "(\<And>th. thread_state (f th) = thread_state th) \<Longrightarrow>
   z_is_thread_state_set (upd_thread u f ks) t k \<longleftrightarrow> z_is_thread_state_set ks t k"
  by (simp add: z_is_thread_state_set_def upd_thread_def)

lemma state_set_threads: "threads ks' = threads ks \<Longrightarrow> z_is_thread_state_set ks' = z_is_thread_state_set ks"
  by (intro ext) (simp add: z_is_thread_state_set_def)

lemma state_set_fields [simp]:
  "z_is_thread_state_set (ks\<lparr>runq := a\<rparr>) = z_is_thread_state_set ks"
  "z_is_thread_state_set (ks\<lparr>waitqs := b\<rparr>) = z_is_thread_state_set ks"
  "z_is_thread_state_set (ks\<lparr>cache := c\<rparr>) = z_is_thread_state_set ks"
  "z_is_thread_state_set (ks\<lparr>current := c\<rparr>) = z_is_thread_state_set ks"
  "z_is_thread_state_set (ks\<lparr>slice_expired := d\<rparr>) = z_is_thread_state_set ks"
  "z_is_thread_state_set (ks\<lparr>in_isr := d\<rparr>) = z_is_thread_state_set ks"
  "z_is_thread_state_set (ks\<lparr>irq_unlocked := d\<rparr>) = z_is_thread_state_set ks"
  by (rule state_set_threads, simp)+

lemma and_bits_u8:
  "w AND (2 OR 4 OR 8 OR 1 OR 16) \<noteq> 0 \<longleftrightarrow>
   w AND 1 \<noteq> 0 \<or> w AND 2 \<noteq> 0 \<or> w AND 4 \<noteq> 0 \<or> w AND 8 \<noteq> 0 \<or> w AND 16 \<noteq> 0" for w :: u8
  by (simp only: bit.conj_disj_distrib or_eq_0_iff de_Morgan_conj) blast

text \<open>The predicates of kthread.h on single bits.\<close>

lemma thread_state_bits:
  "z_is_thread_suspended ks t \<longleftrightarrow> z_is_thread_state_set ks t THREAD_SUSPENDED"
  "z_is_thread_pending ks t \<longleftrightarrow> z_is_thread_state_set ks t THREAD_PENDING"
  "z_has_thread_started ks t \<longleftrightarrow> \<not> z_is_thread_state_set ks t THREAD_PRESTART"
  "z_is_thread_queued ks t \<longleftrightarrow> z_is_thread_state_set ks t THREAD_QUEUED"
  "z_is_thread_prevented_from_running ks t \<longleftrightarrow>
     z_is_thread_state_set ks t THREAD_DUMMY \<or> z_is_thread_state_set ks t THREAD_PENDING \<or>
     z_is_thread_state_set ks t THREAD_PRESTART \<or> z_is_thread_state_set ks t THREAD_DEAD \<or>
     z_is_thread_state_set ks t THREAD_SUSPENDED"
  by (simp_all only: thread_state_defs and_bits_u8 not_not)

lemma threads_bits [simp]:
  "prio (threads (set_state_bits u m ks) t) = prio (threads ks t)"
  "prio (threads (clear_state_bits u m ks) t) = prio (threads ks t)"
  "sched_locked (threads (set_state_bits u m ks) t) = sched_locked (threads ks t)"
  "sched_locked (threads (clear_state_bits u m ks) t) = sched_locked (threads ks t)"
  "pended_on (threads (set_state_bits u m ks) t) = pended_on (threads ks t)"
  "pended_on (threads (clear_state_bits u m ks) t) = pended_on (threads ks t)"
  by (simp_all add: set_state_bits_def clear_state_bits_def upd_thread_def)

lemma upd_thread_fields [simp]:
  "threads (upd_thread t f ks) = (threads ks)(t := f (threads ks t))"
  "runq (upd_thread t f ks) = runq ks" "cache (upd_thread t f ks) = cache ks"
  "current (upd_thread t f ks) = current ks" "idle_thread (upd_thread t f ks) = idle_thread ks"
  "in_isr (upd_thread t f ks) = in_isr ks" "irq_unlocked (upd_thread t f ks) = irq_unlocked ks"
  "waitqs (upd_thread t f ks) = waitqs ks" "timeout_list (upd_thread t f ks) = timeout_list ks"
  "curr_tick (upd_thread t f ks) = curr_tick ks"
  "announce_remaining (upd_thread t f ks) = announce_remaining ks"
  "hw_elapsed (upd_thread t f ks) = hw_elapsed ks" "mem (upd_thread t f ks) = mem ks"
  "slice_ticks (upd_thread t f ks) = slice_ticks ks"
  "slice_max_prio (upd_thread t f ks) = slice_max_prio ks"
  "kernel.more (upd_thread t f ks) = kernel.more ks"
  by (simp_all add: upd_thread_def)

lemmas bits_upd = set_state_bits_def clear_state_bits_def

lemma bits_fields [simp]:
  "runq (set_state_bits t m ks) = runq ks" "cache (set_state_bits t m ks) = cache ks"
  "current (set_state_bits t m ks) = current ks" "idle_thread (set_state_bits t m ks) = idle_thread ks"
  "in_isr (set_state_bits t m ks) = in_isr ks" "irq_unlocked (set_state_bits t m ks) = irq_unlocked ks"
  "waitqs (set_state_bits t m ks) = waitqs ks" "timeout_list (set_state_bits t m ks) = timeout_list ks"
  "hw_elapsed (set_state_bits t m ks) = hw_elapsed ks"
  "runq (clear_state_bits t m ks) = runq ks" "cache (clear_state_bits t m ks) = cache ks"
  "current (clear_state_bits t m ks) = current ks" "idle_thread (clear_state_bits t m ks) = idle_thread ks"
  "in_isr (clear_state_bits t m ks) = in_isr ks" "irq_unlocked (clear_state_bits t m ks) = irq_unlocked ks"
  "waitqs (clear_state_bits t m ks) = waitqs ks" "timeout_list (clear_state_bits t m ks) = timeout_list ks"
  "hw_elapsed (clear_state_bits t m ks) = hw_elapsed ks"
  by (simp_all add: bits_upd)

lemma is_linked_list: "timeout_list ks' = timeout_list ks \<Longrightarrow> is_linked ks' = is_linked ks"
  by (intro ext) (simp add: is_linked_def)

lemma is_linked_fields [simp]:
  "is_linked (set_state_bits u m ks) = is_linked ks" "is_linked (clear_state_bits u m ks) = is_linked ks"
  "is_linked (upd_thread u f ks) = is_linked ks" "is_linked (ks\<lparr>runq := a\<rparr>) = is_linked ks"
  "is_linked (ks\<lparr>waitqs := b\<rparr>) = is_linked ks" "is_linked (ks\<lparr>cache := c\<rparr>) = is_linked ks"
  "is_linked (ks\<lparr>current := c\<rparr>) = is_linked ks" "is_linked (ks\<lparr>slice_expired := d\<rparr>) = is_linked ks"
  "is_linked (ks\<lparr>in_isr := d\<rparr>) = is_linked ks" "is_linked (ks\<lparr>irq_unlocked := d\<rparr>) = is_linked ks"
  by (rule is_linked_list, simp)+

lemma timeouts_ok_list:
  "timeout_list ks' = timeout_list ks \<Longrightarrow> hw_elapsed ks' = hw_elapsed ks \<Longrightarrow> timeouts_ok ks' = timeouts_ok ks"
  by (simp add: timeouts_ok_def)

lemma timeouts_ok_fields [simp]:
  "timeouts_ok (set_state_bits u m ks) = timeouts_ok ks" "timeouts_ok (clear_state_bits u m ks) = timeouts_ok ks"
  "timeouts_ok (upd_thread u f ks) = timeouts_ok ks" "timeouts_ok (ks\<lparr>runq := a\<rparr>) = timeouts_ok ks"
  "timeouts_ok (ks\<lparr>waitqs := b\<rparr>) = timeouts_ok ks" "timeouts_ok (ks\<lparr>cache := c\<rparr>) = timeouts_ok ks"
  "timeouts_ok (ks\<lparr>current := c\<rparr>) = timeouts_ok ks" "timeouts_ok (ks\<lparr>slice_expired := d\<rparr>) = timeouts_ok ks"
  "timeouts_ok (ks\<lparr>in_isr := d\<rparr>) = timeouts_ok ks" "timeouts_ok (ks\<lparr>irq_unlocked := d\<rparr>) = timeouts_ok ks"
  by (rule timeouts_ok_list; simp)+

subsection \<open>The invariant\<close>

definition sched_inv_but :: "tid set \<Rightarrow> 'a kernel_scheme \<Rightarrow> bool" where
  "sched_inv_but X ks \<longleftrightarrow>
     distinct (runq ks) \<and> sorted (map (\<lambda>t. prio (threads ks t)) (runq ks)) \<and>
     (\<forall>t. t \<in> set (runq ks) \<longleftrightarrow> z_is_thread_queued ks t) \<and>
     (\<forall>t. z_is_thread_queued ks t \<longrightarrow> z_is_thread_ready ks t) \<and>
     (\<forall>t. z_is_thread_ready ks t \<longrightarrow> t \<in> X \<or> t = idle_thread ks \<or> z_is_thread_queued ks t) \<and>
     z_is_thread_ready ks (idle_thread ks) \<and> \<not> z_is_thread_queued ks (idle_thread ks) \<and>
     (\<forall>q. distinct (waitqs ks q)) \<and>
     (\<forall>q t. t \<in> set (waitqs ks q) \<longleftrightarrow> pended_on (threads ks t) = Some q) \<and>
     (\<forall>t. z_is_thread_pending ks t \<longleftrightarrow> pended_on (threads ks t) \<noteq> None) \<and>
     timeouts_ok ks"

abbreviation sched_inv :: "'a kernel_scheme \<Rightarrow> bool" where
  "sched_inv \<equiv> sched_inv_but {}"

text \<open>
  The cached next thread is the best of the run queue, or the current thread when it must not be
  preempted.
\<close>

definition cache_best :: "'a kernel_scheme \<Rightarrow> bool" where
  "cache_best ks \<longleftrightarrow>
     cache ks = next_up ks \<or>
     cache ks = current ks \<and> \<not> z_is_thread_prevented_from_running ks (current ks) \<and>
       \<not> thread_is_preemptible ks (current ks)"

definition curr_ok :: "'a kernel_scheme \<Rightarrow> bool" where
  "curr_ok ks \<longleftrightarrow> \<not> is_linked ks (ThreadTO (current ks)) \<and>
     (\<not> in_isr ks \<longrightarrow> current ks = idle_thread ks \<or> z_is_thread_queued ks (current ks))"

definition kernel_ok_but :: "tid set \<Rightarrow> 'a kernel_scheme \<Rightarrow> bool" where
  "kernel_ok_but X ks \<longleftrightarrow> sched_inv_but X ks \<and> cache_best ks \<and> curr_ok ks"

abbreviation kernel_ok :: "'a kernel_scheme \<Rightarrow> bool" where
  "kernel_ok \<equiv> kernel_ok_but {}"

lemma z_is_thread_ready_bits:
  "z_is_thread_ready ks t \<longleftrightarrow>
     \<not> z_is_thread_state_set ks t THREAD_DUMMY \<and> \<not> z_is_thread_state_set ks t THREAD_PENDING \<and>
     \<not> z_is_thread_state_set ks t THREAD_PRESTART \<and> \<not> z_is_thread_state_set ks t THREAD_DEAD \<and>
     \<not> z_is_thread_state_set ks t THREAD_SUSPENDED \<and> \<not> is_linked ks (ThreadTO t)"
  by (simp add: z_is_thread_ready_def z_is_thread_timeout_active_def thread_state_bits)

lemmas inv_unfold = sched_inv_but_def z_is_thread_ready_bits thread_state_bits

lemma sched_inv_same:
  assumes "sched_inv_but X ks" and "threads ks' = threads ks" and "runq ks' = runq ks"
    and "idle_thread ks' = idle_thread ks" and "waitqs ks' = waitqs ks"
    and "\<And>t. is_linked ks' (ThreadTO t) = is_linked ks (ThreadTO t)" and "timeouts_ok ks'"
  shows "sched_inv_but X ks'"
  using assms(1,7) unfolding inv_unfold assms(2-6) state_set_threads [OF assms(2)] by blast

lemma sched_inv_mono: "sched_inv_but X ks \<Longrightarrow> X \<subseteq> Y \<Longrightarrow> sched_inv_but Y ks"
  unfolding sched_inv_but_def by blast

subsection \<open>Time slices and the cache\<close>

lemma z_reset_time_slice_frame [simp]:
  "threads (z_reset_time_slice t ks) = threads ks"
  "runq (z_reset_time_slice t ks) = runq ks"
  "cache (z_reset_time_slice t ks) = cache ks"
  "current (z_reset_time_slice t ks) = current ks"
  "idle_thread (z_reset_time_slice t ks) = idle_thread ks"
  "in_isr (z_reset_time_slice t ks) = in_isr ks"
  "irq_unlocked (z_reset_time_slice t ks) = irq_unlocked ks"
  "waitqs (z_reset_time_slice t ks) = waitqs ks"
  "curr_tick (z_reset_time_slice t ks) = curr_tick ks"
  "announce_remaining (z_reset_time_slice t ks) = announce_remaining ks"
  "hw_elapsed (z_reset_time_slice t ks) = hw_elapsed ks"
  "slice_ticks (z_reset_time_slice t ks) = slice_ticks ks"
  "slice_max_prio (z_reset_time_slice t ks) = slice_max_prio ks"
  "mem (z_reset_time_slice t ks) = mem ks"
  "kernel.more (z_reset_time_slice t ks) = kernel.more ks"
  by (simp_all add: z_reset_time_slice_def Let_def)

lemma timeouts_reset_slice:
  assumes "timeouts_ok ks"
  shows "timeouts_ok (z_reset_time_slice t ks)"
    and "is_linked (z_reset_time_slice t ks) (ThreadTO u) = is_linked ks (ThreadTO u)"
proof -
  let ?a = "(snd (z_abort_timeout SliceTO ks))\<lparr>slice_expired := False\<rparr>"
  have a: "timeouts_ok ?a" "\<not> is_linked ?a SliceTO" "is_linked ?a (ThreadTO u) = is_linked ks (ThreadTO u)"
    using assms by (simp_all add: timeouts_ok_abort is_linked_abort)
  show "timeouts_ok (z_reset_time_slice t ks)"
    unfolding z_reset_time_slice_def Let_def using a by (simp add: timeouts_ok_add)
  show "is_linked (z_reset_time_slice t ks) (ThreadTO u) = is_linked ks (ThreadTO u)"
    unfolding z_reset_time_slice_def Let_def using a by (simp add: is_linked_add)
qed

lemma update_cache_frame [simp]:
  "threads (update_cache b ks) = threads ks"
  "runq (update_cache b ks) = runq ks"
  "current (update_cache b ks) = current ks"
  "idle_thread (update_cache b ks) = idle_thread ks"
  "in_isr (update_cache b ks) = in_isr ks"
  "irq_unlocked (update_cache b ks) = irq_unlocked ks"
  "waitqs (update_cache b ks) = waitqs ks"
  "curr_tick (update_cache b ks) = curr_tick ks"
  "announce_remaining (update_cache b ks) = announce_remaining ks"
  "hw_elapsed (update_cache b ks) = hw_elapsed ks"
  "slice_ticks (update_cache b ks) = slice_ticks ks"
  "slice_max_prio (update_cache b ks) = slice_max_prio ks"
  "mem (update_cache b ks) = mem ks"
  "kernel.more (update_cache b ks) = kernel.more ks"
  by (simp_all add: update_cache_def Let_def)

lemma timeouts_update_cache:
  "timeouts_ok ks \<Longrightarrow> timeouts_ok (update_cache b ks)"
  "timeouts_ok ks \<Longrightarrow> is_linked (update_cache b ks) (ThreadTO u) = is_linked ks (ThreadTO u)"
  by (simp_all add: update_cache_def Let_def timeouts_reset_slice)

lemma state_set_update_cache [simp]: "z_is_thread_state_set (update_cache b ks) = z_is_thread_state_set ks"
  "z_is_thread_state_set (z_reset_time_slice t ks) = z_is_thread_state_set ks"
  by (rule state_set_threads, simp)+

lemma next_up_same: "runq ks' = runq ks \<Longrightarrow> idle_thread ks' = idle_thread ks \<Longrightarrow> next_up ks' = next_up ks"
  by (simp add: next_up_def runq_best_def split: option.split)

lemma preemptible_same: "threads ks' t = threads ks t \<Longrightarrow> thread_is_preemptible ks' t = thread_is_preemptible ks t"
  by (simp add: thread_is_preemptible_def)

lemma cache_update_cache:
  "cache (update_cache b ks) =
     (if b \<or> z_is_thread_prevented_from_running ks (current ks) \<or> thread_is_preemptible ks (current ks)
      then next_up ks else current ks)"
  by (simp add: update_cache_def should_preempt_def Let_def)

lemma cache_best_update_cache [simp]: "cache_best (update_cache b ks)"
proof -
  have "next_up (update_cache b ks) = next_up ks"
    by (rule next_up_same) simp_all
  moreover have "thread_is_preemptible (update_cache b ks) t = thread_is_preemptible ks t" for t
    by (rule preemptible_same) simp
  moreover have "z_is_thread_prevented_from_running (update_cache b ks) t = z_is_thread_prevented_from_running ks t" for t
    by (simp add: thread_state_bits)
  ultimately show ?thesis
    by (simp add: cache_best_def cache_update_cache)
qed

lemma sched_inv_timeouts: "sched_inv_but X ks \<Longrightarrow> timeouts_ok ks"
  by (simp add: sched_inv_but_def)

lemma sched_inv_update_cache [inv_intros]: "sched_inv_but X ks \<Longrightarrow> sched_inv_but X (update_cache b ks)"
  by (rule sched_inv_same) (simp_all add: timeouts_update_cache sched_inv_timeouts)

lemma sched_inv_reset_time_slice [inv_intros]:
  "sched_inv_but X ks \<Longrightarrow> sched_inv_but X (z_reset_time_slice t ks)"
  by (rule sched_inv_same) (simp_all add: timeouts_reset_slice sched_inv_timeouts)

subsection \<open>Queueing and unqueueing\<close>

lemma queue_thread_fields [simp]:
  "idle_thread (queue_thread t ks) = idle_thread ks" "current (queue_thread t ks) = current ks"
  "cache (queue_thread t ks) = cache ks" "waitqs (queue_thread t ks) = waitqs ks"
  "in_isr (queue_thread t ks) = in_isr ks" "irq_unlocked (queue_thread t ks) = irq_unlocked ks"
  "is_linked (queue_thread t ks) = is_linked ks" "timeouts_ok (queue_thread t ks) = timeouts_ok ks"
  "prio (threads (queue_thread t ks) u) = prio (threads ks u)"
  "pended_on (threads (queue_thread t ks) u) = pended_on (threads ks u)"
  "runq (queue_thread t ks) = insert_after (\<lambda>t. prio (threads ks t)) t (runq ks)"
  "z_is_thread_state_set (queue_thread t ks) u k \<longleftrightarrow> z_is_thread_state_set ks u k \<or> u = t \<and> 128 AND k \<noteq> 0"
  by (simp_all add: queue_thread_def runq_add_def z_priq_dumb_add_eq)

lemma dequeue_thread_fields [simp]:
  "idle_thread (dequeue_thread t ks) = idle_thread ks" "current (dequeue_thread t ks) = current ks"
  "cache (dequeue_thread t ks) = cache ks" "waitqs (dequeue_thread t ks) = waitqs ks"
  "in_isr (dequeue_thread t ks) = in_isr ks" "irq_unlocked (dequeue_thread t ks) = irq_unlocked ks"
  "is_linked (dequeue_thread t ks) = is_linked ks" "timeouts_ok (dequeue_thread t ks) = timeouts_ok ks"
  "prio (threads (dequeue_thread t ks) u) = prio (threads ks u)"
  "pended_on (threads (dequeue_thread t ks) u) = pended_on (threads ks u)"
  "runq (dequeue_thread t ks) = remove1 t (runq ks)"
  by (simp_all add: dequeue_thread_def runq_remove_def z_priq_dumb_remove_def)

lemma dequeue_thread_bits [simp]:
  "128 AND k = 0 \<or> 128 AND k = k \<Longrightarrow>
   z_is_thread_state_set (dequeue_thread t ks) u k \<longleftrightarrow> z_is_thread_state_set ks u k \<and> \<not> (u = t \<and> 128 AND k \<noteq> 0)"
  by (simp add: dequeue_thread_def runq_remove_def)

lemma sched_inv_queue_thread:
  assumes "sched_inv_but X ks" and "\<not> z_is_thread_queued ks t" and "z_is_thread_ready ks t"
    and "t \<noteq> idle_thread ks"
  shows "sched_inv_but (X - {t}) (queue_thread t ks)"
  using assms unfolding inv_unfold by auto

lemma sched_inv_dequeue_thread:
  assumes "sched_inv_but X ks"
  shows "sched_inv_but (insert t X) (dequeue_thread t ks)"
  using assms unfolding inv_unfold by (auto simp: sorted_map_remove1)

lemma ready_thread_ok [inv_intros]:
  assumes "sched_inv_but X ks" and "t \<noteq> idle_thread ks"
  shows "sched_inv_but (X - {t}) (ready_thread t ks)"
proof (cases "\<not> z_is_thread_queued ks t \<and> z_is_thread_ready ks t")
  case True
  then show ?thesis
    using assms by (simp add: ready_thread_def sched_inv_queue_thread sched_inv_update_cache)
next
  case False
  then have "sched_inv_but (X - {t}) ks"
    using assms unfolding sched_inv_but_def by blast
  with False show ?thesis by (auto simp: ready_thread_def)
qed

lemma unready_thread_ok [inv_intros]:
  assumes "sched_inv_but X ks"
  shows "sched_inv_but (insert t X) (unready_thread t ks)"
  using assms sched_inv_dequeue_thread [of X ks t] sched_inv_mono [of X ks "insert t X"]
  by (auto simp: unready_thread_def Let_def intro: sched_inv_update_cache)

lemma upd_thread_same_inv:
  assumes "sched_inv_but X ks" and "\<And>th. thread_state (f th) = thread_state th"
    and "\<And>th. pended_on (f th) = pended_on th" and "\<And>th. prio (f th) = prio th"
  shows "sched_inv_but X (upd_thread t f ks)"
proof -
  have "pended_on (threads (upd_thread t f ks) u) = pended_on (threads ks u)"
    "prio (threads (upd_thread t f ks) u) = prio (threads ks u)" for u
    using assms(3,4) by simp_all
  then show ?thesis
    using assms(1) unfolding inv_unfold by (auto simp: assms(2) simp del: upd_thread_fields(1))
qed

lemma return_value_set_ok [inv_intros]:
  "sched_inv_but X ks \<Longrightarrow> sched_inv_but X (arch_thread_return_value_set t v ks)"
  "sched_inv_but X ks \<Longrightarrow> sched_inv_but X (z_thread_return_value_set_with_data t v d ks)"
  by (simp_all add: arch_thread_return_value_set_def z_thread_return_value_set_with_data_def Let_def
      upd_thread_same_inv)

lemma mark_not_suspended_ok [inv_intros]:
  "sched_inv_but X ks \<Longrightarrow> sched_inv_but (insert t X) (z_mark_thread_as_not_suspended t ks)"
  unfolding inv_unfold z_mark_thread_as_not_suspended_def by auto

lemma mark_started_ok [inv_intros]:
  "sched_inv_but X ks \<Longrightarrow> sched_inv_but (insert t X) (z_mark_thread_as_started t ks)"
  unfolding inv_unfold z_mark_thread_as_started_def by auto

lemma abort_timeout_ok [inv_intros]:
  assumes "sched_inv_but X ks"
  shows "sched_inv_but (insert t X) (snd (z_abort_thread_timeout t ks))"
proof -
  let ?k = "snd (z_abort_timeout (ThreadTO t) ks)"
  have st: "z_is_thread_state_set ?k = z_is_thread_state_set ks"
    by (rule state_set_threads) simp
  show ?thesis
    using assms sched_inv_timeouts [OF assms]
    unfolding inv_unfold z_abort_thread_timeout_def st
    by (auto simp: is_linked_abort timeouts_ok_abort)
qed

text \<open>Halting bits are not part of the invariant.\<close>

lemma clear_halting_ok [inv_intros]: "sched_inv_but X ks \<Longrightarrow> sched_inv_but X (clear_halting t ks)"
  unfolding inv_unfold clear_halting_def by auto

lemma unpend_ok [inv_intros]:
  assumes "sched_inv_but X ks" and "pended_on (threads ks t) \<noteq> None"
  shows "sched_inv_but (insert t X) (unpend_thread_no_timeout t ks)"
proof -
  obtain q where q: "pended_on (threads ks t) = Some q"
    using assms(2) by auto
  let ?k = "unpend_thread_no_timeout t ks"
  have k: "?k = upd_thread t (\<lambda>th. th\<lparr>pended_on := None\<rparr>)
      (clear_state_bits t 2 (ks\<lparr>waitqs := (waitqs ks)(q := remove1 t (waitqs ks q))\<rparr>))"
    by (simp add: unpend_thread_no_timeout_def waitq_remove_def z_priq_dumb_remove_def q
        z_mark_thread_as_not_pending_def Let_def)
  have p: "pended_on (threads ?k u) = (if u = t then None else pended_on (threads ks u))"
    "prio (threads ?k u) = prio (threads ks u)" for u
    by (simp_all add: k)
  have w: "waitqs ?k = (waitqs ks)(q := remove1 t (waitqs ks q))"
    "runq ?k = runq ks" "idle_thread ?k = idle_thread ks" "is_linked ?k = is_linked ks" "timeouts_ok ?k = timeouts_ok ks"
    by (simp_all add: k del: upd_thread_fields(1))
  have b: "z_is_thread_state_set ?k u m \<longleftrightarrow> z_is_thread_state_set ks u m \<and> \<not> (u = t \<and> 2 AND m \<noteq> 0)"
    if "2 AND m = 0 \<or> 2 AND m = m" for u m
    using that by (simp add: k)
  show ?thesis
    using assms(1) q unfolding inv_unfold p w by (auto simp: b split: if_splits)
qed

lemma unready_thread_fields [simp]:
  "idle_thread (unready_thread t ks) = idle_thread ks" "current (unready_thread t ks) = current ks"
  "waitqs (unready_thread t ks) = waitqs ks"
  "in_isr (unready_thread t ks) = in_isr ks" "irq_unlocked (unready_thread t ks) = irq_unlocked ks"
  "prio (threads (unready_thread t ks) u) = prio (threads ks u)"
  "pended_on (threads (unready_thread t ks) u) = pended_on (threads ks u)"
  by (simp_all add: unready_thread_def Let_def)

lemma unready_thread_bits [simp]:
  "\<not> z_is_thread_state_set (unready_thread t ks) t 128"
  "128 AND k = 0 \<Longrightarrow> z_is_thread_state_set (unready_thread t ks) u k = z_is_thread_state_set ks u k"
  "u \<noteq> t \<Longrightarrow> z_is_thread_state_set (unready_thread t ks) u 128 = z_is_thread_state_set ks u 128"
  by (simp_all add: unready_thread_def Let_def thread_state_bits)

text \<open>A thread that is not queued may be marked as suspended, and may be put on a wait queue.\<close>

lemma mark_suspended_ok [inv_intros]:
  assumes "sched_inv_but X ks" and "\<not> z_is_thread_queued ks t" and "t \<noteq> idle_thread ks"
  shows "sched_inv_but (X - {t}) (z_mark_thread_as_suspended t ks)"
  using assms unfolding inv_unfold z_mark_thread_as_suspended_def by auto

lemma mark_dead_ok:
  assumes "sched_inv_but X ks" and "\<not> z_is_thread_queued ks t" and "t \<noteq> idle_thread ks"
  shows "sched_inv_but (X - {t}) (set_state_bits t THREAD_DEAD ks)"
  using assms unfolding inv_unfold by auto

lemma pend_on_ok:
  assumes "sched_inv_but X ks" and "\<not> z_is_thread_queued ks t" and "t \<noteq> idle_thread ks"
    and "pended_on (threads ks t) = None"
  shows "sched_inv_but (X - {t})
    (waitq_add q t (upd_thread t (\<lambda>th. th\<lparr>pended_on := Some q\<rparr>) (z_mark_thread_as_pending t ks)))"
    (is "sched_inv_but _ ?k")
proof -
  have p: "pended_on (threads ?k u) = (if u = t then Some q else pended_on (threads ks u))"
    "prio (threads ?k u) = prio (threads ks u)" for u
    by (simp_all add: waitq_add_def z_mark_thread_as_pending_def)
  let ?m = "upd_thread t (\<lambda>th. th\<lparr>pended_on := Some q\<rparr>) (z_mark_thread_as_pending t ks)"
  have "(\<lambda>u. prio (threads ?m u)) = (\<lambda>u. prio (threads ks u))"
    by (auto simp: z_mark_thread_as_pending_def)
  then have w1: "waitqs ?k = (waitqs ks)(q := insert_after (\<lambda>t. prio (threads ks t)) t (waitqs ks q))"
    by (simp add: waitq_add_def z_priq_dumb_add_eq z_mark_thread_as_pending_def del: upd_thread_fields(1))
  have w2: "runq ?k = runq ks" "idle_thread ?k = idle_thread ks" "is_linked ?k = is_linked ks" "timeouts_ok ?k = timeouts_ok ks"
    by (simp_all add: waitq_add_def z_mark_thread_as_pending_def)
  have b: "z_is_thread_state_set ?k u m \<longleftrightarrow> z_is_thread_state_set ks u m \<or> u = t \<and> 2 AND m \<noteq> 0" for u m
    by (simp add: waitq_add_def z_mark_thread_as_pending_def)
  show ?thesis
    using assms unfolding inv_unfold p w1 w2 b by (auto split: if_splits)
qed

lemma add_to_waitq_ok [inv_intros]:
  assumes "sched_inv_but X ks" and "t \<noteq> idle_thread ks" and "pended_on (threads ks t) = None"
  shows "sched_inv_but (X - {t}) (add_to_waitq_locked t (Some q) ks)"
  using pend_on_ok [OF unready_thread_ok [OF assms(1)], of t t q] assms(2,3)
  by (simp add: add_to_waitq_locked_def Let_def thread_state_bits)

lemma add_timeout_ok [inv_intros]:
  assumes "sched_inv_but X ks" and "\<not> z_is_thread_queued ks t" and "t \<noteq> idle_thread ks"
    and "\<not> is_linked ks (ThreadTO t)"
  shows "sched_inv_but X (z_add_timeout (ThreadTO t) w ks)"
proof -
  have st: "z_is_thread_state_set (z_add_timeout (ThreadTO t) w ks) = z_is_thread_state_set ks"
    by (rule state_set_threads) simp
  show ?thesis
    using assms unfolding inv_unfold st by (auto simp: is_linked_add timeouts_ok_add)
qed

lemma add_thread_timeout_ok [inv_intros]:
  assumes "sched_inv_but X ks" and "\<not> z_is_thread_queued ks t" and "t \<noteq> idle_thread ks"
    and "\<not> is_linked ks (ThreadTO t)"
  shows "sched_inv_but X (add_thread_timeout t w ks)"
  using assms by (simp add: add_thread_timeout_def add_timeout_ok)

subsection \<open>Context switches\<close>

lemma next_up_cases: "next_up ks = idle_thread ks \<and> runq ks = [] \<or> next_up ks = hd (runq ks) \<and> runq ks \<noteq> []"
  by (auto simp: next_up_def runq_best_def z_priq_dumb_best_eq)

lemma next_up_runnable:
  assumes "sched_inv_but X ks"
  shows "next_up ks = idle_thread ks \<or> z_is_thread_queued ks (next_up ks)"
    and "z_is_thread_ready ks (next_up ks)"
proof -
  show *: "next_up ks = idle_thread ks \<or> z_is_thread_queued ks (next_up ks)"
    using next_up_cases [of ks] assms hd_in_set [of "runq ks"] by (auto simp: sched_inv_but_def)
  show "z_is_thread_ready ks (next_up ks)"
    using * assms by (auto simp: sched_inv_but_def)
qed

lemma do_swap_ok:
  assumes inv: "sched_inv ks" and cache: "cache ks = next_up ks"
  shows "kernel_ok (do_swap ks)" and "current (do_swap ks) = next_up ks"
proof -
  let ?r = "arch_thread_return_value_set (current ks) (Inl EAGAIN) ks"
  have r: "sched_inv ?r" "cache ?r = next_up ?r" "next_up ?r = next_up ks" "current ?r = current ks"
    using cache next_up_same [of ?r ks] return_value_set_ok(1) [OF inv]
    by (simp_all add: arch_thread_return_value_set_def)
  define k where "k = (if next_up ks \<noteq> current ks then z_reset_time_slice (next_up ks) (?r\<lparr>current := next_up ks\<rparr>) else ?r)"
  have eq: "do_swap ks = k"
    using r by (simp add: do_swap_def z_swap_next_thread_def k_def Let_def)
  have "sched_inv (?r\<lparr>current := c\<rparr>)" for c
    using r(1) by (rule sched_inv_same) (use sched_inv_timeouts [OF r(1)] in simp_all)
  then have kinv: "sched_inv k"
    using r by (simp add: k_def sched_inv_reset_time_slice)
  have "next_up k = next_up ?r"
    by (rule next_up_same) (simp_all add: k_def)
  moreover have "current k = next_up ks" "cache k = next_up ks"
    using r by (auto simp: k_def)
  ultimately have cur: "current k = next_up ks" "cache k = next_up ks" "next_up k = next_up ks"
    using r by simp_all
  with next_up_runnable [OF kinv] kinv show "kernel_ok (do_swap ks)"
    by (auto simp: eq kernel_ok_but_def cache_best_def curr_ok_def z_is_thread_ready_bits thread_state_bits)
  show "current (do_swap ks) = next_up ks"
    using cur eq by simp
qed

lemma z_swap_ok:
  "sched_inv ks \<Longrightarrow> cache ks = next_up ks \<Longrightarrow> kernel_ok (z_swap ks)"
  "sched_inv ks \<Longrightarrow> cache ks = next_up ks \<Longrightarrow> current (z_swap ks) = next_up ks"
  by (simp_all add: z_swap_def do_swap_ok)

lemma z_reschedule_ok [inv_intros]: "kernel_ok ks \<Longrightarrow> kernel_ok (z_reschedule ks)"
  by (auto simp: z_reschedule_def need_swap_def kernel_ok_but_def [of _ ks] cache_best_def intro: z_swap_ok(1))

lemma z_reschedule_unlocked_eq: "z_reschedule_unlocked ks = z_reschedule ks"
  by (simp add: z_reschedule_unlocked_def z_reschedule_irqlock_def z_reschedule_def z_swap_def)

subsection \<open>Operations that leave the choice of the next thread alone\<close>

text \<open>
  \<open>same_choice\<close>: nothing the cached decision depends on has changed for the worse, so that
  \<open>cache_best\<close> and \<open>curr_ok\<close> carry over.
\<close>

definition same_choice :: "'a kernel_scheme \<Rightarrow> 'a kernel_scheme \<Rightarrow> bool" where
  "same_choice ks ks' \<longleftrightarrow>
     runq ks' = runq ks \<and> idle_thread ks' = idle_thread ks \<and> cache ks' = cache ks \<and>
     current ks' = current ks \<and> in_isr ks' = in_isr ks \<and>
     prio (threads ks' (current ks)) = prio (threads ks (current ks)) \<and>
     sched_locked (threads ks' (current ks)) = sched_locked (threads ks (current ks)) \<and>
     (\<forall>k \<in> {1, 2, 4, 8, 16}. z_is_thread_state_set ks' (current ks) k \<longrightarrow> z_is_thread_state_set ks (current ks) k) \<and>
     (z_is_thread_state_set ks (current ks) 128 \<longrightarrow> z_is_thread_state_set ks' (current ks) 128) \<and>
     (is_linked ks' (ThreadTO (current ks)) \<longrightarrow> is_linked ks (ThreadTO (current ks)))"

lemma same_choice_trans: "same_choice a b \<Longrightarrow> same_choice b c \<Longrightarrow> same_choice a c"
  unfolding same_choice_def by simp

lemma same_choice_ok:
  assumes "same_choice ks ks'"
  shows "cache_best ks \<Longrightarrow> cache_best ks'" and "curr_ok ks \<Longrightarrow> curr_ok ks'"
proof -
  have "next_up ks' = next_up ks"
    using assms by (intro next_up_same) (simp_all add: same_choice_def)
  moreover have "thread_is_preemptible ks' (current ks) = thread_is_preemptible ks (current ks)"
    using assms by (simp add: thread_is_preemptible_def preempt_def same_choice_def)
  moreover have "z_is_thread_prevented_from_running ks' (current ks) \<Longrightarrow>
      z_is_thread_prevented_from_running ks (current ks)"
    using assms by (auto simp: thread_state_bits same_choice_def)
  ultimately show "cache_best ks \<Longrightarrow> cache_best ks'"
    using assms by (auto simp: cache_best_def same_choice_def)
  show "curr_ok ks \<Longrightarrow> curr_ok ks'"
    using assms by (auto simp: curr_ok_def same_choice_def thread_state_bits)
qed

lemma same_choice_unpend: "same_choice ks (unpend_thread_no_timeout t ks)"
  by (auto simp: same_choice_def unpend_thread_no_timeout_def waitq_remove_def
      z_mark_thread_as_not_pending_def Let_def)

lemma same_choice_abort:
  assumes "timeouts_ok ks"
  shows "same_choice ks (snd (z_abort_thread_timeout t ks))"
proof -
  have "z_is_thread_state_set (snd (z_abort_timeout (ThreadTO t) ks)) = z_is_thread_state_set ks"
    by (rule state_set_threads) simp
  then show ?thesis
    using assms by (auto simp: same_choice_def z_abort_thread_timeout_def is_linked_abort)
qed

lemma same_choice_marks:
  "same_choice ks (z_mark_thread_as_not_suspended t ks)"
  "same_choice ks (z_mark_thread_as_started t ks)"
  by (auto simp: same_choice_def z_mark_thread_as_not_suspended_def z_mark_thread_as_started_def)

lemma same_choice_upd:
  "(\<And>th. thread_state (f th) = thread_state th) \<Longrightarrow> (\<And>th. prio (f th) = prio th) \<Longrightarrow>
   (\<And>th. sched_locked (f th) = sched_locked th) \<Longrightarrow> same_choice ks (upd_thread t f ks)"
  by (auto simp: same_choice_def)

lemma same_choice_retval:
  "same_choice ks (arch_thread_return_value_set t v ks)"
  "same_choice ks (z_thread_return_value_set_with_data t v d ks)"
  by (auto simp: arch_thread_return_value_set_def z_thread_return_value_set_with_data_def Let_def
      intro!: same_choice_upd same_choice_trans [OF same_choice_upd same_choice_upd])

lemma kernel_ok_choice:
  "kernel_ok_but X ks \<Longrightarrow> same_choice ks ks' \<Longrightarrow> sched_inv_but Y ks' \<Longrightarrow> kernel_ok_but Y ks'"
  using same_choice_ok [of ks ks'] by (simp add: kernel_ok_but_def)

subsection \<open>Flags that are clear and the reserved dummy thread\<close>

text \<open>
  Between kernel calls no thread is being aborted on another processor and no event wake-up is half
  done; the dummy thread \<open>d\<close> is never started, pended or armed.
\<close>

definition dummy_ok :: "tid \<Rightarrow> 'a kernel_scheme \<Rightarrow> bool" where
  "dummy_ok d ks \<longleftrightarrow> z_is_thread_state_set ks d THREAD_DUMMY \<and> pended_on (threads ks d) = None \<and>
     \<not> is_linked ks (ThreadTO d)"

definition base_ok :: "tid \<Rightarrow> 'a kernel_scheme \<Rightarrow> bool" where
  "base_ok d ks \<longleftrightarrow> dummy_ok d ks \<and>
     (\<forall>t. \<not> no_wake_on_timeout (threads ks t) \<and> \<not> z_is_thread_state_set ks t THREAD_ABORTING)"

lemma base_ok_same:
  "base_ok d ks \<Longrightarrow> threads ks' = threads ks \<Longrightarrow> (is_linked ks' (ThreadTO d) \<Longrightarrow> is_linked ks (ThreadTO d)) \<Longrightarrow>
   base_ok d ks'"
  using state_set_threads [of ks' ks] by (auto simp: base_ok_def dummy_ok_def)

lemma is_linked_abort_mono: "is_linked (snd (z_abort_timeout to ks)) u \<Longrightarrow> is_linked ks u"
proof -
  have "fst ` set (remove_timeout to l) \<subseteq> fst ` set l" for l
    by (induction to l rule: remove_timeout.induct) (auto split: list.splits)
  then show "is_linked (snd (z_abort_timeout to ks)) u \<Longrightarrow> is_linked ks u"
    by (auto simp: is_linked_def timeout_list_abort)
qed

lemma base_ok_abort: "base_ok d ks \<Longrightarrow> base_ok d (snd (z_abort_timeout to ks))"
  by (erule base_ok_same) (auto dest: is_linked_abort_mono)

lemma base_ok_add: "base_ok d ks \<Longrightarrow> to \<noteq> ThreadTO d \<Longrightarrow> base_ok d (z_add_timeout to w ks)"
  by (erule base_ok_same) (auto simp: is_linked_add)

lemma base_ok_set: "base_ok d ks \<Longrightarrow> m AND 32 = 0 \<Longrightarrow> base_ok d (set_state_bits t m ks)"
  by (auto simp: base_ok_def dummy_ok_def) (simp add: set_state_bits_def split: if_splits)

lemma base_ok_clear:
  "base_ok d ks \<Longrightarrow> m AND 1 = 0 \<Longrightarrow> m AND 32 = 0 \<or> m AND 32 = 32 \<Longrightarrow> base_ok d (clear_state_bits t m ks)"
  by (auto simp: base_ok_def dummy_ok_def) (simp_all add: clear_state_bits_def split: if_splits)

lemma base_ok_upd:
  "base_ok d ks \<Longrightarrow> (\<And>th. thread_state (f th) = thread_state th) \<Longrightarrow>
   (\<And>th. \<not> no_wake_on_timeout th \<Longrightarrow> \<not> no_wake_on_timeout (f th)) \<Longrightarrow>
   t \<noteq> d \<or> pended_on (f (threads ks t)) = None \<Longrightarrow> base_ok d (upd_thread t f ks)"
  by (auto simp: base_ok_def dummy_ok_def)

lemma base_ok_reset [inv_intros]: "base_ok d ks \<Longrightarrow> base_ok d (z_reset_time_slice t ks)"
  unfolding z_reset_time_slice_def Let_def
  by (auto intro!: base_ok_add intro: base_ok_same [OF base_ok_abort])

lemma base_ok_cache [inv_intros]: "base_ok d ks \<Longrightarrow> base_ok d (update_cache b ks)"
  unfolding update_cache_def Let_def by (auto intro: base_ok_same base_ok_same [OF base_ok_reset])

lemma base_ok_queue [inv_intros]:
  "base_ok d ks \<Longrightarrow> base_ok d (queue_thread t ks)" "base_ok d ks \<Longrightarrow> base_ok d (dequeue_thread t ks)"
  unfolding queue_thread_def runq_add_def dequeue_thread_def runq_remove_def
  by (auto intro: base_ok_same [OF base_ok_set [where m = 128]] base_ok_same [OF base_ok_clear [where m = 128]])

lemma base_ok_ready [inv_intros]: "base_ok d ks \<Longrightarrow> base_ok d (ready_thread t ks)"
  unfolding ready_thread_def by (auto intro: inv_intros)

lemma base_ok_unready [inv_intros]: "base_ok d ks \<Longrightarrow> base_ok d (unready_thread t ks)"
  unfolding unready_thread_def Let_def by (auto intro: inv_intros)

lemma base_ok_retval [inv_intros]:
  "base_ok d ks \<Longrightarrow> base_ok d (arch_thread_return_value_set t v ks)"
  "base_ok d ks \<Longrightarrow> base_ok d (z_thread_return_value_set_with_data t v a ks)"
  unfolding z_thread_return_value_set_with_data_def arch_thread_return_value_set_def Let_def
  by (auto simp: base_ok_def dummy_ok_def)

lemma base_ok_unpend [inv_intros]: "base_ok d ks \<Longrightarrow> base_ok d (unpend_thread_no_timeout t ks)"
  unfolding unpend_thread_no_timeout_def waitq_remove_def z_mark_thread_as_not_pending_def Let_def
  by (rule base_ok_upd [OF base_ok_clear]) (auto intro: base_ok_same)

lemma base_ok_marks [inv_intros]:
  "base_ok d ks \<Longrightarrow> base_ok d (z_mark_thread_as_not_suspended t ks)"
  "base_ok d ks \<Longrightarrow> base_ok d (z_mark_thread_as_suspended t ks)"
  "base_ok d ks \<Longrightarrow> base_ok d (z_mark_thread_as_started t ks)"
  unfolding thread_mark_defs by (auto intro: base_ok_set base_ok_clear)

lemma base_ok_abort_thread [inv_intros]: "base_ok d ks \<Longrightarrow> base_ok d (snd (z_abort_thread_timeout t ks))"
  unfolding z_abort_thread_timeout_def by (rule base_ok_abort)

lemma base_ok_add_to_waitq [inv_intros]:
  assumes "base_ok d ks" and "t \<noteq> d"
  shows "base_ok d (add_to_waitq_locked t q ks)"
proof -
  let ?m = "z_mark_thread_as_pending t (unready_thread t ks)"
  have m: "base_ok d ?m"
    unfolding z_mark_thread_as_pending_def using assms(1) by (intro base_ok_set base_ok_unready) simp_all
  then have "base_ok d (upd_thread t (\<lambda>th. th\<lparr>pended_on := Some p\<rparr>) ?m)" for p
    using assms(2) by (intro base_ok_upd) simp_all
  then have "base_ok d (waitq_add p t (upd_thread t (\<lambda>th. th\<lparr>pended_on := Some p\<rparr>) ?m))" for p
    by (rule base_ok_same) (simp_all add: waitq_add_def)
  with m show ?thesis
    by (simp add: add_to_waitq_locked_def Let_def split: option.split)
qed

lemma base_ok_pend [inv_intros]:
  "base_ok d ks \<Longrightarrow> t \<noteq> d \<Longrightarrow> base_ok d (add_thread_timeout t w ks)"
  "base_ok d ks \<Longrightarrow> t \<noteq> d \<Longrightarrow> base_ok d (pend_locked t q w ks)"
  by (simp_all add: add_thread_timeout_def pend_locked_def base_ok_add base_ok_add_to_waitq)

lemma base_ok_swap [inv_intros]:
  "base_ok d ks \<Longrightarrow> base_ok d (z_swap ks)" "base_ok d ks \<Longrightarrow> base_ok d (z_reschedule ks)"
proof -
  have "base_ok d (ks\<lparr>current := c\<rparr>)" if "base_ok d ks" for ks :: "'a kernel_scheme" and c
    using that by (rule base_ok_same) simp_all
  then have "base_ok d (z_swap ks)" if "base_ok d ks" for ks :: "'a kernel_scheme"
    using that by (simp add: z_swap_def do_swap_def Let_def base_ok_retval base_ok_reset)
  then show "base_ok d ks \<Longrightarrow> base_ok d (z_swap ks)" "base_ok d ks \<Longrightarrow> base_ok d (z_reschedule ks)"
    by (simp_all add: z_reschedule_def)
qed

end
