(* ===== verification/Sched_Safe.thy ===== *)
theory Sched_Safe
  imports Sched_Inv
begin

text \<open>
  Every operation of the scheduler keeps \<open>kernel_ok\<close>: the queues agree with the thread states, the
  ready threads are queued, and the cached next thread is the right one.  The loops over wait queues
  return.  At the end the operations are put together as the transitions of the kernel.
\<close>

subsection \<open>Wait queues\<close>

lemma ready_thread_cases:
  "ready_thread t ks = ks \<or> ready_thread t ks = update_cache False (queue_thread t ks)"
  by (simp add: ready_thread_def)

lemma ready_thread_fields [simp]:
  "current (ready_thread t ks) = current ks" "idle_thread (ready_thread t ks) = idle_thread ks"
  "in_isr (ready_thread t ks) = in_isr ks" "irq_unlocked (ready_thread t ks) = irq_unlocked ks"
  "waitqs (ready_thread t ks) = waitqs ks"
  "prio (threads (ready_thread t ks) u) = prio (threads ks u)"
  "pended_on (threads (ready_thread t ks) u) = pended_on (threads ks u)"
  "128 AND k = 0 \<Longrightarrow> z_is_thread_state_set (ready_thread t ks) u k = z_is_thread_state_set ks u k"
  by (simp_all add: ready_thread_def)

lemma is_linked_ready_thread:
  "timeouts_ok ks \<Longrightarrow> is_linked (ready_thread t ks) (ThreadTO u) = is_linked ks (ThreadTO u)"
  by (simp add: ready_thread_def timeouts_update_cache)

lemma ready_thread_kernel_ok [inv_intros]:
  assumes "kernel_ok_but X ks" and "t \<noteq> idle_thread ks"
  shows "kernel_ok_but (X - {t}) (ready_thread t ks)"
proof -
  have inv: "sched_inv_but X ks" and to: "timeouts_ok ks"
    using assms(1) by (auto simp: kernel_ok_but_def sched_inv_timeouts)
  have "z_is_thread_queued (ready_thread t ks) u" if "z_is_thread_queued ks u" for u
    using that by (simp add: ready_thread_def thread_state_bits)
  then have "curr_ok (ready_thread t ks)"
    using assms(1) to by (auto simp: kernel_ok_but_def curr_ok_def is_linked_ready_thread)
  moreover have "cache_best (ready_thread t ks)"
    using assms(1) ready_thread_cases [of t ks] by (auto simp: kernel_ok_but_def)
  ultimately show ?thesis
    using ready_thread_ok [OF inv assms(2)] by (simp add: kernel_ok_but_def)
qed

lemma pended_not_idle:
  "sched_inv_but X ks \<Longrightarrow> pended_on (threads ks t) \<noteq> None \<Longrightarrow> t \<noteq> idle_thread ks"
  by (auto simp: inv_unfold)

lemma waitq_best_Some:
  assumes "sched_inv_but X ks" and "waitq_best ks q = Some t"
  shows "pended_on (threads ks t) = Some q" and "waitqs ks q = t # tl (waitqs ks q)"
    and "t \<noteq> idle_thread ks"
proof -
  show *: "waitqs ks q = t # tl (waitqs ks q)"
    using assms(2) by (cases "waitqs ks q") (auto simp: waitq_best_def z_priq_dumb_best_def)
  then have "t \<in> set (waitqs ks q)"
    by (metis list.set_intros(1))
  then show p: "pended_on (threads ks t) = Some q"
    using assms(1) by (simp add: sched_inv_but_def)
  then show "t \<noteq> idle_thread ks"
    using pended_not_idle [OF assms(1)] by simp
qed

lemma waitq_best_None: "waitq_best ks q = None \<longleftrightarrow> waitqs ks q = []"
  by (simp add: waitq_best_def z_priq_dumb_best_eq)

lemma waitq_head_best: "z_waitq_head ks q = waitq_best ks q"
  by (simp add: z_waitq_head_def waitq_best_def)

lemma unpend_fields [simp]:
  "current (unpend_thread_no_timeout t ks) = current ks"
  "idle_thread (unpend_thread_no_timeout t ks) = idle_thread ks"
  "in_isr (unpend_thread_no_timeout t ks) = in_isr ks"
  "irq_unlocked (unpend_thread_no_timeout t ks) = irq_unlocked ks"
  "runq (unpend_thread_no_timeout t ks) = runq ks"
  "cache (unpend_thread_no_timeout t ks) = cache ks"
  "is_linked (unpend_thread_no_timeout t ks) = is_linked ks"
  "timeouts_ok (unpend_thread_no_timeout t ks) = timeouts_ok ks"
  "prio (threads (unpend_thread_no_timeout t ks) u) = prio (threads ks u)"
  "pended_on (threads (unpend_thread_no_timeout t ks) u) =
     (if u = t then None else pended_on (threads ks u))"
  "2 AND k = 0 \<Longrightarrow> z_is_thread_state_set (unpend_thread_no_timeout t ks) u k = z_is_thread_state_set ks u k"
  by (simp_all add: unpend_thread_no_timeout_def waitq_remove_def z_mark_thread_as_not_pending_def Let_def)

lemma waitqs_unpend:
  "waitqs (unpend_thread_no_timeout t ks) =
     (waitqs ks)(the (pended_on (threads ks t)) := remove1 t (waitqs ks (the (pended_on (threads ks t)))))"
  by (simp add: unpend_thread_no_timeout_def waitq_remove_def z_priq_dumb_remove_def
      z_mark_thread_as_not_pending_def Let_def)

lemma abort_thread_fields [simp]:
  "threads (snd (z_abort_thread_timeout t ks)) = threads ks"
  "current (snd (z_abort_thread_timeout t ks)) = current ks"
  "idle_thread (snd (z_abort_thread_timeout t ks)) = idle_thread ks"
  "in_isr (snd (z_abort_thread_timeout t ks)) = in_isr ks"
  "irq_unlocked (snd (z_abort_thread_timeout t ks)) = irq_unlocked ks"
  "runq (snd (z_abort_thread_timeout t ks)) = runq ks"
  "cache (snd (z_abort_thread_timeout t ks)) = cache ks"
  "waitqs (snd (z_abort_thread_timeout t ks)) = waitqs ks"
  "z_is_thread_state_set (snd (z_abort_thread_timeout t ks)) = z_is_thread_state_set ks"
  by (simp_all add: z_abort_thread_timeout_def state_set_threads [of "snd (z_abort_timeout (ThreadTO t) ks)" ks])

lemma is_linked_abort_thread:
  "timeouts_ok ks \<Longrightarrow>
   is_linked (snd (z_abort_thread_timeout t ks)) (ThreadTO u) \<longleftrightarrow> is_linked ks (ThreadTO u) \<and> u \<noteq> t"
  by (simp add: z_abort_thread_timeout_def is_linked_abort)

text \<open>Unpending a thread and cancelling its timeout leaves it to be readied.\<close>

lemma unpend_abort_ok:
  assumes "kernel_ok_but X ks" and "pended_on (threads ks t) \<noteq> None"
  shows "kernel_ok_but (insert t X) (snd (z_abort_thread_timeout t (unpend_thread_no_timeout t ks)))"
proof -
  have inv: "sched_inv_but X ks"
    using assms(1) by (simp add: kernel_ok_but_def)
  let ?u = "unpend_thread_no_timeout t ks"
  have u: "sched_inv_but (insert t X) ?u"
    by (rule unpend_ok [OF inv assms(2)])
  have "same_choice ks (snd (z_abort_thread_timeout t ?u))"
    using same_choice_unpend [of ks t] same_choice_abort [OF sched_inv_timeouts [OF u], of t]
    by (rule same_choice_trans)
  with assms(1) show ?thesis
    using abort_timeout_ok [OF u, of t] by (intro kernel_ok_choice [OF assms(1)]) simp_all
qed

lemma z_unpend_first_thread_ok:
  assumes "kernel_ok ks" and "z_unpend_first_thread q ks = (Some t, ks')"
  shows "kernel_ok_but {t} ks'" and "waitqs ks q = t # tl (waitqs ks q)" and "t \<noteq> idle_thread ks'"
    and "waitqs ks' = (waitqs ks)(q := tl (waitqs ks q))" and "current ks' = current ks"
    and "pended_on (threads ks t) = Some q"
proof -
  have inv: "sched_inv ks"
    using assms(1) by (simp add: kernel_ok_but_def)
  have best: "waitq_best ks q = Some t"
    and ks': "ks' = snd (z_abort_thread_timeout t (unpend_thread_no_timeout t ks))"
    using assms(2) by (auto simp: z_unpend_first_thread_def split: option.splits)
  note b = waitq_best_Some [OF inv best]
  show "waitqs ks q = t # tl (waitqs ks q)" "pended_on (threads ks t) = Some q"
    by (rule b)+
  show "kernel_ok_but {t} ks'" "t \<noteq> idle_thread ks'" "current ks' = current ks"
    using unpend_abort_ok [OF assms(1), of t] b by (simp_all add: ks')
  have "remove1 t (waitqs ks q) = tl (waitqs ks q)"
    using b(2) by (cases "waitqs ks q") auto
  then show "waitqs ks' = (waitqs ks)(q := tl (waitqs ks q))"
    by (simp add: ks' waitqs_unpend b(1))
qed

lemma z_unpend_first_thread_None:
  "z_unpend_first_thread q ks = (None, ks') \<longleftrightarrow> waitqs ks q = [] \<and> ks' = ks"
  by (cases "waitqs ks q") (auto simp: z_unpend_first_thread_def waitq_best_def z_priq_dumb_best_def)

subsection \<open>Blocking the current thread\<close>

lemma add_to_waitq_fields [simp]:
  "current (add_to_waitq_locked t w ks) = current ks"
  "idle_thread (add_to_waitq_locked t w ks) = idle_thread ks"
  "in_isr (add_to_waitq_locked t w ks) = in_isr ks"
  "irq_unlocked (add_to_waitq_locked t w ks) = irq_unlocked ks"
  "\<not> z_is_thread_state_set (add_to_waitq_locked t w ks) t 128"
  by (simp_all add: add_to_waitq_locked_def waitq_add_def z_mark_thread_as_pending_def Let_def
      split: option.split)

lemma is_linked_add_to_waitq:
  assumes "timeouts_ok ks"
  shows "is_linked (add_to_waitq_locked t w ks) (ThreadTO u) = is_linked ks (ThreadTO u)"
proof -
  have "is_linked (unready_thread t ks) (ThreadTO u) = is_linked ks (ThreadTO u)"
    using assms by (simp add: unready_thread_def Let_def timeouts_update_cache)
  then show ?thesis
    by (simp add: add_to_waitq_locked_def waitq_add_def z_mark_thread_as_pending_def Let_def
        split: option.split)
qed

lemma cache_unready_current: "cache (unready_thread (current ks) ks) = next_up (unready_thread (current ks) ks)"
proof -
  define k where "k = (if z_is_thread_queued ks (current ks) then dequeue_thread (current ks) ks else ks)"
  have "unready_thread (current ks) ks = update_cache True k"
    by (simp add: unready_thread_def k_def Let_def)
  moreover have "next_up (update_cache True k) = next_up k"
    by (rule next_up_same) simp_all
  ultimately show ?thesis by (simp add: cache_update_cache)
qed

lemma cache_add_to_waitq_current:
  "cache (add_to_waitq_locked (current ks) w ks) = next_up (add_to_waitq_locked (current ks) w ks)"
proof -
  let ?k = "add_to_waitq_locked (current ks) w ks" and ?u = "unready_thread (current ks) ks"
  have "cache ?k = cache ?u" "runq ?k = runq ?u" "idle_thread ?k = idle_thread ?u"
    by (simp_all add: add_to_waitq_locked_def waitq_add_def z_mark_thread_as_pending_def Let_def
        split: option.split)
  then show ?thesis
    using cache_unready_current [of ks] next_up_same [of ?k ?u] by simp
qed

lemma add_thread_timeout_fields [simp]:
  "current (add_thread_timeout t w ks) = current ks" "cache (add_thread_timeout t w ks) = cache ks"
  "runq (add_thread_timeout t w ks) = runq ks" "idle_thread (add_thread_timeout t w ks) = idle_thread ks"
  "next_up (add_thread_timeout t w ks) = next_up ks"
  by (simp_all add: add_thread_timeout_def next_up_same [of "z_add_timeout (ThreadTO t) w ks" ks])

lemma current_facts:
  assumes "kernel_ok ks" and "\<not> in_isr ks" and "current ks \<noteq> idle_thread ks"
  shows "z_is_thread_queued ks (current ks)" and "pended_on (threads ks (current ks)) = None"
    and "\<not> is_linked ks (ThreadTO (current ks))" and "z_is_thread_ready ks (current ks)"
  using assms by (auto simp: kernel_ok_but_def curr_ok_def inv_unfold)

lemma pend_locked_current_ok:
  assumes "kernel_ok ks" and "\<not> in_isr ks" and "current ks \<noteq> idle_thread ks"
  shows "sched_inv (pend_locked (current ks) (Some q) w ks)"
    and "cache (pend_locked (current ks) (Some q) w ks) = next_up (pend_locked (current ks) (Some q) w ks)"
proof -
  let ?k = "add_to_waitq_locked (current ks) (Some q) ks"
  have inv: "sched_inv ks"
    using assms(1) by (simp add: kernel_ok_but_def)
  note cur = current_facts [OF assms]
  have k: "sched_inv ?k"
    using add_to_waitq_ok [OF inv, of "current ks" q] cur assms(3) by simp
  then show "sched_inv (pend_locked (current ks) (Some q) w ks)"
    unfolding pend_locked_def using cur(3) assms(3) sched_inv_timeouts [OF inv]
    by (intro add_thread_timeout_ok) (simp_all add: is_linked_add_to_waitq thread_state_bits)
  show "cache (pend_locked (current ks) (Some q) w ks) = next_up (pend_locked (current ks) (Some q) w ks)"
    by (simp add: pend_locked_def cache_add_to_waitq_current)
qed

lemma z_pend_curr_ok [inv_intros]:
  assumes "kernel_ok ks" and "\<not> in_isr ks" and "current ks \<noteq> idle_thread ks"
  shows "kernel_ok (z_pend_curr (Some q) w ks)"
  unfolding z_pend_curr_def by (intro z_swap_ok pend_locked_current_ok assms)

lemma k_thread_join_ok [inv_intros]:
  assumes "kernel_ok ks" and "\<not> in_isr ks" and "current ks \<noteq> idle_thread ks"
  shows "kernel_ok (snd (k_thread_join t w ks))"
proof -
  have "add_thread_timeout (current ks) w (add_to_waitq_locked (current ks) (Some (JoinQ t)) ks) =
      pend_locked (current ks) (Some (JoinQ t)) w ks"
    by (simp add: pend_locked_def)
  then show ?thesis
    using assms z_swap_ok(1) [OF pend_locked_current_ok [OF assms]]
    by (simp add: k_thread_join_def Let_def)
qed

lemma z_tick_sleep_ok [inv_intros]:
  assumes "kernel_ok ks" and "\<not> in_isr ks" and "current ks \<noteq> idle_thread ks" and "ticks \<noteq> 0"
  shows "kernel_ok (snd (snd (z_tick_sleep ticks ks)))"
proof -
  let ?t = "current ks"
  let ?u = "unready_thread ?t ks"
  let ?a = "z_add_timeout (ThreadTO ?t) ticks ?u"
  let ?s = "z_mark_thread_as_suspended ?t ?a"
  have inv: "sched_inv ks"
    using assms(1) by (simp add: kernel_ok_but_def)
  have u: "sched_inv_but {?t} ?u" "\<not> z_is_thread_queued ?u ?t" "\<not> is_linked ?u (ThreadTO ?t)"
    using unready_thread_ok [OF inv, of ?t] current_facts [OF assms(1-3)] sched_inv_timeouts [OF inv]
    by (simp_all add: thread_state_bits) (simp add: unready_thread_def Let_def timeouts_update_cache)
  have "sched_inv_but {?t} ?a"
    using u assms(3) by (intro add_timeout_ok) simp_all
  moreover have "z_is_thread_state_set ?a = z_is_thread_state_set ?u"
    by (rule state_set_threads) simp
  ultimately have s: "sched_inv ?s"
    using mark_suspended_ok [of "{?t}" ?a ?t] u(2) assms(3) by (simp add: thread_state_bits)
  have "next_up ?s = next_up ?u"
    by (rule next_up_same) (simp_all add: z_mark_thread_as_suspended_def)
  moreover have "cache ?s = cache ?u"
    by (simp add: z_mark_thread_as_suspended_def)
  ultimately have "cache ?s = next_up ?s"
    using cache_unready_current [of ks] by simp
  with s show ?thesis
    using assms(4) by (simp add: z_tick_sleep_def Let_def z_swap_ok)
qed

text \<open>Requeueing a queued thread, the core of yielding and of time slicing.\<close>

lemma requeue_inv:
  assumes "sched_inv ks" and "z_is_thread_queued ks t"
  shows "sched_inv (queue_thread t (dequeue_thread t ks))"
proof -
  have "z_is_thread_ready ks t" "t \<noteq> idle_thread ks"
    using assms unfolding sched_inv_but_def by blast+
  then show ?thesis
    using sched_inv_queue_thread [OF sched_inv_dequeue_thread [OF assms(1), of t], of t]
    by (simp add: z_is_thread_ready_bits thread_state_bits)
qed

lemma k_yield_ok [inv_intros]:
  assumes "kernel_ok ks" and "\<not> in_isr ks" and "current ks \<noteq> idle_thread ks"
  shows "kernel_ok (k_yield ks)"
proof -
  let ?k = "queue_thread (current ks) (dequeue_thread (current ks) ks)"
  have "sched_inv ?k"
    using assms(1) current_facts(1) [OF assms] by (simp add: kernel_ok_but_def requeue_inv)
  moreover have "next_up (update_cache True ?k) = next_up ?k"
    by (rule next_up_same) simp_all
  ultimately show ?thesis
    by (simp add: k_yield_def Let_def z_swap_ok sched_inv_update_cache cache_update_cache)
qed

lemma move_thread_ok:
  assumes "kernel_ok ks" and "z_is_thread_queued ks t"
  shows "kernel_ok (move_thread_to_end_of_prio_q t ks)"
proof -
  have inv: "sched_inv ks" and cur: "curr_ok ks"
    using assms(1) by (simp_all add: kernel_ok_but_def)
  have "curr_ok (update_cache b (queue_thread t (dequeue_thread t ks)))" for b
    using cur sched_inv_timeouts [OF inv] by (auto simp: curr_ok_def timeouts_update_cache thread_state_bits)
  then show ?thesis
    using requeue_inv [OF inv assms(2)] assms(2)
    by (simp add: move_thread_to_end_of_prio_q_def kernel_ok_but_def sched_inv_update_cache)
qed

lemma kernel_ok_reset_time_slice [inv_intros]:
  assumes "kernel_ok_but X ks"
  shows "kernel_ok_but X (z_reset_time_slice t ks)"
proof -
  have "same_choice ks (z_reset_time_slice t ks)"
    using assms by (auto simp: same_choice_def timeouts_reset_slice kernel_ok_but_def sched_inv_timeouts)
  then show ?thesis
    using assms by (intro kernel_ok_choice [OF assms] sched_inv_reset_time_slice) (simp_all add: kernel_ok_but_def)
qed

lemma z_time_slice_ok [inv_intros]:
  assumes "kernel_ok ks"
  shows "kernel_ok (z_time_slice ks)"
proof -
  have "z_is_thread_queued ks (current ks)" if "thread_is_sliceable ks (current ks)"
    using that assms
    by (auto simp: kernel_ok_but_def sched_inv_but_def curr_ok_def thread_is_sliceable_def z_is_thread_ready_def
        z_is_thread_timeout_active_def z_is_idle_thread_object_def)
  then show ?thesis
    using assms by (simp add: z_time_slice_def Let_def kernel_ok_reset_time_slice move_thread_ok)
qed

subsection \<open>Waking threads\<close>

lemma kernel_ok_marks:
  "kernel_ok_but X ks \<Longrightarrow> kernel_ok_but (insert t X) (z_mark_thread_as_not_suspended t ks)"
  "kernel_ok_but X ks \<Longrightarrow> kernel_ok_but (insert t X) (z_mark_thread_as_started t ks)"
  by (rule kernel_ok_choice, assumption, rule same_choice_marks, simp add: kernel_ok_but_def mark_not_suspended_ok mark_started_ok)+

lemma kernel_ok_unpend:
  "kernel_ok_but X ks \<Longrightarrow> pended_on (threads ks t) \<noteq> None \<Longrightarrow>
   kernel_ok_but (insert t X) (unpend_thread_no_timeout t ks)"
  by (rule kernel_ok_choice, assumption, rule same_choice_unpend, simp add: kernel_ok_but_def unpend_ok)

lemma kernel_ok_abort:
  "kernel_ok_but X ks \<Longrightarrow> kernel_ok_but (insert t X) (snd (z_abort_thread_timeout t ks))"
  by (rule kernel_ok_choice, assumption, rule same_choice_abort)
    (auto simp: kernel_ok_but_def abort_timeout_ok sched_inv_timeouts)

lemma kernel_ok_retval:
  "kernel_ok_but X ks \<Longrightarrow> kernel_ok_but X (arch_thread_return_value_set t v ks)"
  "kernel_ok_but X ks \<Longrightarrow> kernel_ok_but X (z_thread_return_value_set_with_data t v d ks)"
  by (rule kernel_ok_choice, assumption, rule same_choice_retval, simp add: kernel_ok_but_def return_value_set_ok)+

lemma kernel_ok_upd:
  assumes "kernel_ok_but X ks" and "\<And>th. thread_state (f th) = thread_state th"
    and "\<And>th. pended_on (f th) = pended_on th" and "\<And>th. prio (f th) = prio th"
    and "\<And>th. sched_locked (f th) = sched_locked th"
  shows "kernel_ok_but X (upd_thread t f ks)"
  using assms by (intro kernel_ok_choice [OF assms(1)] same_choice_upd upd_thread_same_inv)
    (simp_all add: kernel_ok_but_def)

lemma kernel_ok_mono: "kernel_ok_but X ks \<Longrightarrow> X \<subseteq> Y \<Longrightarrow> kernel_ok_but Y ks"
  using sched_inv_mono by (auto simp: kernel_ok_but_def)

lemma ready_thread_done: "kernel_ok_but {t} ks \<Longrightarrow> t \<noteq> idle_thread ks \<Longrightarrow> kernel_ok (ready_thread t ks)"
  using ready_thread_kernel_ok [of "{t}" ks t] by simp

lemma mark_fields [simp]:
  "idle_thread (z_mark_thread_as_not_suspended t ks) = idle_thread ks"
  "idle_thread (z_mark_thread_as_started t ks) = idle_thread ks"
  by (simp_all add: z_mark_thread_as_not_suspended_def z_mark_thread_as_started_def)

lemma z_sched_wake_thread_ok [inv_intros]:
  assumes "kernel_ok ks" and "t \<noteq> idle_thread ks"
  shows "kernel_ok (z_sched_wake_thread t b ks)"
proof -
  define k0 where "k0 = upd_thread t (\<lambda>th. th\<lparr>no_wake_on_timeout := False\<rparr>) ks"
  define k1 where "k1 = (if pended_on (threads k0 t) \<noteq> None then unpend_thread_no_timeout t k0 else k0)"
  define k2 where "k2 = z_mark_thread_as_started t k1"
  define k3 where "k3 = (if b then z_mark_thread_as_not_suspended t k2 else k2)"
  have k0: "kernel_ok k0"
    unfolding k0_def by (intro kernel_ok_upd assms) simp_all
  then have "kernel_ok_but {t} k1"
    using kernel_ok_unpend [of "{}" k0 t] kernel_ok_mono [of "{}" k0 "{t}"] by (simp add: k1_def)
  then have "kernel_ok_but {t} k2"
    using kernel_ok_marks(2) [of "{t}" k1 t] by (simp add: k2_def)
  then have "kernel_ok_but {t} k3"
    using kernel_ok_marks(1) [of "{t}" k2 t] by (simp add: k3_def)
  moreover have "idle_thread k3 = idle_thread ks"
    by (simp add: k3_def k2_def k1_def k0_def)
  ultimately have "kernel_ok (ready_thread t k3)"
    using assms(2) by (simp add: ready_thread_done)
  moreover have "z_sched_wake_thread t b ks \<in> {k0, ready_thread t k3}"
    unfolding k3_def k2_def k1_def k0_def z_sched_wake_thread_def Let_def by auto
  ultimately show ?thesis using k0 by auto
qed

lemma k_thread_resume_ok [inv_intros]:
  assumes "kernel_ok ks" and "t \<noteq> idle_thread ks"
  shows "kernel_ok (k_thread_resume t ks)"
  using assms kernel_ok_marks(1) [of "{}" ks t]
  by (simp add: k_thread_resume_def Let_def z_reschedule_ok ready_thread_done)

lemma z_sched_start_ok [inv_intros]:
  assumes "kernel_ok ks" and "t \<noteq> idle_thread ks"
  shows "kernel_ok (z_sched_start t ks)"
  using assms kernel_ok_marks(2) [of "{}" ks t]
  by (simp add: z_sched_start_def Let_def z_reschedule_ok ready_thread_done)

lemma k_wakeup_ok [inv_intros]:
  assumes "kernel_ok ks" and "t \<noteq> idle_thread ks"
  shows "kernel_ok (k_wakeup t ks)"
proof (cases "z_is_thread_pending ks t")
  case False
  obtain r ks' where ab: "z_abort_thread_timeout t ks = (r, ks')"
    by (cases "z_abort_thread_timeout t ks")
  then have ks': "kernel_ok_but {t} ks'" "idle_thread ks' = idle_thread ks"
    using kernel_ok_abort [OF assms(1), of t] abort_thread_fields(3) [of t ks] by simp_all
  have "ks' = ks" if "isl r"
    using ab that by (auto simp: z_abort_thread_timeout_def z_abort_timeout_def split: if_splits)
  moreover have "kernel_ok (ready_thread t (z_mark_thread_as_not_suspended t ks'))"
    using kernel_ok_marks(1) [OF ks'(1), of t] ks'(2) assms(2) by (simp add: ready_thread_done)
  ultimately show ?thesis
    using False ab assms(1) by (auto simp: k_wakeup_def Let_def intro: z_reschedule_ok)
qed (use assms in \<open>simp add: k_wakeup_def\<close>)

lemma wake_first_ok:
  assumes "kernel_ok ks" and "waitq_best ks q = Some t"
  shows "kernel_ok (ready_thread t (snd (z_abort_thread_timeout t (unpend_thread_no_timeout t ks))))"
proof -
  have "sched_inv ks"
    using assms(1) by (simp add: kernel_ok_but_def)
  note b = waitq_best_Some [OF this assms(2)]
  have "kernel_ok_but {t} (snd (z_abort_thread_timeout t (unpend_thread_no_timeout t ks)))"
    using unpend_abort_ok [OF assms(1), of t] b by simp
  then show ?thesis
    using b by (intro ready_thread_done) simp_all
qed

lemma z_sched_wake_ok [inv_intros]:
  assumes "kernel_ok ks"
  shows "kernel_ok (snd (z_sched_wake q r d ks))"
proof (cases "waitq_best ks q")
  case None
  then show ?thesis using assms by (simp add: z_sched_wake_def)
next
  case (Some t)
  then have "waitq_best (z_thread_return_value_set_with_data t r d ks) q = Some t"
    by (simp add: waitq_best_def z_thread_return_value_set_with_data_def arch_thread_return_value_set_def Let_def)
  then show ?thesis
    using Some wake_first_ok [OF kernel_ok_retval(2) [OF assms]] by (simp add: z_sched_wake_def Let_def)
qed

subsection \<open>Emptying a wait queue\<close>

text \<open>What waking the first thread of a wait queue changes for the rest of the kernel.\<close>

definition woken :: "wq \<Rightarrow> 'a kernel_scheme \<Rightarrow> 'a kernel_scheme \<Rightarrow> bool" where
  "woken q ks ks' \<longleftrightarrow>
     (\<forall>p. p \<noteq> q \<longrightarrow> waitqs ks' p = waitqs ks p) \<and>
     current ks' = current ks \<and> idle_thread ks' = idle_thread ks \<and> in_isr ks' = in_isr ks \<and>
     irq_unlocked ks' = irq_unlocked ks \<and>
     (\<forall>u. pended_on (threads ks u) = None \<longrightarrow> pended_on (threads ks' u) = None) \<and>
     (\<forall>d. base_ok d ks \<longrightarrow> base_ok d ks') \<and>
     (\<forall>u. z_is_thread_state_set ks u 128 \<longrightarrow> z_is_thread_state_set ks' u 128) \<and>
     (\<forall>u k. k \<in> {1, 4, 8, 16} \<longrightarrow> z_is_thread_state_set ks' u k = z_is_thread_state_set ks u k) \<and>
     (\<forall>u. is_linked ks' (ThreadTO u) \<longrightarrow> is_linked ks (ThreadTO u))"

lemma woken_refl: "woken q ks ks"
  by (simp add: woken_def)

lemma woken_trans: "woken q a b \<Longrightarrow> woken q b c \<Longrightarrow> woken q a c"
  unfolding woken_def by simp

lemma woken_upd:
  "(\<And>th. thread_state (f th) = thread_state th) \<Longrightarrow> (\<And>th. pended_on (f th) = pended_on th) \<Longrightarrow>
   (\<And>th. no_wake_on_timeout (f th) = no_wake_on_timeout th) \<Longrightarrow> woken q ks (upd_thread t f ks)"
  by (auto simp: woken_def base_ok_def dummy_ok_def)

lemma wake_one:
  assumes inv: "sched_inv_but X ks" and p: "pended_on (threads ks t) = Some q"
  shows "sched_inv_but X (ready_thread t (snd (z_abort_thread_timeout t (unpend_thread_no_timeout t ks))))"
    and "woken q ks (ready_thread t (snd (z_abort_thread_timeout t (unpend_thread_no_timeout t ks))))"
    and "waitqs (ready_thread t (snd (z_abort_thread_timeout t (unpend_thread_no_timeout t ks)))) q =
      remove1 t (waitqs ks q)"
proof -
  let ?u = "unpend_thread_no_timeout t ks"
  let ?a = "snd (z_abort_thread_timeout t ?u)"
  have t: "t \<noteq> idle_thread ?a"
    using pended_not_idle [OF inv, of t] p by simp
  have u: "sched_inv_but (insert t X) ?u"
    using unpend_ok [OF inv] p by simp
  have a: "sched_inv_but (insert t X) ?a"
    using abort_timeout_ok [OF u, of t] by simp
  show "sched_inv_but X (ready_thread t ?a)"
    using sched_inv_mono [OF ready_thread_ok [OF a t], of X] by auto
  show "waitqs (ready_thread t ?a) q = remove1 t (waitqs ks q)"
    by (simp add: waitqs_unpend p)
  have "z_is_thread_state_set (ready_thread t ?a) v 128" if "z_is_thread_state_set ks v 128" for v
    using that by (simp add: ready_thread_def)
  moreover have "is_linked ks (ThreadTO v)" if "is_linked (ready_thread t ?a) (ThreadTO v)" for v
    using that sched_inv_timeouts [OF a] sched_inv_timeouts [OF inv]
    by (simp add: is_linked_ready_thread z_abort_thread_timeout_def is_linked_abort)
  ultimately show "woken q ks (ready_thread t ?a)"
    by (auto simp: woken_def waitqs_unpend p intro: inv_intros)
qed

lemma retval_last:
  "th\<lparr>swap_retval := v, thread_state := x, pended_on := p\<rparr> = th\<lparr>thread_state := x, pended_on := p, swap_retval := v\<rparr>"
  by (rule k_thread.equality) simp_all

lemma retval_commute:
  "unpend_thread_no_timeout t (arch_thread_return_value_set t v ks) =
   arch_thread_return_value_set t v (unpend_thread_no_timeout t ks)"
  "z_abort_thread_timeout t (arch_thread_return_value_set t v ks) =
   (case z_abort_thread_timeout t ks of (r, k) \<Rightarrow> (r, arch_thread_return_value_set t v k))"
  by (simp_all add: unpend_thread_no_timeout_def waitq_remove_def z_mark_thread_as_not_pending_def
      clear_state_bits_def upd_thread_def arch_thread_return_value_set_def Let_def
      z_abort_thread_timeout_def z_abort_timeout_def is_linked_def retval_last)

lemma unpend_all_unfold:
  "unpend_all q ks =
     (case waitqs ks q of
        [] \<Rightarrow> Some ks
      | t # _ \<Rightarrow> unpend_all q (ready_thread t (snd (z_abort_thread_timeout t (unpend_thread_no_timeout t
                    (arch_thread_return_value_set t ret_ok ks))))))"
proof (cases "waitqs ks q")
  case (Cons t r)
  obtain c k where "z_abort_thread_timeout t (unpend_thread_no_timeout t ks) = (c, k)"
    by force
  with Cons show ?thesis
    by (subst unpend_all.simps) (simp add: z_waitq_head_def z_priq_dumb_best_def retval_commute Let_def)
qed (simp add: unpend_all.simps z_waitq_head_def z_priq_dumb_best_def)

lemma head_pended: "sched_inv_but X ks \<Longrightarrow> waitqs ks q = t # r \<Longrightarrow> pended_on (threads ks t) = Some q"
  unfolding sched_inv_but_def by (metis list.set_intros(1))

lemma unpend_all_returns:
  assumes "sched_inv_but X ks"
  shows "\<exists>ks'. unpend_all q ks = Some ks' \<and> sched_inv_but X ks' \<and> woken q ks ks' \<and> waitqs ks' q = []"
  using assms
proof (induction "length (waitqs ks q)" arbitrary: ks)
  case 0
  then show ?case
    by (subst unpend_all_unfold) (simp add: woken_refl)
next
  case (Suc n)
  then obtain t r where tr: "waitqs ks q = t # r"
    by (cases "waitqs ks q") auto
  define k0 where "k0 = arch_thread_return_value_set t ret_ok ks"
  have k0: "sched_inv_but X k0" "waitqs k0 q = t # r" "woken q ks k0"
    using return_value_set_ok(1) [OF Suc.prems] tr
    by (simp_all add: k0_def) (simp_all add: arch_thread_return_value_set_def woken_upd)
  define k1 where "k1 = ready_thread t (snd (z_abort_thread_timeout t (unpend_thread_no_timeout t k0)))"
  have k1: "sched_inv_but X k1" "woken q k0 k1" "waitqs k1 q = r"
    using wake_one [OF k0(1) head_pended [OF k0(1,2)]] k0(2) by (simp_all add: k1_def)
  then obtain ks' where ks': "unpend_all q k1 = Some ks'" "sched_inv_but X ks'" "woken q k1 ks'" "waitqs ks' q = []"
    using Suc.hyps(1) [of k1] Suc.hyps(2) tr by auto
  have "unpend_all q ks = Some ks'"
    using ks'(1) tr by (subst unpend_all_unfold) (simp add: k1_def k0_def)
  with ks' k0(3) k1(2) show ?case
    by (blast intro: woken_trans)
qed

lemma wake_all_returns:
  assumes "kernel_ok ks"
  shows "\<exists>ks'. wake_all_loop q v d b ks = Some (b \<or> waitqs ks q \<noteq> [], ks') \<and> kernel_ok ks' \<and>
    woken q ks ks' \<and> waitqs ks' q = []"
  using assms
proof (induction "length (waitqs ks q)" arbitrary: ks b)
  case 0
  then show ?case
    by (subst wake_all_loop.simps) (simp add: woken_refl z_sched_wake_def waitq_best_def z_priq_dumb_best_def)
next
  case (Suc n)
  then obtain t r where tr: "waitqs ks q = t # r"
    by (cases "waitqs ks q") auto
  define k0 where "k0 = z_thread_return_value_set_with_data t v d ks"
  have k0: "kernel_ok k0" "waitqs k0 q = t # r" "woken q ks k0"
    using kernel_ok_retval(2) [OF Suc.prems] tr
    by (simp_all add: k0_def)
      (simp_all add: z_thread_return_value_set_with_data_def arch_thread_return_value_set_def Let_def
        woken_trans [OF woken_upd woken_upd])
  define k1 where "k1 = ready_thread t (snd (z_abort_thread_timeout t (unpend_thread_no_timeout t k0)))"
  have inv: "sched_inv k0"
    using k0(1) by (simp add: kernel_ok_but_def)
  have wake: "z_sched_wake q v d ks = (True, k1)"
    using tr by (simp add: z_sched_wake_def waitq_best_def z_priq_dumb_best_def k1_def k0_def Let_def)
  have "kernel_ok k1"
    using z_sched_wake_ok [OF Suc.prems, of q v d] wake by simp
  moreover have "woken q k0 k1" "waitqs k1 q = r"
    using wake_one [OF inv head_pended [OF inv k0(2)]] k0(2) by (simp_all add: k1_def)
  ultimately obtain ks' where ks': "wake_all_loop q v d True k1 = Some (True, ks')" "kernel_ok ks'"
      "woken q k1 ks'" "waitqs ks' q = []"
    using Suc.hyps(1) [of k1 True] Suc.hyps(2) tr by auto
  have "wake_all_loop q v d b ks = Some (True, ks')"
    using ks'(1) wake by (subst wake_all_loop.simps) simp
  with ks' k0(3) \<open>woken q k0 k1\<close> tr show ?case
    by (auto intro: woken_trans)
qed

lemma z_unpend_all_returns:
  assumes "kernel_ok ks"
  shows "\<exists>ks'. z_unpend_all_loop q b ks = Some (b \<or> waitqs ks q \<noteq> [], ks') \<and> kernel_ok ks' \<and>
    woken q ks ks' \<and> waitqs ks' q = []"
  using assms
proof (induction "length (waitqs ks q)" arbitrary: ks b)
  case 0
  then show ?case
    by (subst z_unpend_all_loop.simps) (simp add: woken_refl z_waitq_head_def z_priq_dumb_best_def)
next
  case (Suc n)
  then obtain t r where tr: "waitqs ks q = t # r"
    by (cases "waitqs ks q") auto
  have inv: "sched_inv ks"
    using Suc.prems by (simp add: kernel_ok_but_def)
  have p: "pended_on (threads ks t) = Some q"
    by (rule head_pended [OF inv tr])
  define k1 where "k1 = ready_thread t (snd (z_abort_thread_timeout t (unpend_thread_no_timeout t ks)))"
  have "waitq_best ks q = Some t"
    using tr by (simp add: waitq_best_def z_priq_dumb_best_def)
  then have "kernel_ok k1"
    using wake_first_ok [OF Suc.prems] by (simp add: k1_def)
  moreover have w: "woken q ks k1" "waitqs k1 q = r"
    using wake_one [OF inv p] tr by (simp_all add: k1_def)
  ultimately obtain ks' where ks': "z_unpend_all_loop q True k1 = Some (True, ks')" "kernel_ok ks'"
      "woken q k1 ks'" "waitqs ks' q = []"
    using Suc.hyps(1) [of k1 True] Suc.hyps(2) tr by auto
  have "z_unpend_all_loop q b ks = Some (True, ks')"
    using ks'(1) tr p by (subst z_unpend_all_loop.simps)
      (simp add: z_waitq_head_def z_priq_dumb_best_def z_unpend_thread_def z_unpend_thread_no_timeout_def
        z_ready_thread_def k1_def Let_def)
  with ks' w tr show ?case
    by (auto intro: woken_trans)
qed

subsection \<open>Halting threads\<close>

lemma sched_inv_drop: "sched_inv_but (insert t X) ks \<Longrightarrow> \<not> z_is_thread_ready ks t \<Longrightarrow> sched_inv_but X ks"
  unfolding sched_inv_but_def by blast

lemma halt_mark_ok:
  assumes "sched_inv_but {t} ks" and "t \<noteq> idle_thread ks" and "m = 8 \<or> m = 16"
    and "k = set_state_bits t m ks"
    and "k' = (if z_is_thread_queued k t then dequeue_thread t k else k)"
  shows "sched_inv k'" and "\<not> z_is_thread_ready k' t" and "\<not> z_is_thread_queued k' t"
proof -
  have p: "prio (threads k' u) = prio (threads ks u)" "pended_on (threads k' u) = pended_on (threads ks u)" for u
    by (simp_all add: assms(4,5))
  have f: "waitqs k' = waitqs ks" "idle_thread k' = idle_thread ks" "is_linked k' = is_linked ks"
    "timeouts_ok k' = timeouts_ok ks" "runq k' = remove1 t (runq ks)"
    using assms(1,3) by (auto simp: assms(4,5) inv_unfold remove1_idem)
  have b: "z_is_thread_state_set k' u j \<longleftrightarrow>
      (z_is_thread_state_set ks u j \<or> u = t \<and> m AND j \<noteq> 0) \<and> \<not> (u = t \<and> j = 128)" if "j \<in> {1, 2, 4, 8, 16, 128}" for u j
    using that assms(3) by (auto simp: assms(4,5) thread_state_bits)
  show "sched_inv k'"
    using assms(1-3) unfolding inv_unfold p f by (auto simp: b sorted_map_remove1)
  show "\<not> z_is_thread_ready k' t" "\<not> z_is_thread_queued k' t"
    using assms(3) by (auto simp: z_is_thread_ready_bits thread_state_bits b)
qed

text \<open>The part of \<open>halt_thread\<close> up to \<open>update_cache\<close>, and what it does to the other threads.\<close>

definition halted :: "tid \<Rightarrow> 'a kernel_scheme \<Rightarrow> 'a kernel_scheme \<Rightarrow> bool" where
  "halted t ks ks' \<longleftrightarrow>
     current ks' = current ks \<and> idle_thread ks' = idle_thread ks \<and> in_isr ks' = in_isr ks \<and>
     irq_unlocked ks' = irq_unlocked ks \<and>
     (\<forall>u. pended_on (threads ks u) = None \<longrightarrow> pended_on (threads ks' u) = None) \<and>
     (\<forall>d. base_ok d ks \<longrightarrow> base_ok d ks') \<and>
     (\<forall>u. u \<noteq> t \<and> z_is_thread_state_set ks u 128 \<longrightarrow> z_is_thread_state_set ks' u 128) \<and>
     (\<forall>u k. u \<noteq> t \<and> k \<in> {1, 4, 8, 16} \<longrightarrow> z_is_thread_state_set ks' u k = z_is_thread_state_set ks u k) \<and>
     (\<forall>u. is_linked ks' (ThreadTO u) \<longrightarrow> is_linked ks (ThreadTO u))"

lemma halt_dead_returns:
  assumes inv: "sched_inv k" and nr: "z_is_thread_state_set k t 8" and nq: "\<not> z_is_thread_queued k t"
    and k1: "k1 = (if pended_on (threads k t) \<noteq> None then unpend_thread_no_timeout t k else k)"
  shows "\<exists>ks'. unpend_all (JoinQ t) (snd (z_abort_thread_timeout t k1)) = Some ks' \<and> sched_inv ks' \<and>
    halted t k ks' \<and> waitqs ks' (JoinQ t) = [] \<and> pended_on (threads ks' t) = None \<and>
    z_is_thread_state_set ks' t 8 \<and> \<not> is_linked ks' (ThreadTO t)"
proof -
  let ?a = "snd (z_abort_thread_timeout t k1)"
  have f: "current k1 = current k" "idle_thread k1 = idle_thread k" "in_isr k1 = in_isr k"
      "irq_unlocked k1 = irq_unlocked k"
      "\<And>u. pended_on (threads k u) = None \<Longrightarrow> pended_on (threads k1 u) = None"
      "\<And>d. base_ok d k \<Longrightarrow> base_ok d k1"
      "\<And>u j. 2 AND j = 0 \<Longrightarrow> z_is_thread_state_set k1 u j = z_is_thread_state_set k u j"
    by (simp_all add: k1 base_ok_unpend)
  then have k1_8: "z_is_thread_state_set k1 t 8"
    using nr by simp
  have "sched_inv_but {t} k1"
    using unpend_ok [OF inv, of t] sched_inv_mono [OF inv, of "{t}"] by (simp add: k1)
  then have inv1: "sched_inv k1"
    using k1_8 by - (rule sched_inv_drop [of t], simp_all add: z_is_thread_ready_bits)
  have inva: "sched_inv ?a"
    using abort_timeout_ok [OF inv1, of t] k1_8 by - (rule sched_inv_drop [of t], simp_all add: z_is_thread_ready_bits)
  obtain ks' where ks': "unpend_all (JoinQ t) ?a = Some ks'" "sched_inv ks'" "woken (JoinQ t) ?a ks'"
      "waitqs ks' (JoinQ t) = []"
    using unpend_all_returns [OF inva] by blast
  have linked: "is_linked ?a (ThreadTO u) \<longleftrightarrow> is_linked k (ThreadTO u) \<and> u \<noteq> t" for u
    using sched_inv_timeouts [OF inv1] sched_inv_timeouts [OF inv]
    by (simp add: z_abort_thread_timeout_def is_linked_abort k1)
  have "base_ok d ?a" if "base_ok d k" for d
    using f(6) [OF that] by (rule base_ok_abort_thread)
  then have "halted t k ks'"
    using ks'(3) linked f unfolding halted_def woken_def by auto
  moreover have dead: "z_is_thread_state_set ks' t 8"
    using ks'(3) k1_8 by (auto simp: woken_def)
  moreover have "\<not> is_linked ks' (ThreadTO t)"
    using ks'(3) linked by (auto simp: woken_def)
  moreover have "t \<notin> set (waitqs ks' p)" for p
    using ks'(3,4) inva by (cases "p = JoinQ t") (simp_all add: woken_def sched_inv_but_def k1)
  then have "pended_on (threads ks' t) = None"
    using ks'(2) unfolding sched_inv_but_def by (metis not_Some_eq)
  ultimately show ?thesis
    using ks' by blast
qed

lemma halted_trans: "halted t a b \<Longrightarrow> halted t b c \<Longrightarrow> halted t a c"
  unfolding halted_def by simp

lemma halted_mark:
  assumes "m = 8 \<or> m = 16" and "k = set_state_bits t m ks"
    and "k' = (if z_is_thread_queued k t then dequeue_thread t k else k)"
  shows "halted t ks k'"
  using assms(1) by (auto simp: halted_def assms(2,3) intro!: base_ok_set base_ok_queue)

lemma dummy_init_fields [simp]:
  "z_is_thread_state_set (z_dummy_thread_init d ks) u j \<longleftrightarrow>
     (if u = d then j AND 1 \<noteq> 0 else z_is_thread_state_set ks u j)"
  "pended_on (threads (z_dummy_thread_init d ks) u) = pended_on (threads ks u)"
  "prio (threads (z_dummy_thread_init d ks) u) = prio (threads ks u)"
  "no_wake_on_timeout (threads (z_dummy_thread_init d ks) u) = no_wake_on_timeout (threads ks u)"
  "runq (z_dummy_thread_init d ks) = runq ks" "waitqs (z_dummy_thread_init d ks) = waitqs ks"
  "cache (z_dummy_thread_init d ks) = cache ks" "current (z_dummy_thread_init d ks) = d"
  "idle_thread (z_dummy_thread_init d ks) = idle_thread ks"
  "in_isr (z_dummy_thread_init d ks) = in_isr ks" "irq_unlocked (z_dummy_thread_init d ks) = irq_unlocked ks"
  "is_linked (z_dummy_thread_init d ks) = is_linked ks" "timeouts_ok (z_dummy_thread_init d ks) = timeouts_ok ks"
  by (simp_all add: z_dummy_thread_init_def Let_def z_is_thread_state_set_def and.commute)

lemma dummy_init_ok:
  assumes "sched_inv ks" and "base_ok d ks"
  shows "sched_inv (z_dummy_thread_init d ks)" and "base_ok d (z_dummy_thread_init d ks)"
proof -
  let ?k = "z_dummy_thread_init d ks"
  show "base_ok d ?k"
    using assms(2) by (simp add: base_ok_def dummy_ok_def)
  show "sched_inv ?k"
    using assms unfolding inv_unfold base_ok_def dummy_ok_def by (auto split: if_splits)
qed

lemma halt_core:
  assumes inv: "sched_inv_but {t} ks" and t: "t \<noteq> idle_thread ks"
    and m: "m = 8 \<or> m = 16" and new: "thread_state (threads ks t) AND m = 0"
  shows "\<exists>k3. sched_inv k3 \<and> halted t ks k3 \<and> z_is_thread_state_set k3 t m \<and>
    (m = 8 \<longrightarrow> waitqs k3 (JoinQ t) = [] \<and> pended_on (threads k3 t) = None \<and> \<not> is_linked k3 (ThreadTO t)) \<and>
    halt_thread d t m ks = Some (clear_halting t
      (if m = 8 \<and> t = current ks \<and> in_isr ks then z_dummy_thread_init d (update_cache True k3) else update_cache True k3))"
proof -
  define k1 where "k1 = set_state_bits t m ks"
  define k2 where "k2 = (if z_is_thread_queued k1 t then dequeue_thread t k1 else k1)"
  note k2 = halt_mark_ok [OF inv t m k1_def k2_def] halted_mark [OF m k1_def k2_def]
  have bits: "z_is_thread_state_set k2 t m"
    using m by (auto simp: k2_def k1_def)
  have cur: "current k2 = current ks" "in_isr k2 = in_isr ks"
    by (simp_all add: k2_def k1_def)
  show ?thesis
  proof (cases "m = 8")
    case True
    define k where "k = (if pended_on (threads k2 t) \<noteq> None then unpend_thread_no_timeout t k2 else k2)"
    obtain k3 where k3: "unpend_all (JoinQ t) (snd (z_abort_thread_timeout t k)) = Some k3" "sched_inv k3"
        "halted t k2 k3" "waitqs k3 (JoinQ t) = []" "pended_on (threads k3 t) = None"
        "z_is_thread_state_set k3 t 8" "\<not> is_linked k3 (ThreadTO t)"
      using halt_dead_returns [OF k2(1) _ k2(3) k_def] bits True by blast
    have "halt_thread d t m ks = Some (clear_halting t (if t = current ks \<and> in_isr ks
        then z_dummy_thread_init d (update_cache True k3) else update_cache True k3))"
      unfolding halt_thread_def Let_def k1_def [symmetric] k2_def [symmetric] k_def [symmetric]
      using new True cur k3(1) by simp
    with k3 True k2(4) show ?thesis
      by (intro exI [of _ k3]) (auto intro: halted_trans)
  next
    case False
    then have "halt_thread d t m ks = Some (clear_halting t (update_cache True k2))"
      unfolding halt_thread_def Let_def k1_def [symmetric] k2_def [symmetric]
      using new m by auto
    with k2 bits False m show ?thesis
      by (intro exI [of _ k2]) (auto simp: k2_def k1_def)
  qed
qed

lemma halt_thread_returns:
  assumes inv: "sched_inv_but {t} ks" and t: "t \<noteq> idle_thread ks" and d: "base_ok d ks" "t \<noteq> d"
    and m: "m = 8 \<or> m = 16" and new: "thread_state (threads ks t) AND m = 0"
  shows "\<exists>ks'. halt_thread d t m ks = Some ks' \<and> sched_inv ks' \<and> cache ks' = next_up ks' \<and>
    idle_thread ks' = idle_thread ks \<and> in_isr ks' = in_isr ks \<and> irq_unlocked ks' = irq_unlocked ks \<and>
    (\<forall>u. u \<noteq> t \<and> z_is_thread_queued ks u \<longrightarrow> z_is_thread_queued ks' u) \<and>
    (\<forall>u. is_linked ks' (ThreadTO u) \<longrightarrow> is_linked ks (ThreadTO u)) \<and>
    current ks' = (if m = 8 \<and> t = current ks \<and> in_isr ks then d else current ks) \<and>
    base_ok d ks' \<and> z_is_thread_state_set ks' t m \<and>
    (m = 8 \<longrightarrow> waitqs ks' (JoinQ t) = [] \<and> pended_on (threads ks' t) = None \<and> \<not> is_linked ks' (ThreadTO t))"
proof -
  obtain k3 where k3: "sched_inv k3" "halted t ks k3" "z_is_thread_state_set k3 t m"
      "m = 8 \<longrightarrow> waitqs k3 (JoinQ t) = [] \<and> pended_on (threads k3 t) = None \<and> \<not> is_linked k3 (ThreadTO t)"
    and eq: "halt_thread d t m ks = Some (clear_halting t
      (if m = 8 \<and> t = current ks \<and> in_isr ks then z_dummy_thread_init d (update_cache True k3) else update_cache True k3))"
    using halt_core [OF inv t m new] by blast
  define k4 where "k4 = update_cache True k3"
  define k5 where "k5 = (if m = 8 \<and> t = current ks \<and> in_isr ks then z_dummy_thread_init d k4 else k4)"
  have to: "timeouts_ok k3" using k3(1) by (rule sched_inv_timeouts)
  have d3: "base_ok d k3"
    using k3(2) d by (simp add: halted_def)
  then have k4: "sched_inv k4" "base_ok d k4" "cache k4 = next_up k4"
    using k3(1) next_up_same [of k4 k3] to
    by (simp_all add: k4_def sched_inv_update_cache base_ok_cache timeouts_update_cache cache_update_cache)
  have k5: "sched_inv k5" "base_ok d k5"
    using k4 dummy_init_ok [OF k4(1,2)] by (simp_all add: k5_def)
  have f: "runq (clear_halting t k5) = runq k4" "idle_thread (clear_halting t k5) = idle_thread ks"
      "cache (clear_halting t k5) = cache k4" "in_isr (clear_halting t k5) = in_isr ks"
      "irq_unlocked (clear_halting t k5) = irq_unlocked ks" "waitqs (clear_halting t k5) = waitqs k3"
      "\<And>u. pended_on (threads (clear_halting t k5) u) = pended_on (threads k3 u)"
      "\<And>u. is_linked (clear_halting t k5) (ThreadTO u) = is_linked k3 (ThreadTO u)"
      "current (clear_halting t k5) = (if m = 8 \<and> t = current ks \<and> in_isr ks then d else current ks)"
    using k3(2) to by (simp_all add: k5_def k4_def clear_halting_def halted_def timeouts_update_cache)
  then have c: "cache (clear_halting t k5) = next_up (clear_halting t k5)"
    using k4(3) next_up_same [of "clear_halting t k5" k4] k3(2) by (simp add: k4_def halted_def)
  have nq: "\<not> z_is_thread_queued ks d"
    using inv d by (auto simp: inv_unfold base_ok_def dummy_ok_def)
  have q: "z_is_thread_queued (clear_halting t k5) u" if "u \<noteq> t" "z_is_thread_queued ks u" for u
  proof -
    have "u \<noteq> d" using that nq by auto
    then show ?thesis
      using that k3(2) by (simp add: halted_def k5_def k4_def clear_halting_def thread_state_bits)
  qed
  have b: "z_is_thread_state_set (clear_halting t k5) t m" "base_ok d (clear_halting t k5)"
    using k3(3) m d(2) base_ok_clear [OF k5(2), of "32 OR 64" t] by (auto simp: k5_def k4_def clear_halting_def)
  have "halt_thread d t m ks = Some (clear_halting t k5)"
    using eq by (simp add: k5_def k4_def)
  then show ?thesis
    using c q b f clear_halting_ok [OF k5(1), of t] k3(2,4)
    by (intro exI [of _ "clear_halting t k5"]) (auto simp: halted_def)
qed

lemma z_thread_halt_returns:
  assumes ok: "kernel_ok_but {t} ks" and t: "t \<noteq> idle_thread ks" and d: "base_ok d ks" "t \<noteq> d"
    and new: "thread_state (threads ks t) AND (if b then THREAD_DEAD else THREAD_SUSPENDED) = 0"
  shows "\<exists>ks'. z_thread_halt d t b ks = Some ks' \<and> kernel_ok ks' \<and> base_ok d ks' \<and>
    z_is_thread_state_set ks' t (if b then THREAD_DEAD else THREAD_SUSPENDED) \<and>
    (b \<longrightarrow> waitqs ks' (JoinQ t) = [])"
proof -
  define m :: u8 where "m = (if b then 8 else 16)"
  have inv: "sched_inv_but {t} ks" and cur: "curr_ok ks"
    using ok by (simp_all add: kernel_ok_but_def)
  have m: "m = 8 \<or> m = 16" "thread_state (threads ks t) AND m = 0"
    using new by (auto simp: m_def)
  obtain k where k: "halt_thread d t m ks = Some k" "sched_inv k" "cache k = next_up k"
      "in_isr k = in_isr ks" "idle_thread k = idle_thread ks"
      "\<forall>u. u \<noteq> t \<and> z_is_thread_queued ks u \<longrightarrow> z_is_thread_queued k u"
      "\<forall>u. is_linked k (ThreadTO u) \<longrightarrow> is_linked ks (ThreadTO u)"
      "current k = (if m = 8 \<and> t = current ks \<and> in_isr ks then d else current ks)" "base_ok d k"
      "z_is_thread_state_set k t m" "m = 8 \<longrightarrow> waitqs k (JoinQ t) = []"
    using halt_thread_returns [OF inv t d m] by blast
  have eq: "z_thread_halt d t b ks = Some (if t = current k \<and> \<not> in_isr k then z_swap k else k)"
    using k(1) by (simp add: z_thread_halt_def m_def)
  have sw: "z_is_thread_state_set (z_swap k) t m = z_is_thread_state_set k t m" "waitqs (z_swap k) = waitqs k"
    by (simp_all add: z_swap_def do_swap_def z_swap_next_thread_def arch_thread_return_value_set_def Let_def)
  have "\<not> is_linked k (ThreadTO (current k))"
    using k(7,8,9) cur by (auto simp: curr_ok_def base_ok_def dummy_ok_def split: if_splits)
  moreover have "in_isr k \<or> current k = idle_thread k \<or> z_is_thread_queued k (current k)"
    if "\<not> (t = current k \<and> \<not> in_isr k)"
    using that k(4,5,6,8) cur d(2) by (auto simp: curr_ok_def split: if_splits)
  ultimately have "kernel_ok (if t = current k \<and> \<not> in_isr k then z_swap k else k)"
    using k(2,3) z_swap_ok(1) by (auto simp: kernel_ok_but_def cache_best_def curr_ok_def)
  then show ?thesis
    using eq sw k(9-11) base_ok_swap(1) [OF k(9)] by (auto simp: m_def)
qed

lemma k_thread_suspend_returns:
  assumes "kernel_ok ks" and "t \<noteq> idle_thread ks" and "base_ok d ks" and "t \<noteq> d"
  shows "\<exists>ks'. k_thread_suspend d t ks = Some ks' \<and> kernel_ok ks' \<and> base_ok d ks' \<and>
    z_is_thread_state_set ks' t THREAD_SUSPENDED"
proof -
  let ?a = "snd (z_abort_thread_timeout t ks)"
  have a: "kernel_ok_but {t} ?a" "t \<noteq> idle_thread ?a" "base_ok d ?a"
    using kernel_ok_abort [OF assms(1), of t] assms(2,3) sched_inv_timeouts [of "{}" ks] assms(1)
    by (simp_all add: base_ok_abort_thread)
  show ?thesis
  proof (cases "z_is_thread_state_set ks t 16")
    case True
    then have "kernel_ok ?a"
      using a(1) sched_inv_drop [of t "{}" ?a] by (simp add: kernel_ok_but_def z_is_thread_ready_bits)
    with True a(3) show ?thesis
      by (simp add: k_thread_suspend_def Let_def) (simp add: z_is_thread_state_set_def)
  next
    case False
    then have "thread_state (threads ?a t) AND 16 = 0"
      by (simp add: z_is_thread_state_set_def)
    then show ?thesis
      using z_thread_halt_returns [OF a assms(4), of False] by (simp add: k_thread_suspend_def Let_def)
  qed
qed

lemma z_thread_abort_returns:
  assumes "kernel_ok ks" and "t \<noteq> idle_thread ks" and "base_ok d ks" and "t \<noteq> d"
  shows "z_is_thread_essential ks t \<and> z_thread_abort d t ks = Some (Panic ks) \<or>
    (\<exists>ks'. z_thread_abort d t ks = Some (Aborted ks') \<and> kernel_ok ks' \<and> base_ok d ks' \<and> z_is_thread_state_set ks' t THREAD_DEAD)"
proof (cases "z_is_thread_state_set ks t 8 \<or> z_is_thread_essential ks t")
  case True
  then show ?thesis
    using assms(1,3) by (auto simp: z_thread_abort_def z_is_thread_state_set_def)
next
  case False
  then obtain ks' where "z_thread_halt d t True ks = Some ks'" "kernel_ok ks'" "base_ok d ks'" "z_is_thread_state_set ks' t 8"
    using z_thread_halt_returns [OF kernel_ok_mono [OF assms(1) empty_subsetI] assms(2-4), of True]
    by (auto simp: z_is_thread_state_set_def)
  with False show ?thesis
    by (simp add: z_thread_abort_def z_is_thread_state_set_def)
qed

subsection \<open>Priorities and the scheduler lock\<close>

lemma set_prio_fields [simp]:
  "z_is_thread_state_set (set_prio t p ks) = z_is_thread_state_set ks"
  "runq (set_prio t p ks) = runq ks" "waitqs (set_prio t p ks) = waitqs ks" "cache (set_prio t p ks) = cache ks"
  "current (set_prio t p ks) = current ks" "idle_thread (set_prio t p ks) = idle_thread ks"
  "in_isr (set_prio t p ks) = in_isr ks" "irq_unlocked (set_prio t p ks) = irq_unlocked ks"
  "is_linked (set_prio t p ks) = is_linked ks" "timeouts_ok (set_prio t p ks) = timeouts_ok ks"
  "prio (threads (set_prio t p ks) u) = (if u = t then to_int8 p else prio (threads ks u))"
  "pended_on (threads (set_prio t p ks) u) = pended_on (threads ks u)"
  "sched_locked (threads (set_prio t p ks) u) = sched_locked (threads ks u)"
  by (simp_all add: set_prio_def z_is_thread_state_set_def fun_eq_iff)

lemma set_prio_inv:
  assumes "sched_inv_but X ks" and "\<not> z_is_thread_queued ks t"
  shows "sched_inv_but X (set_prio t p ks)"
proof -
  have "map (\<lambda>u. prio (threads (set_prio t p ks) u)) (runq ks) = map (\<lambda>u. prio (threads ks u)) (runq ks)"
    using assms by (auto simp: sched_inv_but_def)
  then show ?thesis
    using assms unfolding inv_unfold by (auto simp del: map_eq_conv)
qed

lemma z_thread_prio_set_ok [inv_intros]:
  assumes "kernel_ok ks" and "t \<noteq> idle_thread ks" and "\<not> in_isr ks"
  shows "kernel_ok (snd (z_thread_prio_set t p ks))"
proof (cases "z_is_thread_ready ks t")
  case True
  have inv: "sched_inv ks" and cur: "curr_ok ks"
    using assms(1) by (simp_all add: kernel_ok_but_def)
  let ?k = "queue_thread t (set_prio t p (dequeue_thread t ks))"
  have "sched_inv_but {t} (set_prio t p (dequeue_thread t ks))"
    using sched_inv_dequeue_thread [OF inv, of t] by (intro set_prio_inv) (simp_all add: thread_state_bits)
  then have "sched_inv ?k"
    using sched_inv_queue_thread [of "{t}" "set_prio t p (dequeue_thread t ks)" t] True assms(2)
    by (simp add: z_is_thread_ready_bits thread_state_bits)
  moreover have "curr_ok (update_cache True ?k)"
    using cur sched_inv_timeouts [OF inv] by (auto simp: curr_ok_def timeouts_update_cache thread_state_bits)
  ultimately show ?thesis
    using True by (simp add: z_thread_prio_set_def Let_def kernel_ok_but_def sched_inv_update_cache)
next
  case False
  have inv: "sched_inv ks"
    using assms(1) by (simp add: kernel_ok_but_def)
  have nq: "\<not> z_is_thread_queued ks t"
    using False inv by (auto simp: sched_inv_but_def)
  have "t \<noteq> current ks"
    using False inv assms by (auto simp: kernel_ok_but_def curr_ok_def sched_inv_but_def)
  then have "same_choice ks (set_prio t p ks)"
    by (simp add: same_choice_def)
  then show ?thesis
    using False kernel_ok_choice [OF assms(1)] set_prio_inv [OF inv nq] by (simp add: z_thread_prio_set_def Let_def)
qed

lemma k_thread_priority_set_ok [inv_intros]:
  assumes "kernel_ok ks" and "t \<noteq> idle_thread ks" and "\<not> in_isr ks"
  shows "kernel_ok (k_thread_priority_set t p ks)"
  using z_thread_prio_set_ok [OF assms, of p]
  by (cases "z_thread_prio_set t p ks")
    (simp add: k_thread_priority_set_def z_reschedule_unlocked_eq z_reschedule_ok)

lemma sched_locked_inv:
  "sched_inv_but X ks \<Longrightarrow> sched_inv_but X (upd_thread t (\<lambda>th. th\<lparr>sched_locked := f th\<rparr>) ks)"
  by (intro upd_thread_same_inv) simp_all

lemma k_sched_unlock_ok [inv_intros]:
  assumes "kernel_ok ks"
  shows "kernel_ok (k_sched_unlock ks)"
proof -
  let ?k = "upd_thread (current ks) (\<lambda>th. th\<lparr>sched_locked := sched_locked th + 1\<rparr>) ks"
  have inv: "sched_inv ks" and cur: "curr_ok ks"
    using assms by (simp_all add: kernel_ok_but_def)
  have "curr_ok (update_cache False ?k)"
    using cur sched_inv_timeouts [OF inv] by (auto simp: curr_ok_def timeouts_update_cache thread_state_bits)
  then have "kernel_ok (update_cache False ?k)"
    using sched_locked_inv [OF inv] by (simp add: kernel_ok_but_def sched_inv_update_cache)
  then show ?thesis
    by (simp add: k_sched_unlock_def Let_def z_reschedule_unlocked_eq z_reschedule_ok)
qed

lemma locked_not_preemptible: "sched_locked (threads ks t) \<noteq> 0 \<Longrightarrow> \<not> thread_is_preemptible ks t"
proof -
  assume "sched_locked (threads ks t) \<noteq> 0"
  then have "0 < unat (sched_locked (threads ks t))"
    by (simp add: unat_gt_0)
  then show ?thesis
    using preempt_unat [of "threads ks t"] by (simp add: thread_is_preemptible_def word_le_nat_alt)
qed

lemma k_sched_lock_ok [inv_intros]:
  assumes "kernel_ok ks" and "sched_locked (threads ks (current ks)) \<noteq> 1"
  shows "kernel_ok (k_sched_lock ks)"
proof -
  have inv: "sched_inv ks" and cur: "curr_ok ks" and cb: "cache_best ks"
    using assms(1) by (simp_all add: kernel_ok_but_def)
  have nl: "sched_locked (threads (k_sched_lock ks) (current ks)) \<noteq> 0"
    using assms(2) by (simp add: k_sched_lock_def)
  have f: "next_up (k_sched_lock ks) = next_up ks" "cache (k_sched_lock ks) = cache ks"
      "current (k_sched_lock ks) = current ks"
    by (auto simp: k_sched_lock_def intro: next_up_same)
  have "z_is_thread_prevented_from_running (k_sched_lock ks) (current ks) =
      z_is_thread_prevented_from_running ks (current ks)"
    by (simp add: thread_state_bits k_sched_lock_def)
  then have "cache_best (k_sched_lock ks)"
    using cb f locked_not_preemptible [OF nl] by (auto simp: cache_best_def)
  moreover have "curr_ok (k_sched_lock ks)"
    using cur by (simp add: curr_ok_def k_sched_lock_def thread_state_bits)
  ultimately show ?thesis
    using sched_locked_inv [OF inv] by (simp add: kernel_ok_but_def k_sched_lock_def)
qed

subsection \<open>Thread creation\<close>

text \<open>A thread object may be initialised when it is in no queue.\<close>

definition unused_thread :: "tid \<Rightarrow> 'a kernel_scheme \<Rightarrow> bool" where
  "unused_thread t ks \<longleftrightarrow> t \<noteq> idle_thread ks \<and> t \<noteq> current ks \<and> \<not> z_is_thread_queued ks t \<and>
     pended_on (threads ks t) = None \<and> waitqs ks (JoinQ t) = [] \<and> \<not> is_linked ks (ThreadTO t)"

lemma setup_fields [simp]:
  "current (z_setup_new_thread t p opts ks) = current ks"
  "idle_thread (z_setup_new_thread t p opts ks) = idle_thread ks"
  "in_isr (z_setup_new_thread t p opts ks) = in_isr ks"
  "is_linked (z_setup_new_thread t p opts ks) = is_linked ks"
  "cache (z_setup_new_thread t p opts ks) = cache ks"
  "runq (z_setup_new_thread t p opts ks) = runq ks"
  "timeouts_ok (z_setup_new_thread t p opts ks) = timeouts_ok ks"
  "waitqs (z_setup_new_thread t p opts ks) = (waitqs ks)(JoinQ t := [])"
  "threads (z_setup_new_thread t p opts ks) = (threads ks)(t := (threads ks t)\<lparr>pended_on := None,
     user_options := opts, thread_state := 4, prio := to_int8 p, sched_locked := 0, no_wake_on_timeout := False\<rparr>)"
  by (simp_all add: z_setup_new_thread_def z_init_thread_base_def z_waitq_init_def Let_def)

lemma z_setup_new_thread_ok [inv_intros]:
  assumes "kernel_ok ks" and "unused_thread t ks"
  shows "kernel_ok (z_setup_new_thread t p opts ks)"
proof -
  let ?k = "z_setup_new_thread t p opts ks"
  have inv: "sched_inv ks"
    using assms(1) by (simp add: kernel_ok_but_def)
  have b: "z_is_thread_state_set ?k u j \<longleftrightarrow> (if u = t then 4 AND j \<noteq> 0 else z_is_thread_state_set ks u j)" for u j
    by (simp add: z_is_thread_state_set_def)
  have pd: "pended_on (threads ?k u) = pended_on (threads ks u)" for u
    using assms(2) by (simp add: unused_thread_def)
  have wq: "waitqs ?k = waitqs ks"
    using assms(2) by (auto simp: unused_thread_def)
  have "t \<notin> set (runq ks)"
    using inv assms(2) by (simp add: sched_inv_but_def unused_thread_def)
  then have "map (\<lambda>u. prio (threads ?k u)) (runq ks) = map (\<lambda>u. prio (threads ks u)) (runq ks)"
    by auto
  then have "sched_inv ?k"
    using inv assms(2) unfolding inv_unfold unused_thread_def b pd wq
    by (simp del: map_eq_conv setup_fields(9)) auto
  moreover have "same_choice ks ?k"
    using assms(2) by (simp add: same_choice_def unused_thread_def b)
  ultimately show ?thesis
    using kernel_ok_choice [OF assms(1)] by blast
qed

lemma k_thread_create_ok [inv_intros]:
  assumes "kernel_ok ks" and "unused_thread t ks"
  shows "kernel_ok (k_thread_create t p opts w ks)"
proof -
  let ?k = "z_setup_new_thread t p opts ks"
  have k: "kernel_ok ?k" "t \<noteq> idle_thread ?k" "\<not> is_linked ?k (ThreadTO t)" "t \<noteq> current ?k"
    using z_setup_new_thread_ok [OF assms] assms(2) by (simp_all add: unused_thread_def)
  have nq: "\<not> z_is_thread_queued ?k t"
    by (simp add: thread_state_bits z_is_thread_state_set_def)
  have "sched_inv (z_add_timeout (ThreadTO t) w ?k)"
    using k nq by (intro add_timeout_ok) (simp_all add: kernel_ok_but_def)
  moreover have "same_choice ?k (z_add_timeout (ThreadTO t) w ?k)"
    using k(4) state_set_threads [of "z_add_timeout (ThreadTO t) w ?k" ?k]
    by (simp add: same_choice_def is_linked_add)
  ultimately have "kernel_ok (z_add_timeout (ThreadTO t) w ?k)"
    using kernel_ok_choice [OF k(1)] by blast
  with k show ?thesis
    by (simp add: k_thread_create_def thread_schedule_new_def k_thread_start_def Let_def z_sched_start_ok)
qed

subsection \<open>Interrupts\<close>

lemma z_get_next_switch_handle_ok:
  assumes "kernel_ok ks"
  shows "kernel_ok ((snd (z_get_next_switch_handle ks))\<lparr>in_isr := False\<rparr>)" (is "kernel_ok ?k")
proof -
  have inv: "sched_inv ks" and cb: "cache_best ks" and cur: "curr_ok ks"
    using assms by (simp_all add: kernel_ok_but_def)
  have run: "z_is_thread_ready ks (cache ks) \<and> (cache ks = idle_thread ks \<or> z_is_thread_queued ks (cache ks))"
    using cb next_up_runnable [OF inv] cur inv
    by (auto simp: cache_best_def curr_ok_def sched_inv_but_def z_is_thread_ready_def z_is_thread_timeout_active_def)
  have k: "?k = ks\<lparr>current := cache ks, in_isr := False\<rparr>"
    by (simp add: z_get_next_switch_handle_def Let_def)
  have "sched_inv ?k"
    using inv by (rule sched_inv_same) (use sched_inv_timeouts [OF inv] in \<open>simp_all add: k\<close>)
  moreover have "next_up ?k = next_up ks"
    by (rule next_up_same) (simp_all add: k)
  then have "cache_best ?k"
    using cb by (auto simp: cache_best_def k thread_state_bits thread_is_preemptible_def)
  moreover have "curr_ok ?k"
    using run by (simp add: curr_ok_def k thread_state_bits z_is_thread_ready_bits)
  ultimately show ?thesis
    by (simp add: kernel_ok_but_def)
qed

end
