(* ===== verification/Sched_Clock.thy ===== *)
theory Sched_Clock
  imports Sched_Safe
begin

text \<open>
  The tick interrupt: the expiry functions the scheduler arms (\<open>z_thread_timeout\<close> for threads and
  \<open>slice_timeout\<close> for the running time slice) satisfy the contracts of \<^verbatim>\<open>Timeout\<close>, so that
  announcing ticks returns, wakes exactly the threads whose timeouts are due and keeps \<open>kernel_ok\<close>.
  The transitions of the kernel are collected as an inductive step relation.
\<close>

subsection \<open>The expiry functions\<close>

text \<open>The timeouts the scheduler arms itself; \<open>Timer\<close> extends the function to kernel timers, and no work is submitted.\<close>

definition kernel_expiry :: "toid \<Rightarrow> 'a kernel_scheme \<Rightarrow> 'a kernel_scheme" where
  "kernel_expiry to ks =
     (case to of ThreadTO t \<Rightarrow> z_thread_timeout t ks | SliceTO \<Rightarrow> slice_timeout ks | _ \<Rightarrow> ks)"

lemma filter_insert_after_drop: "\<not> P x \<Longrightarrow> filter P (insert_after f x ys) = filter P ys"
  by (induction ys) auto

lemma expiries_add:
  assumes "timeouts_ok ks" and "w \<noteq> K_FOREVER"
  shows "expiries (z_add_timeout to w ks) =
    insert_after snd (to, curr_tick ks + timeout_dticks w ks) (expiries ks)"
  using assms timeout_dticks_pos [of ks w] by (simp add: timeouts_ok_def deadlines_insert)

lemma expiries_abort:
  "timeouts_ok ks \<Longrightarrow> expiries (snd (z_abort_timeout to ks)) = filter (\<lambda>x. fst x \<noteq> to) (expiries ks)"
  by (simp add: timeouts_ok_def wf_timeouts_def timeout_list_abort deadlines_remove case_prod_unfold)

text \<open>Operations that touch only the slice timeout.\<close>

definition slice_only :: "'a kernel_scheme \<Rightarrow> 'a kernel_scheme \<Rightarrow> bool" where
  "slice_only ks ks' \<longleftrightarrow>
     (timeouts_ok ks \<longrightarrow> timeouts_ok ks') \<and> curr_tick ks' = curr_tick ks \<and>
     announce_remaining ks' = announce_remaining ks \<and>
     (timeouts_ok ks \<longrightarrow>
       filter (\<lambda>x. fst x \<noteq> SliceTO) (expiries ks') = filter (\<lambda>x. fst x \<noteq> SliceTO) (expiries ks) \<and>
       (\<forall>x \<in> set (expiries ks'). x \<in> set (expiries ks) \<or> curr_tick ks < snd x))"

lemma slice_only_refl: "slice_only ks ks"
  by (simp add: slice_only_def)

lemma slice_only_trans:
  assumes "slice_only a b" and "slice_only b c"
  shows "slice_only a c"
  using assms unfolding slice_only_def by (elim conjE) (intro conjI impI ballI; force)

lemma slice_only_same:
  "timeout_list ks' = timeout_list ks \<Longrightarrow> curr_tick ks' = curr_tick ks \<Longrightarrow>
   announce_remaining ks' = announce_remaining ks \<Longrightarrow> hw_elapsed ks' = hw_elapsed ks \<Longrightarrow> slice_only ks ks'"
  by (simp add: slice_only_def timeouts_ok_def)

lemma slice_only_abort: "slice_only ks (snd (z_abort_timeout SliceTO ks))"
  by (simp add: slice_only_def timeouts_ok_abort expiries_abort [simplified])

lemma slice_only_add:
  assumes "\<not> is_linked ks SliceTO"
  shows "slice_only ks (z_add_timeout SliceTO w ks)"
proof (cases "w = K_FOREVER")
  case False
  then show ?thesis
    using assms expiries_add [of ks w SliceTO] timeout_dticks_pos [of ks w]
    by (auto simp: slice_only_def timeouts_ok_add filter_insert_after_drop) (simp_all add: timeouts_ok_def)
qed (simp add: slice_only_refl)

lemma slice_only_reset:
  assumes "timeouts_ok ks"
  shows "slice_only ks (z_reset_time_slice t ks)"
proof -
  let ?a = "(snd (z_abort_timeout SliceTO ks))\<lparr>slice_expired := False\<rparr>"
  have "slice_only ks ?a"
    by (rule slice_only_trans [OF slice_only_abort slice_only_same]) simp_all
  moreover have "slice_only ?a (z_add_timeout SliceTO w ?a)" for w
    using assms by (intro slice_only_add) (simp add: is_linked_abort)
  ultimately show ?thesis
    unfolding z_reset_time_slice_def Let_def by (auto intro: slice_only_trans)
qed

lemma slice_only_update_cache: "timeouts_ok ks \<Longrightarrow> slice_only ks (update_cache b ks)"
  unfolding update_cache_def Let_def
  by (auto intro: slice_only_same slice_only_trans [OF slice_only_reset slice_only_same])

lemma slice_only_ready_thread:
  assumes "timeouts_ok ks"
  shows "slice_only ks (ready_thread t ks)"
proof -
  have "slice_only ks (queue_thread t ks)"
    by (rule slice_only_same) (simp_all add: queue_thread_def runq_add_def set_state_bits_def)
  moreover have "slice_only (queue_thread t ks) (update_cache False (queue_thread t ks))"
    using assms by (intro slice_only_update_cache) simp
  ultimately show ?thesis
    using ready_thread_cases [of t ks] slice_only_trans slice_only_refl by auto
qed

lemma slice_only_thread_timeout:
  assumes "timeouts_ok ks"
  shows "slice_only ks (z_thread_timeout t ks)"
proof -
  define k0 where "k0 = upd_thread t (\<lambda>th. th\<lparr>no_wake_on_timeout := False\<rparr>) ks"
  define k1 where "k1 = (if pended_on (threads k0 t) \<noteq> None then unpend_thread_no_timeout t k0 else k0)"
  define k3 where "k3 = z_mark_thread_as_not_suspended t (z_mark_thread_as_started t k1)"
  have eq: "z_thread_timeout t ks \<in> {k0, ready_thread t k3}"
    unfolding k3_def k1_def k0_def z_thread_timeout_def z_sched_wake_thread_def Let_def by auto
  have "slice_only ks k0" "slice_only ks k3"
    by (rule slice_only_same; simp add: k0_def k1_def k3_def unpend_thread_no_timeout_def waitq_remove_def
        thread_mark_defs clear_state_bits_def Let_def)+
  moreover have "slice_only k3 (ready_thread t k3)"
    using assms by (intro slice_only_ready_thread)
      (simp add: k3_def k1_def k0_def thread_mark_defs)
  ultimately show ?thesis
    using eq slice_only_trans by auto
qed

lemma slice_only_expiry: "timeouts_ok ks \<Longrightarrow> slice_only ks (kernel_expiry to ks)"
  by (auto simp: kernel_expiry_def slice_timeout_def slice_only_thread_timeout
      intro: slice_only_refl slice_only_same split: toid.split)

interpretation kexp: quiet_handler kernel_expiry "\<lambda>to. to \<noteq> SliceTO"
  by unfold_locales (use slice_only_expiry in \<open>auto simp: slice_only_def\<close>)

subsection \<open>Announcing ticks keeps the kernel in order\<close>

lemma thread_timeout_ok:
  assumes ok: "kernel_ok_but {t} ks" and base: "base_ok d ks" and t: "t \<noteq> idle_thread ks"
  shows "kernel_ok (z_thread_timeout t ks)" and "base_ok d (z_thread_timeout t ks)"
proof -
  define k0 where "k0 = upd_thread t (\<lambda>th. th\<lparr>no_wake_on_timeout := False\<rparr>) ks"
  define k1 where "k1 = (if pended_on (threads k0 t) \<noteq> None then unpend_thread_no_timeout t k0 else k0)"
  define k2 where "k2 = z_mark_thread_as_started t k1"
  define k3 where "k3 = z_mark_thread_as_not_suspended t k2"
  have k0: "kernel_ok_but {t} k0" "base_ok d k0"
    unfolding k0_def using ok base by (auto intro!: kernel_ok_upd base_ok_upd simp: base_ok_def dummy_ok_def)
  then have "kernel_ok_but {t} k1" "base_ok d k1"
    using kernel_ok_unpend [of "{t}" k0 t] base_ok_unpend [of d k0 t] by (simp_all add: k1_def)
  then have "kernel_ok_but {t} k2" "base_ok d k2"
    using kernel_ok_marks(2) [of "{t}" k1 t] by (simp_all add: k2_def base_ok_marks)
  then have k3: "kernel_ok_but {t} k3" "base_ok d k3"
    using kernel_ok_marks(1) [of "{t}" k2 t] by (simp_all add: k3_def base_ok_marks)
  have "idle_thread k3 = idle_thread ks"
    by (simp add: k3_def k2_def k1_def k0_def)
  then have r: "kernel_ok (ready_thread t k3)"
    using k3(1) t by (simp add: ready_thread_done)
  have "z_thread_timeout t ks = (if z_is_thread_state_set ks t 8 then k0 else ready_thread t k3)"
  proof -
    have "\<not> no_wake_on_timeout (threads ks t)" "thread_state (threads ks t) AND 32 = 0"
      using base by (simp_all add: base_ok_def z_is_thread_state_set_def)
    then have "thread_state (threads ks t) AND (8 OR 32) \<noteq> 0 \<longleftrightarrow> z_is_thread_state_set ks t 8"
      "\<not> no_wake_on_timeout (threads ks t)"
      by (simp_all only: z_is_thread_state_set_def bit.conj_disj_distrib or.right_neutral not_False_eq_True)
    then show ?thesis
      unfolding k3_def k2_def k1_def k0_def z_thread_timeout_def z_sched_wake_thread_def Let_def by simp
  qed
  moreover have "kernel_ok k0" if "z_is_thread_state_set ks t 8"
    using k0(1) that sched_inv_drop [of t "{}" k0]
    by (simp add: kernel_ok_but_def z_is_thread_ready_bits) (simp add: k0_def)
  ultimately show "kernel_ok (z_thread_timeout t ks)" "base_ok d (z_thread_timeout t ks)"
    using r k0(2) base_ok_ready [OF k3(2), of t] by simp_all
qed

lemma expire_first_kernel_ok:
  assumes ok: "kernel_ok ks" and l: "timeout_list ks = (to, w) # r"
  shows "kernel_ok_but {t. to = ThreadTO t} (expire_first to w ks)"
proof -
  let ?e = "expire_first to w ks"
  have inv: "sched_inv ks"
    using ok by (simp add: kernel_ok_but_def)
  note e = expire_first [OF sched_inv_timeouts [OF inv] l]
  have l': "timeout_list ?e = r"
  proof -
    have "remove_timeout to ((to, 0) # r) = r" by (cases r) auto
    then show ?thesis by (simp add: expire_first_def l)
  qed
  have "wf_timeouts ((to, w) # r)"
    using sched_inv_timeouts [OF inv] l by (simp add: timeouts_ok_def)
  then have lk: "is_linked ?e u \<longleftrightarrow> is_linked ks u \<and> u \<noteq> to" for u
    unfolding is_linked_def l' l by auto
  have f: "threads ?e = threads ks" "runq ?e = runq ks" "idle_thread ?e = idle_thread ks" "waitqs ?e = waitqs ks"
    "cache ?e = cache ks" "current ?e = current ks" "in_isr ?e = in_isr ks"
    by (simp_all add: expire_first_def)
  note st = state_set_threads [OF f(1)]
  have "sched_inv_but {t. to = ThreadTO t} ?e"
    using inv e(1) unfolding inv_unfold f st lk by auto
  moreover have "same_choice ks ?e"
    by (simp add: same_choice_def f st lk)
  ultimately show ?thesis
    using kernel_ok_choice [OF ok] by blast
qed

lemma kernel_ok_same:
  fixes ks ks' :: "'a kernel_scheme"
  assumes "kernel_ok_but X ks" and "threads ks' = threads ks" and "runq ks' = runq ks"
    and "idle_thread ks' = idle_thread ks" and "waitqs ks' = waitqs ks" and "cache ks' = cache ks"
    and "current ks' = current ks" and "in_isr ks' = in_isr ks"
    and "\<And>t. is_linked ks' (ThreadTO t) = is_linked ks (ThreadTO t)" and "timeouts_ok ks'"
  shows "kernel_ok_but X ks'"
proof (rule kernel_ok_choice [OF assms(1)])
  show "same_choice ks ks'"
    using assms state_set_threads [OF assms(2)] by (simp add: same_choice_def)
  show "sched_inv_but X ks'"
    using assms by (intro sched_inv_same [of X ks ks']) (simp_all add: kernel_ok_but_def)
qed

lemma base_ok_time_slice [inv_intros]: "base_ok d ks \<Longrightarrow> base_ok d (z_time_slice ks)"
  unfolding z_time_slice_def move_thread_to_end_of_prio_q_def Let_def by (auto intro!: inv_intros)

lemma announce_finish_same:
  "threads (announce_finish ks) = threads ks" "runq (announce_finish ks) = runq ks"
  "idle_thread (announce_finish ks) = idle_thread ks" "waitqs (announce_finish ks) = waitqs ks"
  "cache (announce_finish ks) = cache ks" "current (announce_finish ks) = current ks"
  "in_isr (announce_finish ks) = in_isr ks" "is_linked (announce_finish ks) u = is_linked ks u"
  by (auto simp: announce_finish_def sys_clock_set_timeout_def is_linked_def Let_def split: list.split)

lemma expiry_step_ok:
  assumes "timeouts_ok ks" and l: "timeout_list ks = (to, w) # r" and I: "kernel_ok ks \<and> base_ok d ks"
    and k: "k = kernel_expiry to (expire_first to w ks)"
  shows "kernel_ok (k\<lparr>announce_remaining := a\<rparr>) \<and> base_ok d (k\<lparr>announce_remaining := a\<rparr>)"
proof -
  let ?e = "expire_first to w ks"
  have e: "kernel_ok_but {t. to = ThreadTO t} ?e"
    using expire_first_kernel_ok [OF _ l] I by blast
  have b: "base_ok d ?e"
  proof (rule base_ok_same)
    show "base_ok d ks" using I by simp
    show "threads ?e = threads ks" by (simp add: expire_first_def)
    show "is_linked ks (ThreadTO d)" if "is_linked ?e (ThreadTO d)"
      using that is_linked_abort_mono [of to "ks\<lparr>timeout_list := (to, 0) # r\<rparr>" "ThreadTO d"] l
      by (auto simp: expire_first_def is_linked_def timeout_list_abort)
  qed
  have "kernel_ok k \<and> base_ok d k"
  proof (cases to)
    case (ThreadTO t)
    have "is_linked ks (ThreadTO t)"
      using l ThreadTO by (simp add: is_linked_def)
    then have "t \<noteq> idle_thread ks"
      using I by (auto simp: kernel_ok_but_def inv_unfold)
    then show ?thesis
      using thread_timeout_ok [of t ?e d] e b ThreadTO by (simp add: k kernel_expiry_def expire_first_def)
  next
    case SliceTO
    have "kernel_ok ?e"
      using e SliceTO by simp
    then have "kernel_ok k"
      by (rule kernel_ok_same)
        (use SliceTO expire_first(1) [OF assms(1) l] in \<open>simp_all add: k kernel_expiry_def slice_timeout_def\<close>)
    moreover have "base_ok d k"
      using b by (rule base_ok_same) (simp_all add: k kernel_expiry_def slice_timeout_def SliceTO)
    ultimately show ?thesis ..
  qed (use e b in \<open>simp_all add: k kernel_expiry_def\<close>)
  then have ok: "kernel_ok k" and base: "base_ok d k" by simp_all
  have to: "timeouts_ok k"
    using ok by (auto simp: kernel_ok_but_def intro: sched_inv_timeouts)
  have "is_linked (k\<lparr>announce_remaining := a\<rparr>) = is_linked k"
    by (rule is_linked_list) simp
  moreover from this ok to have "kernel_ok (k\<lparr>announce_remaining := a\<rparr>)"
    by (intro kernel_ok_same [OF ok]) (simp_all add: timeouts_ok_def)
  ultimately show ?thesis
    using base_ok_same [OF base, of "k\<lparr>announce_remaining := a\<rparr>"] by simp
qed

lemma sys_clock_announce_ok:
  assumes ok: "kernel_ok ks" and base: "base_ok d ks" and "0 \<le> ticks"
  shows "\<exists>ks' log. sys_clock_announce kernel_expiry z_time_slice ticks ks = Some (ks', log) \<and>
    kernel_ok ks' \<and> base_ok d ks'"
proof -
  let ?ks = "ks\<lparr>announce_remaining := ticks\<rparr>"
  have to: "timeouts_ok ks"
    using ok by (auto simp: kernel_ok_but_def intro: sched_inv_timeouts)
  have lk: "is_linked ?ks = is_linked ks"
    by (rule is_linked_list) simp
  have pre: "timeouts_ok ?ks" "0 \<le> announce_remaining ?ks" "kernel_ok ?ks \<and> base_ok d ?ks"
    using to assms lk kernel_ok_same [OF ok, of ?ks] base_ok_same [OF base, of ?ks]
    by (simp_all add: timeouts_ok_def)
  have "\<exists>ks' log'. announce_loop kernel_expiry ?ks [] = Some (ks', log') \<and> kernel_ok ks' \<and> base_ok d ks'"
    by (rule kexp.announce_loop_invariant [where I = "\<lambda>ks. kernel_ok ks \<and> base_ok d ks", OF pre])
      (rule expiry_step_ok [OF _ _ _ refl]; assumption)
  then obtain k log where loop: "announce_loop kernel_expiry ?ks [] = Some (k, log)" and I: "kernel_ok k \<and> base_ok d k"
    by blast
  have k: "timeouts_ok k" "\<forall>x \<in> set (expiries k). curr_tick k + announce_remaining k < snd x"
    using kexp.announce_loop_returns [OF pre(1,2), of "[]"] unfolding loop by simp_all
  have "kernel_ok (announce_finish k)"
    using I announce_finish(4) [OF k] by (rule_tac kernel_ok_same [of "{}" k]) (simp_all add: announce_finish_same)
  moreover have "base_ok d (announce_finish k)"
    using I by (rule_tac base_ok_same [of d k]) (simp_all add: announce_finish_same)
  ultimately show ?thesis
    by (simp add: sys_clock_announce_def loop z_time_slice_ok base_ok_time_slice)
qed

subsection \<open>Properties\<close>

text \<open>C5: Announcing ticks returns, advances the clock by exactly that many ticks, and expires exactly the
  timeouts that are due by then (the slice timer apart, which the scheduler re-arms), each once and in
  the order of their deadlines; every other timeout keeps its deadline.\<close>

theorem announce_expires_exactly_due:
  assumes "timeouts_ok ks" and "0 \<le> ticks"
  shows "\<exists>ks' fired. sys_clock_announce kernel_expiry z_time_slice ticks ks = Some (z_time_slice ks', fired) \<and>
    filter (\<lambda>x. fst x \<noteq> SliceTO) fired =
      filter (\<lambda>x. fst x \<noteq> SliceTO \<and> snd x \<le> curr_tick ks + ticks) (expiries ks) \<and>
    timeouts_ok ks' \<and> curr_tick ks' = curr_tick ks + ticks \<and> announce_remaining ks' = 0 \<and>
    filter (\<lambda>x. fst x \<noteq> SliceTO) (expiries ks') =
      filter (\<lambda>x. fst x \<noteq> SliceTO \<and> curr_tick ks + ticks < snd x) (expiries ks)"
  using assms by (rule kexp.sys_clock_announce_exact)

theorem announce_expires_exactly_due_witness:
  "\<exists>ks' fired. sys_clock_announce kernel_expiry z_time_slice 7
       (z_add_timeout (ThreadTO 5) 3 (z_add_timeout (ThreadTO 6) 9 (bss_kernel 0 0))) = Some (z_time_slice ks', fired) \<and>
     filter (\<lambda>x. fst x \<noteq> SliceTO) fired = [(ThreadTO 5, 4)] \<and> curr_tick ks' = 7 \<and>
     filter (\<lambda>x. fst x \<noteq> SliceTO) (expiries ks') = [(ThreadTO 6, 10)]"
proof -
  let ?ks = "z_add_timeout (ThreadTO 5) 3 (z_add_timeout (ThreadTO 6) 9 (bss_kernel 0 0))"
  have "timeout_list ?ks = [(ThreadTO 5, 4), (ThreadTO 6, 6)]" "curr_tick ?ks = 0" "hw_elapsed ?ks = 0"
    by (simp_all add: bss_kernel_def timeout_dticks_def Z_TICK_ABS_def elapsed_def)
  then show ?thesis
    using announce_expires_exactly_due [of ?ks 7] by (simp add: timeouts_ok_def) blast
qed

end
