(* ===== verification/Kernel_Init.thy ===== *)
theory Kernel_Init
  imports Sched_Clock
begin

text \<open>
  Start of the kernel (\<^verbatim>\<open>kernel/init.c\<close>): from the zeroed \<^verbatim>\<open>_kernel\<close> structure, \<^verbatim>\<open>z_cstart\<close> installs the
  dummy thread, sets up the main and the idle thread and switches to the main thread.  The scheduler
  invariant is established at that point.
\<close>

subsection \<open>The operations\<close>

definition init_ready_q :: "'a kernel_scheme \<Rightarrow> 'a kernel_scheme" where
  "init_ready_q ks = ks\<lparr>runq := []\<rparr>"

definition z_sched_init :: "'a kernel_scheme \<Rightarrow> 'a kernel_scheme" where
  "z_sched_init ks = init_ready_q ks"

definition init_idle_thread :: "int \<Rightarrow> tid \<Rightarrow> 'a kernel_scheme \<Rightarrow> 'a kernel_scheme" where
  "init_idle_thread idle_prio idle ks =
     z_mark_thread_as_started idle (z_setup_new_thread idle idle_prio K_ESSENTIAL ks)"

definition z_init_cpu :: "int \<Rightarrow> tid \<Rightarrow> 'a kernel_scheme \<Rightarrow> 'a kernel_scheme" where
  "z_init_cpu idle_prio idle ks = (init_idle_thread idle_prio idle ks)\<lparr>idle_thread := idle\<rparr>"

definition prepare_multithreading :: "int \<Rightarrow> int \<Rightarrow> tid \<Rightarrow> tid \<Rightarrow> 'a kernel_scheme \<Rightarrow> 'a kernel_scheme" where
  "prepare_multithreading main_prio idle_prio main idle ks =
     (let ks = z_sched_init ks;
          ks = ks\<lparr>cache := main\<rparr>;
          ks = z_setup_new_thread main main_prio K_ESSENTIAL ks;
          ks = z_mark_thread_as_started main ks;
          ks = z_ready_thread main ks
      in z_init_cpu idle_prio idle ks)"

definition z_swap_unlocked :: "'a kernel_scheme \<Rightarrow> 'a kernel_scheme" where
  "z_swap_unlocked ks = do_swap ks"

definition switch_to_main_thread :: "'a kernel_scheme \<Rightarrow> 'a kernel_scheme" where
  "switch_to_main_thread ks = z_swap_unlocked ks"

text \<open>The part of \<^verbatim>\<open>z_cstart\<close> that concerns threads; the init levels are in \<open>Device\<close>.\<close>

definition z_cstart :: "int \<Rightarrow> int \<Rightarrow> tid \<Rightarrow> tid \<Rightarrow> tid \<Rightarrow> 'a kernel_scheme \<Rightarrow> 'a kernel_scheme" where
  "z_cstart main_prio idle_prio dummy main idle ks =
     (let ks = z_dummy_thread_init dummy ks
      in switch_to_main_thread (prepare_multithreading main_prio idle_prio main idle ks))"

text \<open>\<^verbatim>\<open>z_init_static_threads\<close>: the static threads with their priority, options and start delay.\<close>

record static_thread_data =
  init_thread :: tid
  init_prio :: int
  init_options :: u8
  init_delay :: k_timeout

definition z_init_static_threads :: "static_thread_data list \<Rightarrow> 'a kernel_scheme \<Rightarrow> 'a kernel_scheme" where
  "z_init_static_threads sts ks =
     (let ks = fold (\<lambda>st. z_setup_new_thread (init_thread st) (init_prio st) (init_options st)) sts ks;
          ks = k_sched_lock ks;
          ks = fold (\<lambda>st ks. if init_delay st \<noteq> K_FOREVER
                             then thread_schedule_new (init_thread st) (init_delay st) ks else ks) sts ks
      in k_sched_unlock ks)"

subsection \<open>The state the main thread starts in\<close>

definition boot :: "int \<Rightarrow> int \<Rightarrow> int \<Rightarrow> int \<Rightarrow> tid \<Rightarrow> tid \<Rightarrow> tid \<Rightarrow> kernel" where
  "boot ticks p main_prio idle_prio dummy main idle =
     z_cstart main_prio idle_prio dummy main idle (bss_kernel ticks p)"

lemma idle_thread_field [simp]:
  "is_linked (ks\<lparr>idle_thread := c\<rparr>) = is_linked ks" "timeouts_ok (ks\<lparr>idle_thread := c\<rparr>) = timeouts_ok ks"
  by (rule is_linked_list timeouts_ok_list; simp)+

lemma boot_before_swap:
  fixes ticks p mp ip :: int
  assumes d: "distinct [dummy, main, idle]"
  defines "k \<equiv> prepare_multithreading mp ip main idle (z_dummy_thread_init dummy (bss_kernel ticks p))"
  shows "runq k = [main]" and "cache k = main" and "idle_thread k = idle" and "waitqs k = (\<lambda>_. [])"
    and "\<not> is_linked k (ThreadTO t)" and "timeouts_ok k"
    and "pended_on (threads k t) = None" and "\<not> no_wake_on_timeout (threads k t)"
    and "prio (threads k main) = to_int8 mp" and "sched_locked (threads k main) = 0"
    and "in_isr k = False" and "z_is_thread_state_set k t b \<longleftrightarrow>
      (if t = main then 128 AND b \<noteq> 0 else if t = idle then False else if t = dummy then 1 AND b \<noteq> 0 else 4 AND b \<noteq> 0)"
proof -
  define k1 where "k1 = z_mark_thread_as_started main (z_setup_new_thread main mp K_ESSENTIAL
    ((z_sched_init (z_dummy_thread_init dummy (bss_kernel ticks p)))\<lparr>cache := main\<rparr>))"
  have k1: "threads k1 = (\<lambda>_. blank_thread)(dummy := blank_thread\<lparr>thread_state := 1, user_options := 1\<rparr>,
      main := blank_thread\<lparr>prio := to_int8 mp, thread_state := 0, user_options := 1\<rparr>)"
    "runq k1 = []" "timeout_list k1 = []" "waitqs k1 = (\<lambda>_. [])" "current k1 = dummy" "hw_elapsed k1 = 0"
    "in_isr k1 = False"
    using d by (simp_all add: k1_def z_sched_init_def init_ready_q_def z_dummy_thread_init_def bss_kernel_def upd_thread_def
        thread_mark_defs clear_state_bits_def z_setup_new_thread_def z_init_thread_base_def z_waitq_init_def blank_thread_def Let_def fun_eq_iff)
  have tok: "timeouts_ok k1" and nl: "\<And>u. \<not> is_linked k1 u"
    using k1 by (simp_all add: timeouts_ok_def is_linked_def)
  define k2 where "k2 = update_cache False (queue_thread main k1)"
  have "z_ready_thread main k1 = k2"
    using d nl by (simp add: z_ready_thread_def ready_thread_def k2_def z_is_thread_queued_def z_is_thread_ready_bits
        z_is_thread_state_set_def z_is_thread_timeout_active_def k1)
  then have k: "k = z_init_cpu ip idle k2"
    by (simp add: k_def k1_def prepare_multithreading_def)
  have k2': "timeouts_ok k2" "\<And>t. \<not> is_linked k2 (ThreadTO t)"
    using tok nl by (simp_all add: k2_def timeouts_update_cache)
  have k2: "runq k2 = [main]" "waitqs k2 = (\<lambda>_. [])" "cache k2 = main" "in_isr k2 = False"
    "threads k2 = (threads k1)(main := (threads k1 main)\<lparr>thread_state := 128\<rparr>)"
    using d
    by (simp_all add: k2_def k1 cache_update_cache next_up_def runq_best_def z_priq_dumb_best_eq
        thread_state_bits z_is_thread_state_set_def queue_thread_def runq_add_def set_state_bits_def upd_thread_def)
  show "runq k = [main]" "cache k = main" "idle_thread k = idle" "waitqs k = (\<lambda>_. [])"
    "\<not> is_linked k (ThreadTO t)" "timeouts_ok k" "in_isr k = False"
    using k2 k2' by (simp_all add: k z_init_cpu_def init_idle_thread_def thread_mark_defs fun_eq_iff)
  show "pended_on (threads k t) = None" "\<not> no_wake_on_timeout (threads k t)"
    "prio (threads k main) = to_int8 mp" "sched_locked (threads k main) = 0"
    "z_is_thread_state_set k t b \<longleftrightarrow>
      (if t = main then 128 AND b \<noteq> 0 else if t = idle then False else if t = dummy then 1 AND b \<noteq> 0 else 4 AND b \<noteq> 0)"
    using d by (simp_all add: k z_init_cpu_def init_idle_thread_def thread_mark_defs k2(5) k1(1) clear_state_bits_def
        upd_thread_def z_is_thread_state_set_def blank_thread_def)
qed

lemma boot_ok:
  assumes d: "distinct [dummy, main, idle]"
  shows "kernel_ok (boot ticks p mp ip dummy main idle)" and "base_ok dummy (boot ticks p mp ip dummy main idle)"
    and "current (boot ticks p mp ip dummy main idle) = main"
    and "idle_thread (boot ticks p mp ip dummy main idle) = idle"
    and "in_isr (boot ticks p mp ip dummy main idle) = False"
    and "prio (threads (boot ticks p mp ip dummy main idle) main) = to_int8 mp"
    and "sched_locked (threads (boot ticks p mp ip dummy main idle) main) = 0"
    and "runq (boot ticks p mp ip dummy main idle) = [main]"
proof -
  let ?k = "prepare_multithreading mp ip main idle (z_dummy_thread_init dummy (bss_kernel ticks p))"
  note k = boot_before_swap [OF d, of mp ip ticks p]
  have inv: "sched_inv ?k"
    using d unfolding inv_unfold by (simp add: k)
  have best: "cache ?k = next_up ?k"
    by (simp add: k next_up_def runq_best_def z_priq_dumb_best_eq)
  have eq: "boot ticks p mp ip dummy main idle = z_swap ?k"
    by (simp add: boot_def z_cstart_def switch_to_main_thread_def z_swap_unlocked_def z_swap_def)
  show "kernel_ok (boot ticks p mp ip dummy main idle)" "current (boot ticks p mp ip dummy main idle) = main"
    using z_swap_ok [OF inv best] best by (simp_all add: eq k)
  show "idle_thread (boot ticks p mp ip dummy main idle) = idle" "in_isr (boot ticks p mp ip dummy main idle) = False"
    "prio (threads (boot ticks p mp ip dummy main idle) main) = to_int8 mp"
    "sched_locked (threads (boot ticks p mp ip dummy main idle) main) = 0"
    "runq (boot ticks p mp ip dummy main idle) = [main]"
    by (simp_all add: eq k z_swap_def do_swap_def z_swap_next_thread_def arch_thread_return_value_set_def upd_thread_def Let_def)
  have "base_ok dummy ?k"
    using d by (simp add: base_ok_def dummy_ok_def k)
  then show "base_ok dummy (boot ticks p mp ip dummy main idle)"
    by (simp add: eq base_ok_swap)
qed

end
