(* ===== verification/Kernel_Steps.thy ===== *)
theory Kernel_Steps
  imports Kernel_Init
begin

text \<open>
  The kernel as a transition system.  A step is one call of a thread or of an interrupt handler, a
  timer interrupt, or the entry to and the exit from an interrupt; the guards are the documented
  conditions of the calls (\<^verbatim>\<open>k_yield\<close>, \<^verbatim>\<open>k_sleep\<close> and everything that blocks only from a thread that is
  not the idle thread, no operation on the idle or the dummy thread, \<^verbatim>\<open>k_thread_create\<close> on a structure
  that is not in use).  Every reachable state satisfies the scheduler invariant.
\<close>

subsection \<open>Steps\<close>

definition user_thread :: "tid \<Rightarrow> tid \<Rightarrow> 'a kernel_scheme \<Rightarrow> bool" where
  "user_thread d t ks \<longleftrightarrow> t \<noteq> d \<and> t \<noteq> idle_thread ks"

definition may_block :: "'a kernel_scheme \<Rightarrow> bool" where
  "may_block ks \<longleftrightarrow> \<not> in_isr ks \<and> current ks \<noteq> idle_thread ks"

text \<open>\<open>Q\<close> are the wait queues of kernel objects the steps may pend on or wake up.\<close>

inductive kstep :: "tid \<Rightarrow> wq set \<Rightarrow> 'a kernel_scheme \<Rightarrow> 'a kernel_scheme \<Rightarrow> bool" for d Q where
  yield: "may_block ks \<Longrightarrow> kstep d Q ks (k_yield ks)"
| sleep: "may_block ks \<Longrightarrow> ticks \<noteq> K_FOREVER \<Longrightarrow> kstep d Q ks (snd (snd (z_tick_sleep ticks ks)))"
| join: "may_block ks \<Longrightarrow> kstep d Q ks (snd (k_thread_join t w ks))"
| pend: "may_block ks \<Longrightarrow> q \<in> Q \<Longrightarrow> kstep d Q ks (z_pend_curr (Some q) w ks)"
| suspend: "user_thread d t ks \<Longrightarrow> k_thread_suspend d t ks = Some ks' \<Longrightarrow> kstep d Q ks ks'"
| resume: "user_thread d t ks \<Longrightarrow> kstep d Q ks (k_thread_resume t ks)"
| wakeup: "user_thread d t ks \<Longrightarrow> kstep d Q ks (k_wakeup t ks)"
| start: "user_thread d t ks \<Longrightarrow> kstep d Q ks (z_sched_start t ks)"
| create: "user_thread d t ks \<Longrightarrow> unused_thread t ks \<Longrightarrow> kstep d Q ks (k_thread_create t p opts w ks)"
| abort: "user_thread d t ks \<Longrightarrow> z_thread_abort d t ks = Some (Aborted ks') \<Longrightarrow> kstep d Q ks ks'"
| prio: "user_thread d t ks \<Longrightarrow> \<not> in_isr ks \<Longrightarrow> kstep d Q ks (k_thread_priority_set t p ks)"
| lock: "sched_locked (threads ks (current ks)) \<noteq> 1 \<Longrightarrow> kstep d Q ks (k_sched_lock ks)"
| unlock: "kstep d Q ks (k_sched_unlock ks)"
| slice_set: "kstep d Q ks (k_sched_time_slice_set ticks p ks)"
| wake: "q \<in> Q \<Longrightarrow> kstep d Q ks (z_reschedule (snd (z_sched_wake q v a ks)))"
| wake_all: "q \<in> Q \<Longrightarrow> z_sched_wake_all q v a ks = Some (b, ks') \<Longrightarrow> kstep d Q ks (z_reschedule ks')"
| unpend_all: "q \<in> Q \<Longrightarrow> z_unpend_all q ks = Some (b, ks') \<Longrightarrow> kstep d Q ks (z_reschedule ks')"
| tick: "in_isr ks \<Longrightarrow> 0 \<le> ticks \<Longrightarrow>
    sys_clock_announce kernel_expiry z_time_slice ticks ks = Some (ks', log) \<Longrightarrow> kstep d Q ks ks'"
| clock: "0 \<le> n \<Longrightarrow> kstep d Q ks (ks\<lparr>hw_elapsed := n\<rparr>)"
| irq: "kstep d Q ks (ks\<lparr>irq_unlocked := b\<rparr>)"
| isr_enter: "kstep d Q ks (ks\<lparr>in_isr := True\<rparr>)"
| isr_exit: "in_isr ks \<Longrightarrow> kstep d Q ks ((snd (z_get_next_switch_handle ks))\<lparr>in_isr := False\<rparr>)"

inductive reachable :: "int \<Rightarrow> int \<Rightarrow> int \<Rightarrow> int \<Rightarrow> tid \<Rightarrow> tid \<Rightarrow> tid \<Rightarrow> kernel \<Rightarrow> bool"
  for ticks p mp ip d main idle where
  reach_boot: "reachable ticks p mp ip d main idle (boot ticks p mp ip d main idle)"
| reach_step: "reachable ticks p mp ip d main idle ks \<Longrightarrow> kstep d UNIV ks ks' \<Longrightarrow> reachable ticks p mp ip d main idle ks'"

subsection \<open>The steps keep the invariant\<close>

definition system_ok :: "tid \<Rightarrow> 'a kernel_scheme \<Rightarrow> bool" where
  "system_ok d ks \<longleftrightarrow> kernel_ok ks \<and> base_ok d ks"

lemma current_not_dummy:
  assumes "system_ok d ks" and "may_block ks"
  shows "current ks \<noteq> d"
  using current_facts(4) [of ks] assms
  by (auto simp: system_ok_def may_block_def base_ok_def dummy_ok_def z_is_thread_ready_bits)

lemma base_ok_prio_set [inv_intros]:
  assumes "base_ok d ks"
  shows "base_ok d (k_thread_priority_set t p ks)"
proof -
  have s: "base_ok d k \<Longrightarrow> base_ok d (set_prio t p k)" for k :: "'a kernel_scheme"
    unfolding set_prio_def by (rule base_ok_upd) (auto simp: base_ok_def dummy_ok_def)
  show ?thesis
    unfolding k_thread_priority_set_def z_thread_prio_set_def z_reschedule_unlocked_eq
    using assms by (auto simp: Let_def intro!: inv_intros s)
qed

lemma base_ok_sched_lock [inv_intros]:
  assumes "base_ok d ks"
  shows "base_ok d (k_sched_lock ks)" and "base_ok d (k_sched_unlock ks)"
proof -
  have "base_ok d (upd_thread t (\<lambda>th. th\<lparr>sched_locked := f th\<rparr>) ks)" for t f
    using assms by (rule base_ok_upd) (use assms in \<open>auto simp: base_ok_def dummy_ok_def\<close>)
  then show "base_ok d (k_sched_lock ks)" "base_ok d (k_sched_unlock ks)"
    unfolding k_sched_lock_def k_sched_unlock_def z_reschedule_unlocked_eq Let_def by (auto intro!: inv_intros)
qed

lemma base_ok_create [inv_intros]:
  assumes "base_ok d ks" and "t \<noteq> d"
  shows "base_ok d (k_thread_create t p opts w ks)"
proof -
  have "base_ok d (z_setup_new_thread t p opts ks)"
    using assms by (auto simp: base_ok_def dummy_ok_def z_is_thread_state_set_def)
  then show ?thesis
    using assms(2)
    unfolding k_thread_create_def thread_schedule_new_def k_thread_start_def z_sched_start_def Let_def
    by (auto intro!: inv_intros base_ok_add)
qed

lemma base_ok_blocking [inv_intros]:
  assumes "base_ok d ks" and "current ks \<noteq> d"
  shows "base_ok d (k_yield ks)" and "base_ok d (snd (snd (z_tick_sleep ticks ks)))"
    and "base_ok d (snd (k_thread_join t w ks))" and "base_ok d (z_pend_curr q w ks)"
  using assms
  unfolding k_yield_def z_tick_sleep_def k_thread_join_def z_pend_curr_def Let_def
  by (auto intro!: inv_intros base_ok_add)

lemma base_ok_slice_set [inv_intros]: "base_ok d ks \<Longrightarrow> base_ok d (k_sched_time_slice_set ticks p ks)"
  unfolding k_sched_time_slice_set_def Let_def
  by (intro inv_intros, rule base_ok_same, assumption) (simp_all add: is_linked_def)

lemma base_ok_wakeup [inv_intros]: "base_ok d ks \<Longrightarrow> base_ok d (k_wakeup t ks)"
  using base_ok_abort_thread [of d ks t]
  unfolding k_wakeup_def Let_def by (auto intro!: inv_intros split: prod.split)

lemma base_ok_waking [inv_intros]:
  assumes "base_ok d ks"
  shows "base_ok d (k_thread_resume t ks)" and "base_ok d (z_sched_start t ks)"
    and "base_ok d (snd (z_sched_wake q v a ks))"
  using assms
  unfolding k_thread_resume_def z_sched_start_def z_sched_wake_def Let_def
  by (auto intro!: inv_intros split: option.split)

lemma slice_set_ok [inv_intros]: "kernel_ok ks \<Longrightarrow> kernel_ok (k_sched_time_slice_set ticks p ks)"
  unfolding k_sched_time_slice_set_def Let_def
  by (rule kernel_ok_reset_time_slice, rule kernel_ok_same, assumption)
    (auto simp: is_linked_def timeouts_ok_def kernel_ok_but_def dest: sched_inv_timeouts)

lemma system_ok_fields:
  assumes "system_ok d ks"
  shows "system_ok d (ks\<lparr>irq_unlocked := b\<rparr>)" and "system_ok d (ks\<lparr>in_isr := True\<rparr>)"
    and "0 \<le> n \<Longrightarrow> system_ok d (ks\<lparr>hw_elapsed := n\<rparr>)"
proof -
  have ok: "kernel_ok ks" and base: "base_ok d ks" and t: "timeouts_ok ks"
    using assms sched_inv_timeouts by (auto simp: system_ok_def kernel_ok_but_def)
  show "system_ok d (ks\<lparr>irq_unlocked := b\<rparr>)" "0 \<le> n \<Longrightarrow> system_ok d (ks\<lparr>hw_elapsed := n\<rparr>)"
    unfolding system_ok_def using t
    by (auto intro!: kernel_ok_same [OF ok] base_ok_same [OF base] simp: is_linked_def timeouts_ok_def)
  have "sched_inv (ks\<lparr>in_isr := True\<rparr>)"
    using ok t by (auto simp: kernel_ok_but_def intro: sched_inv_same)
  moreover have "cache_best (ks\<lparr>in_isr := True\<rparr>)" "curr_ok (ks\<lparr>in_isr := True\<rparr>)"
    using ok next_up_same [of "ks\<lparr>in_isr := True\<rparr>" ks] preemptible_same [of "ks\<lparr>in_isr := True\<rparr>" "current ks" ks]
    by (auto simp: kernel_ok_but_def cache_best_def curr_ok_def thread_state_bits)
  ultimately show "system_ok d (ks\<lparr>in_isr := True\<rparr>)"
    using base_ok_same [OF base, of "ks\<lparr>in_isr := True\<rparr>"] by (simp add: system_ok_def kernel_ok_but_def)
qed

lemma kstep_ok:
  assumes "kstep d Q ks ks'" and "system_ok d ks"
  shows "system_ok d ks'"
  using assms
proof (cases rule: kstep.cases)
  case (sleep ticks)
  moreover have "z_tick_sleep 0 ks = (Done 0, 0, k_yield ks)"
    by (simp add: z_tick_sleep_def)
  ultimately show ?thesis
    using assms(2) current_not_dummy [of d ks] z_tick_sleep_ok [of ks ticks] k_yield_ok [of ks]
      base_ok_blocking [of d ks]
    by (cases "ticks = 0") (auto simp: system_ok_def may_block_def)
next
  case (suspend t)
  then show ?thesis
    using k_thread_suspend_returns [of ks t d] assms(2) by (auto simp: system_ok_def user_thread_def)
next
  case (abort t)
  then show ?thesis
    using z_thread_abort_returns [of ks t d] assms(2) by (auto simp: system_ok_def user_thread_def)
next
  case (tick ticks log)
  then show ?thesis
    using sys_clock_announce_ok [of ks d ticks] assms(2) by (auto simp: system_ok_def)
next
  case (wake_all q v a b ks1)
  then show ?thesis
    using wake_all_returns [of ks q v a False] assms(2)
    by (auto simp: system_ok_def z_sched_wake_all_def woken_def intro!: inv_intros)
next
  case (unpend_all q b ks1)
  then show ?thesis
    using z_unpend_all_returns [of ks q False] assms(2)
    by (auto simp: system_ok_def z_unpend_all_def woken_def intro!: inv_intros)
next
  case isr_exit
  then show ?thesis
    using z_get_next_switch_handle_ok [of ks] assms(2) base_ok_same [of d ks ks']
    by (auto simp: system_ok_def z_get_next_switch_handle_def is_linked_def)
qed (use assms(2) current_not_dummy [of d ks] system_ok_fields [of d ks] in
    \<open>auto simp: system_ok_def may_block_def user_thread_def intro!: inv_intros\<close>)

lemma reachable_ok:
  assumes "reachable ticks p mp ip d main idle ks" and "distinct [d, main, idle]"
  shows "system_ok d ks"
  using assms
proof (induction rule: reachable.induct)
  case reach_boot
  then show ?case using boot_ok [of d main idle ticks p mp ip] by (simp add: system_ok_def)
next
  case (reach_step ks ks')
  then show ?case using kstep_ok by blast
qed

subsection \<open>Which thread runs\<close>

lemma runq_ready:
  assumes "sched_inv ks"
  shows "t \<in> set (runq ks) \<longleftrightarrow> z_is_thread_ready ks t \<and> t \<noteq> idle_thread ks"
  using assms unfolding inv_unfold by auto

lemma waitq_pended:
  assumes "sched_inv ks"
  shows "set (waitqs ks q) = {t. pended_on (threads ks t) = Some q}" and "distinct (waitqs ks q)"
    and "pended_on (threads ks t) \<noteq> None \<Longrightarrow> z_is_thread_pending ks t"
  using assms unfolding inv_unfold by auto

text \<open>No ready thread has a higher priority than \<open>next_up\<close>; the idle thread is chosen only if no other is ready.\<close>

lemma next_up_best:
  assumes "sched_inv ks" and "z_is_thread_ready ks t" and "t \<noteq> idle_thread ks"
  shows "next_up ks \<noteq> idle_thread ks" and "prio (threads ks (next_up ks)) \<le> prio (threads ks t)"
proof -
  have t: "t \<in> set (runq ks)"
    using runq_ready [OF assms(1), of t] assms(2,3) by simp
  then have e: "next_up ks = hd (runq ks)" "runq ks \<noteq> []"
    using next_up_cases [of ks] by (auto split: if_splits)
  moreover have "hd (runq ks) \<in> set (runq ks)"
    using e(2) by simp
  ultimately show "next_up ks \<noteq> idle_thread ks"
    using runq_ready [OF assms(1)] by force
  have "sorted (map (\<lambda>t. prio (threads ks t)) (runq ks))"
    using assms(1) by (simp add: sched_inv_but_def)
  then show "prio (threads ks (next_up ks)) \<le> prio (threads ks t)"
    using sorted_map_hd_le [of "\<lambda>t. prio (threads ks t)" "runq ks" t] t e by simp
qed

lemma swap_fields [simp]:
  "prio (threads (z_swap ks) t) = prio (threads ks t)" "idle_thread (z_swap ks) = idle_thread ks"
  "runq (z_swap ks) = runq ks" "waitqs (z_swap ks) = waitqs ks"
  "z_is_thread_state_set (z_swap ks) u k = z_is_thread_state_set ks u k"
  by (simp_all add: z_swap_def do_swap_def arch_thread_return_value_set_def upd_thread_def Let_def z_is_thread_state_set_def)

lemma yield_state:
  assumes "kernel_ok ks" and "may_block ks"
  defines "k \<equiv> update_cache True (queue_thread (current ks) (dequeue_thread (current ks) ks))"
  shows "k_yield ks = z_swap k" and "sched_inv k" and "cache k = next_up k"
    and "runq k = insert_after (\<lambda>t. prio (threads ks t)) (current ks) (remove1 (current ks) (runq ks))"
    and "current (k_yield ks) = next_up k"
proof -
  have q: "z_is_thread_queued ks (current ks)"
    using current_facts(1) [of ks] assms(1,2) by (simp add: may_block_def)
  show k: "k_yield ks = z_swap k"
    by (simp add: k_yield_def k_def Let_def)
  show inv: "sched_inv k"
    unfolding k_def using requeue_inv [of ks "current ks"] q assms(1) by (auto simp: kernel_ok_but_def intro!: inv_intros)
  show c: "cache k = next_up k"
    unfolding k_def cache_update_cache by (simp add: next_up_same)
  show "runq k = insert_after (\<lambda>t. prio (threads ks t)) (current ks) (remove1 (current ks) (runq ks))"
    by (simp add: k_def)
  show "current (k_yield ks) = next_up k"
    using z_swap_ok(2) [OF inv c] k by simp
qed

lemma hd_insert_after:
  "sorted (map f ys) \<Longrightarrow> y \<in> set ys \<Longrightarrow> f y \<le> f x \<Longrightarrow> insert_after f x ys \<noteq> [] \<and> hd (insert_after f x ys) = hd ys"
  for f :: "'a \<Rightarrow> 'k::linorder"
  by (cases ys) (auto dest: order_trans)

subsection \<open>Properties\<close>

text \<open>C1: In every reachable state the run queue holds exactly the threads that are ready to run (the idle
  thread apart), once each and by priority; every wait queue holds exactly the threads pended on it,
  all of them in the pending state; the timeout queue is well formed; and the cached next thread is the
  best ready one unless the running thread may not be preempted.\<close>

theorem reachable_states_consistent:
  assumes "reachable ticks p mp ip d main idle ks" and "distinct [d, main, idle]"
  shows "set (runq ks) = {t. z_is_thread_ready ks t \<and> t \<noteq> idle_thread ks} \<and> distinct (runq ks) \<and>
    sorted (map (\<lambda>t. prio (threads ks t)) (runq ks)) \<and>
    (\<forall>q. set (waitqs ks q) = {t. pended_on (threads ks t) = Some q} \<and> distinct (waitqs ks q)) \<and>
    (\<forall>t. pended_on (threads ks t) \<noteq> None \<longrightarrow> z_is_thread_pending ks t) \<and> timeouts_ok ks \<and> cache_best ks"
proof -
  have inv: "sched_inv ks" and "cache_best ks"
    using reachable_ok [OF assms] by (simp_all add: system_ok_def kernel_ok_but_def)
  then show ?thesis
    using runq_ready [OF inv] waitq_pended [OF inv] sched_inv_timeouts [OF inv]
    by (intro conjI) (auto simp: sched_inv_but_def)
qed

theorem reachable_states_consistent_witness:
  "set (runq (boot 0 0 0 15 1 2 3)) = {t. z_is_thread_ready (boot 0 0 0 15 1 2 3) t \<and> t \<noteq> 3}"
  using reachable_states_consistent [OF reach_boot, of 1 2 3 0 0 0 15] boot_ok(4) [of 1 2 3 0 0 0 15] by simp

text \<open>C3: When an interrupt returns and the interrupted thread may be preempted (or cannot run any more), the
  processor goes to a ready thread of the highest priority; to the idle thread only if no other is
  ready.\<close>

theorem isr_exit_runs_best:
  assumes "reachable ticks p mp ip d main idle ks" and "distinct [d, main, idle]" and "in_isr ks"
    and "thread_is_preemptible ks (current ks) \<or> z_is_thread_prevented_from_running ks (current ks)"
    and "ks' = snd (z_get_next_switch_handle ks)"
  shows "z_is_thread_ready ks' (current ks') \<and>
    (\<forall>t. z_is_thread_ready ks' t \<and> t \<noteq> idle_thread ks' \<longrightarrow>
      current ks' \<noteq> idle_thread ks' \<and> prio (threads ks' (current ks')) \<le> prio (threads ks' t))"
proof -
  have inv: "sched_inv ks" and "cache_best ks"
    using reachable_ok [OF assms(1,2)] by (simp_all add: system_ok_def kernel_ok_but_def)
  then have c: "cache ks = next_up ks"
    using assms(4) by (auto simp: cache_best_def)
  have "z_is_thread_ready ks' t = z_is_thread_ready ks t" for t
    by (simp add: assms(5) z_get_next_switch_handle_def z_is_thread_ready_bits)
  then show ?thesis
    using next_up_best [OF inv] next_up_runnable(2) [OF inv]
    by (auto simp: assms(5) z_get_next_switch_handle_def c)
qed

theorem isr_exit_runs_best_witness:
  "z_is_thread_ready (snd (z_get_next_switch_handle ((boot 0 0 0 15 1 2 3)\<lparr>in_isr := True\<rparr>)))
     (current (snd (z_get_next_switch_handle ((boot 0 0 0 15 1 2 3)\<lparr>in_isr := True\<rparr>))))"
proof -
  let ?b = "boot 0 0 0 15 1 2 3"
  note b = boot_ok [of 1 2 3 0 0 0 15, simplified]
  have "thread_is_preemptible (?b\<lparr>in_isr := True\<rparr>) 2"
    by (subst thread_is_preemptible_iff) (simp_all add: b)
  then show ?thesis
    using isr_exit_runs_best [OF reach_step [OF reach_boot isr_enter], of 1 2 3 0 0 0 15 _] by (simp add: b)
qed

text \<open>C4: \<^verbatim>\<open>k_yield\<close> gives the processor away: if another ready thread has the same or a higher priority, some
  other thread of at least that priority runs next; and the caller stays in the run queue.\<close>

theorem yield_lets_peers_run:
  assumes "kernel_ok ks" and "may_block ks"
    and "z_is_thread_ready ks t" and "t \<noteq> current ks" and "t \<noteq> idle_thread ks"
    and "prio (threads ks t) \<le> prio (threads ks (current ks))"
  shows "current (k_yield ks) \<noteq> current ks \<and>
    prio (threads (k_yield ks) (current (k_yield ks))) \<le> prio (threads ks t) \<and>
    current ks \<in> set (runq (k_yield ks))"
proof -
  let ?f = "\<lambda>t. prio (threads ks t)" and ?r = "remove1 (current ks) (runq ks)"
  note y = yield_state [OF assms(1,2)]
  have inv: "sched_inv ks"
    using assms(1) by (simp add: kernel_ok_but_def)
  then have s: "sorted (map ?f ?r)" "distinct (runq ks)" and t: "t \<in> set ?r"
    using runq_ready [OF inv, of t] assms(3-5) by (auto simp: sched_inv_but_def sorted_map_remove1)
  have q: "runq (k_yield ks) = insert_after ?f (current ks) ?r"
    unfolding y(1) by (simp add: y(4))
  have h: "current (k_yield ks) = hd ?r"
    using hd_insert_after [OF s(1) t assms(6)]
      next_up_cases [of "update_cache True (queue_thread (current ks) (dequeue_thread (current ks) ks))"]
    unfolding y(4,5) by auto
  have "hd ?r \<in> set ?r"
    using t by (cases ?r) auto
  then have "hd ?r \<noteq> current ks"
    using s(2) by auto
  moreover have "?f (hd ?r) \<le> ?f t"
    using sorted_map_hd_le [OF s(1) t] by simp
  moreover have "prio (threads (k_yield ks) u) = ?f u" for u
    by (simp add: y(1))
  ultimately show ?thesis
    by (simp add: h q)
qed

text \<open>A second thread of the same priority, created by the main thread.\<close>

definition two_threads :: kernel where
  "two_threads = k_thread_create 5 0 0 K_NO_WAIT (boot 0 0 0 15 1 2 3)"

lemma two_threads_ok: "kernel_ok two_threads" "base_ok 1 two_threads"
proof -
  have "unused_thread 5 (boot 0 0 0 15 1 2 3)"
    by code_simp
  then show "kernel_ok two_threads" "base_ok 1 two_threads"
    unfolding two_threads_def
    using k_thread_create_ok [OF boot_ok(1)] base_ok_create [OF boot_ok(2)] by simp_all
qed

lemma two_threads_state:
  "current two_threads = 2 \<and> idle_thread two_threads = 3 \<and> in_isr two_threads = False \<and>
   runq two_threads = [2, 5] \<and> prio (threads two_threads 2) = 0 \<and> prio (threads two_threads 5) = 0 \<and>
   z_is_thread_ready two_threads 5 \<and> irq_unlocked two_threads = False"
  by code_simp

theorem yield_lets_peers_run_witness: "current (k_yield two_threads) \<noteq> 2"
  using yield_lets_peers_run [OF two_threads_ok(1), of 5] two_threads_state by (simp add: may_block_def)

end
