(* ===== verification/Kernel_Object.thy ===== *)
theory Kernel_Object
  imports Kernel_Steps "HOL-Library.Sublist"
begin

text \<open>
  What the kernel objects share.  A wait queue that only its object pends threads on can only lose
  threads by everything else that happens in the kernel (expiring timeouts, aborted threads); the
  others keep their order, and what they left for the object.  The contract \<open>kernel_object\<close> combines this with the calls of one object:
  an invariant between the object and its waiting threads, kept by the calls and by losing waiting
  threads, holds under every interleaving of calls with other kernel activity.
\<close>

subsection \<open>Queues that only shrink\<close>

definition shrinks :: "wq set \<Rightarrow> 'a kernel_scheme \<Rightarrow> 'a kernel_scheme \<Rightarrow> bool" where
  "shrinks Q ks ks' \<longleftrightarrow> (\<forall>q. q \<notin> Q \<longrightarrow> subseq (waitqs ks' q) (waitqs ks q)) \<and> mem ks' = mem ks \<and>
     idle_thread ks' = idle_thread ks"

lemma shrinks_refl [intro]: "shrinks Q ks ks"
  by (simp add: shrinks_def)

lemma shrinks_trans: "shrinks Q a b \<Longrightarrow> shrinks Q b c \<Longrightarrow> shrinks Q a c"
  unfolding shrinks_def using subseq_order.order_trans by metis

lemma shrinks_mono: "shrinks Q ks ks' \<Longrightarrow> Q \<subseteq> R \<Longrightarrow> shrinks R ks ks'"
  by (auto simp: shrinks_def)

lemma shrinks_same:
  "waitqs ks' = waitqs ks \<Longrightarrow> mem ks' = mem ks \<Longrightarrow> idle_thread ks' = idle_thread ks \<Longrightarrow> shrinks Q ks ks'"
  by (simp add: shrinks_def)

lemma set_subseq: "subseq xs ys \<Longrightarrow> set xs \<subseteq> set ys"
  by (induction rule: list_emb.induct) auto

lemma shrinks_waiting:
  assumes "shrinks (- qs) ks ks'" and "q \<in> qs"
  shows "set (waitqs ks' q) \<subseteq> set (waitqs ks q)" and "waitqs ks' q \<noteq> [] \<Longrightarrow> waitqs ks q \<noteq> []"
    and "idle_thread ks' = idle_thread ks" and "mem ks' = mem ks"
  using assms set_subseq [of "waitqs ks' q" "waitqs ks q"] by (auto simp: shrinks_def)

lemma mem_fields [simp]:
  "mem (upd_thread t f ks) = mem ks" "mem (set_state_bits t m ks) = mem ks" "mem (clear_state_bits t m ks) = mem ks"
  "mem (queue_thread t ks) = mem ks" "mem (dequeue_thread t ks) = mem ks" "mem (ready_thread t ks) = mem ks"
  "mem (unready_thread t ks) = mem ks" "mem (unpend_thread_no_timeout t ks) = mem ks"
  "mem (snd (z_abort_thread_timeout t ks)) = mem ks" "mem (z_swap ks) = mem ks" "mem (z_reschedule ks) = mem ks"
  "mem (arch_thread_return_value_set t v ks) = mem ks" "mem (z_thread_return_value_set_with_data t v a ks) = mem ks"
  "mem (add_thread_timeout t w ks) = mem ks" "mem (add_to_waitq_locked t q ks) = mem ks"
  by (simp_all add: upd_thread_def set_state_bits_def clear_state_bits_def queue_thread_def runq_add_def
      dequeue_thread_def runq_remove_def ready_thread_def unready_thread_def unpend_thread_no_timeout_def
      waitq_remove_def thread_mark_defs z_abort_thread_timeout_def z_swap_def do_swap_def z_reschedule_def
      arch_thread_return_value_set_def z_thread_return_value_set_with_data_def add_thread_timeout_def
      add_to_waitq_locked_def waitq_add_def Let_def split: option.split)

lemma idle_fields [simp]:
  "idle_thread (z_reschedule ks) = idle_thread ks"
  "idle_thread (arch_thread_return_value_set t v ks) = idle_thread ks"
  "idle_thread (z_thread_return_value_set_with_data t v a ks) = idle_thread ks"
  by (simp_all add: z_reschedule_def arch_thread_return_value_set_def z_thread_return_value_set_with_data_def
      upd_thread_def Let_def)

lemma waitqs_fields [simp]:
  "waitqs (z_reschedule ks) = waitqs ks"
  "waitqs (arch_thread_return_value_set t v ks) = waitqs ks"
  "waitqs (z_thread_return_value_set_with_data t v a ks) = waitqs ks"
  "waitqs (add_thread_timeout t w ks) = waitqs ks"
  by (simp_all add: z_reschedule_def arch_thread_return_value_set_def z_thread_return_value_set_with_data_def
      upd_thread_def add_thread_timeout_def Let_def)

lemma subseq_remove1: "subseq (remove1 x xs) xs"
  by (induction xs) auto

lemma shrinks_unpend [frame]: "shrinks Q ks (unpend_thread_no_timeout t ks)"
  by (simp add: shrinks_def waitqs_unpend subseq_remove1)

lemma shrinks_wake [frame]:
  "shrinks Q ks (ready_thread t (snd (z_abort_thread_timeout t (unpend_thread_no_timeout t ks))))"
  using shrinks_unpend [of Q ks t] by (simp add: shrinks_def)

lemmas shrinks_simps = shrinks_def waitqs_unpend subseq_remove1

lemma shrinks_unpend_all: "unpend_all q ks = Some ks' \<Longrightarrow> shrinks Q ks ks'"
proof (induction rule: unpend_all.raw_induct [rotated, consumes 1, case_names step])
  case (step unp q ks ks')
  show ?case
  proof (cases "z_waitq_head ks q")
    case (Some t)
    let ?k = "ready_thread t (arch_thread_return_value_set t ret_ok
      (snd (z_abort_thread_timeout t (unpend_thread_no_timeout t ks))))"
    have "shrinks Q ?k ks'"
      using step(2) Some by (intro step(1) [of q]) (simp add: Let_def)
    then show ?thesis
      by (rule shrinks_trans [rotated]) (simp add: shrinks_simps)
  qed (use step(2) in auto)
qed

lemma shrinks_sched_wake: "shrinks Q ks (snd (z_sched_wake q v a ks))"
  by (auto simp: z_sched_wake_def Let_def shrinks_simps split: option.split)

lemma shrinks_wake_all: "wake_all_loop q v a b ks = Some (b', ks') \<Longrightarrow> shrinks Q ks ks'"
proof (induction q v a b ks "(b', ks')" rule: wake_all_loop.raw_induct [rotated, consumes 1, case_names step])
  case (step loop q v a b ks)
  then show ?case
    using shrinks_sched_wake [of Q ks q v a] by (auto split: prod.splits if_splits intro: shrinks_trans)
qed

lemma shrinks_z_unpend_all: "z_unpend_all_loop q b ks = Some (b', ks') \<Longrightarrow> shrinks Q ks ks'"
proof (induction q b ks "(b', ks')" rule: z_unpend_all_loop.raw_induct [rotated, consumes 1, case_names step])
  case (step loop q b ks)
  show ?case
  proof (cases "z_waitq_head ks q")
    case (Some t)
    let ?k = "z_ready_thread t (z_unpend_thread t ks)"
    have "shrinks Q ?k ks'"
      using step(2) Some by (intro step(1) [of q True]) (simp add: Let_def)
    then show ?thesis
      by (rule shrinks_trans [rotated])
        (simp add: shrinks_simps z_ready_thread_def z_unpend_thread_def z_unpend_thread_no_timeout_def)
  qed (use step(2) in auto)
qed

lemma shrinks_halt_thread:
  assumes "halt_thread d t m ks = Some ks'"
  shows "shrinks Q ks ks'"
proof -
  define k1 where "k1 = set_state_bits t m ks"
  define k2 where "k2 = (if z_is_thread_queued k1 t then dequeue_thread t k1 else k1)"
  define k3 where "k3 = snd (z_abort_thread_timeout t
    (if pended_on (threads k2 t) \<noteq> None then unpend_thread_no_timeout t k2 else k2))"
  have "shrinks Q ks k2" "shrinks Q ks k3"
    by (simp_all add: k1_def k2_def k3_def shrinks_simps)
  moreover have "shrinks Q k3 k" if "unpend_all (JoinQ t) k3 = Some k" for k
    using that by (rule shrinks_unpend_all)
  ultimately have k: "shrinks Q ks k" if "(if m = 8 then unpend_all (JoinQ t) k3 else Some k2) = Some k" for k
    using that by (auto intro: shrinks_trans split: if_splits)
  have tail: "waitqs (clear_halting t k) = waitqs k \<and> mem (clear_halting t k) = mem k \<and>
      idle_thread (clear_halting t k) = idle_thread k"
      "waitqs (z_dummy_thread_init d k) = waitqs k \<and> mem (z_dummy_thread_init d k) = mem k" for k :: "'a kernel_scheme"
    by (simp_all add: clear_halting_def clear_state_bits_def z_dummy_thread_init_def upd_thread_def Let_def)
  define r where "r = (if m = 8 then unpend_all (JoinQ t) k3 else Some k2)"
  define D where "D \<longleftrightarrow> m \<noteq> 16 \<and> m = 8 \<and> t = current k2 \<and> in_isr k2"
  let ?f = "\<lambda>k. clear_halting t (if D then z_dummy_thread_init d (update_cache True k) else update_cache True k)"
  have "halt_thread d t m ks = map_option ?f r" if "thread_state (threads ks t) AND m = 0"
    using that unfolding halt_thread_def Let_def k1_def [symmetric] k2_def [symmetric] r_def D_def
    by (auto simp: k3_def)
  moreover have "shrinks Q ks (?f k)" if "r = Some k" for k
    using that k by (simp add: r_def shrinks_def tail)
  ultimately show ?thesis
    using assms by (cases "thread_state (threads ks t) AND m = 0"; cases r) (auto simp: halt_thread_def)
qed

lemma shrinks_swap: "shrinks Q ks ks' \<Longrightarrow> shrinks Q ks (z_swap ks')"
  by (simp add: shrinks_def)

lemma shrinks_halt: "z_thread_halt d t b ks = Some ks' \<Longrightarrow> shrinks Q ks ks'"
  unfolding z_thread_halt_def map_option_eq_Some
  by (auto dest!: shrinks_halt_thread [where Q = Q] intro: shrinks_swap split: if_split_asm)

lemma shrinks_wake_thread: "shrinks Q ks (z_sched_wake_thread t b ks)"
  by (simp add: z_sched_wake_thread_def Let_def shrinks_simps upd_thread_def thread_mark_defs clear_state_bits_def)

lemma shrinks_expiry: "shrinks Q ks (kernel_expiry to ks)"
  by (auto simp: kernel_expiry_def z_thread_timeout_def slice_timeout_def shrinks_wake_thread shrinks_same split: toid.split)

lemma announce_finish_mem: "mem (announce_finish ks) = mem ks"
  by (simp add: announce_finish_def sys_clock_set_timeout_def Let_def split: list.split)

lemma shrinks_announce_loop:
  "announce_loop fn ks log = Some (ks', log') \<Longrightarrow> (\<And>to ks. shrinks Q ks (fn to ks)) \<Longrightarrow> shrinks Q ks ks'"
proof (induction fn ks log "(ks', log')" rule: announce_loop.raw_induct [rotated, consumes 1, case_names step])
  case (step loop fn ks log)
  show ?case
  proof (cases "first ks")
    case (Some x)
    obtain t d where x: "first ks = Some (t, d)"
      using Some by (cases x) simp
    let ?k = "fn t (ks\<lparr>curr_tick := curr_tick ks + d, timeout_list := remove_timeout t ((t, 0) # tl (timeout_list ks))\<rparr>)"
    let ?k' = "?k\<lparr>announce_remaining := announce_remaining ?k - d\<rparr>"
    have "shrinks Q ?k' ks'" if "d \<le> announce_remaining ks"
      using step(2) x that by (intro step(1) [of fn ?k' "log @ [(t, curr_tick ks + d)]"] step(3)) (simp add: Let_def)
    moreover have "shrinks Q ks ?k'"
      using step(3) [of "ks\<lparr>curr_tick := curr_tick ks + d, timeout_list := remove_timeout t ((t, 0) # tl (timeout_list ks))\<rparr>" t]
      by (simp add: shrinks_def)
    ultimately show ?thesis
      using step(2) x by (cases "d \<le> announce_remaining ks") (auto intro: shrinks_trans)
  qed (use step(2) in auto)
qed

lemma z_time_slice_fields: "waitqs (z_time_slice ks) = waitqs ks" "mem (z_time_slice ks) = mem ks"
  "idle_thread (z_time_slice ks) = idle_thread ks"
  by (simp_all add: z_time_slice_def move_thread_to_end_of_prio_q_def Let_def)

lemma shrinks_announce: "sys_clock_announce kernel_expiry z_time_slice n ks = Some (ks', log) \<Longrightarrow> shrinks Q ks ks'"
  using shrinks_announce_loop [where fn = kernel_expiry and ks = "ks\<lparr>announce_remaining := n\<rparr>" and log = "[]", OF _ shrinks_expiry]
  unfolding sys_clock_announce_def map_option_eq_Some
  by (auto simp: shrinks_def z_time_slice_fields announce_finish_mem announce_finish_same)

text \<open>Every step of the kernel, apart from the queues it may pend threads on.\<close>

lemma shrinks_pend:
  assumes "q \<in> Q"
  shows "shrinks Q ks (add_to_waitq_locked t (Some q) ks)"
  using assms
  by (auto simp: shrinks_def add_to_waitq_locked_def waitq_add_def Let_def thread_mark_defs set_state_bits_def upd_thread_def)

lemma shrinks_blocking:
  "shrinks Q ks (k_yield ks)" "shrinks Q ks (snd (snd (z_tick_sleep ticks ks)))"
  "JoinQ t \<in> Q \<Longrightarrow> shrinks Q ks (snd (k_thread_join t w ks))"
  "q \<in> Q \<Longrightarrow> shrinks Q ks (z_pend_curr (Some q) w ks)"
proof -
  show y: "shrinks Q ks (k_yield ks)"
    by (simp add: k_yield_def Let_def shrinks_def)
  show "shrinks Q ks (snd (snd (z_tick_sleep ticks ks)))"
    using y by (simp add: z_tick_sleep_def Let_def shrinks_def thread_mark_defs set_state_bits_def upd_thread_def)
  show "JoinQ t \<in> Q \<Longrightarrow> shrinks Q ks (snd (k_thread_join t w ks))"
    using shrinks_pend [of "JoinQ t" Q ks "current ks"]
    by (auto simp: k_thread_join_def Let_def shrinks_def)
  show "q \<in> Q \<Longrightarrow> shrinks Q ks (z_pend_curr (Some q) w ks)"
    using shrinks_pend [of q Q ks "current ks"]
    by (auto simp: z_pend_curr_def pend_locked_def Let_def shrinks_def)
qed

lemma shrinks_wakeup: "shrinks Q ks (k_wakeup t ks)"
proof -
  obtain r k where a: "z_abort_thread_timeout t ks = (r, k)"
    by fastforce
  then have "waitqs k = waitqs ks" "mem k = mem ks" "idle_thread k = idle_thread ks"
    using abort_thread_fields(3,8) [of t ks] mem_fields(9) [of t ks] by simp_all
  then show ?thesis
    by (simp add: k_wakeup_def a Let_def shrinks_def thread_mark_defs clear_state_bits_def upd_thread_def)
qed

lemma shrinks_calls:
  "shrinks Q ks (k_thread_resume t ks)" "shrinks Q ks (z_sched_start t ks)"
  "shrinks Q ks (k_thread_priority_set t p ks)" "shrinks Q ks (k_sched_lock ks)" "shrinks Q ks (k_sched_unlock ks)"
  "shrinks Q ks (k_sched_time_slice_set ticks p ks)"
  by (simp_all add: shrinks_def k_thread_resume_def z_sched_start_def k_thread_priority_set_def z_thread_prio_set_def
      k_sched_lock_def k_sched_unlock_def k_sched_time_slice_set_def z_reschedule_unlocked_eq Let_def thread_mark_defs
      clear_state_bits_def upd_thread_def set_prio_def)

lemma shrinks_create: "JoinQ t \<in> Q \<Longrightarrow> shrinks Q ks (k_thread_create t p opts w ks)"
proof -
  assume q: "JoinQ t \<in> Q"
  have "mem (z_setup_new_thread t p opts ks) = mem ks"
    by (simp add: z_setup_new_thread_def z_init_thread_base_def z_waitq_init_def Let_def)
  then have "shrinks Q ks (z_setup_new_thread t p opts ks)"
    using q by (auto simp: shrinks_def)
  then show ?thesis
    unfolding k_thread_create_def thread_schedule_new_def k_thread_start_def Let_def
    using shrinks_trans [OF _ shrinks_calls(2), of Q ks "z_setup_new_thread t p opts ks" t] by (auto simp: shrinks_def)
qed

lemma kstep_shrinks:
  assumes "kstep d Q ks ks'"
  shows "shrinks (Q \<union> range JoinQ) ks ks'"
  using assms
proof (cases rule: kstep.cases)
  case (suspend t)
  have "shrinks (Q \<union> range JoinQ) ks (snd (z_abort_thread_timeout t ks))"
    by (simp add: shrinks_def)
  then show ?thesis
    using suspend unfolding k_thread_suspend_def Let_def
    by (auto split: if_splits intro: shrinks_trans shrinks_halt)
next
  case (abort t)
  then show ?thesis
    by (auto simp: z_thread_abort_def split: if_splits intro: shrinks_halt)
next
  case (wake_all q v a b k)
  then have "shrinks (Q \<union> range JoinQ) ks k"
    unfolding z_sched_wake_all_def by (intro shrinks_wake_all)
  then show ?thesis
    using wake_all by (simp add: shrinks_def)
next
  case (unpend_all q b k)
  then have "shrinks (Q \<union> range JoinQ) ks k"
    unfolding z_unpend_all_def by (intro shrinks_z_unpend_all)
  then show ?thesis
    using unpend_all by (simp add: shrinks_def)
next
  case (wake q v a)
  then show ?thesis
    using shrinks_sched_wake [of "Q \<union> range JoinQ" ks q v a] by (simp add: shrinks_def)
next
  case (tick n log)
  then show ?thesis
    by (intro shrinks_announce)
qed (auto simp: shrinks_blocking shrinks_wakeup shrinks_calls shrinks_create z_get_next_switch_handle_def
    intro!: shrinks_same)

subsection \<open>Waking the first waiting thread, blocking the caller\<close>

text \<open>
  The two idioms of the kernel objects: taking the first thread off a wait queue, giving it a return
  value and readying it; and pending the caller.
\<close>

lemma system_ok_parts: "system_ok d ks \<Longrightarrow> kernel_ok ks" "system_ok d ks \<Longrightarrow> base_ok d ks" "system_ok d ks \<Longrightarrow> sched_inv ks"
  by (simp_all add: system_ok_def kernel_ok_but_def)

lemma system_ok_reschedule [inv_intros]: "system_ok d ks \<Longrightarrow> system_ok d (z_reschedule ks)"
  by (auto simp: system_ok_def intro: inv_intros)

lemma unpend_first_None:
  "z_unpend_first_thread q ks = (None, ks') \<Longrightarrow> waitqs ks q = [] \<and> ks' = ks"
  by (simp add: z_unpend_first_thread_None)

lemma unpend_first_cases:
  "z_unpend_first_thread q ks =
     (case waitqs ks q of
        [] \<Rightarrow> (None, ks)
      | t # _ \<Rightarrow> (Some t, snd (z_abort_thread_timeout t (unpend_thread_no_timeout t ks))))"
  by (auto simp: z_unpend_first_thread_def waitq_best_def z_priq_dumb_best_def split: list.split)

lemma ready_thread_retval: "swap_retval (threads (ready_thread t ks) u) = swap_retval (threads ks u)"
  by (simp add: ready_thread_def queue_thread_def runq_add_def set_state_bits_def upd_thread_def)

lemma ready_thread_ready:
  assumes "kernel_ok_but {t} ks" and "t \<noteq> idle_thread ks"
  shows "t \<in> set (runq (ready_thread t ks)) \<longleftrightarrow> z_is_thread_ready ks t"
proof -
  let ?k = "ready_thread t ks"
  have ok: "kernel_ok ?k"
    using ready_thread_done [OF assms] .
  have "timeouts_ok ks"
    using assms(1) sched_inv_timeouts by (auto simp: kernel_ok_but_def)
  then have "z_is_thread_ready ?k t = z_is_thread_ready ks t"
    by (simp add: z_is_thread_ready_bits is_linked_ready_thread)
  then show ?thesis
    using runq_ready [of ?k t] ok assms(2) by (simp add: kernel_ok_but_def)
qed

definition wake_thread :: "retval \<Rightarrow> tid \<Rightarrow> 'a kernel_scheme \<Rightarrow> 'a kernel_scheme" where
  "wake_thread v t ks = z_ready_thread t (arch_thread_return_value_set t v
     (snd (z_abort_thread_timeout t (unpend_thread_no_timeout t ks))))"

lemma wake_thread_fields [simp]:
  "swap_retval (threads (wake_thread v t ks) u) = (if u = t then v else swap_retval (threads ks u))"
  "pended_on (threads (wake_thread v t ks) u) = (if u = t then None else pended_on (threads ks u))"
  "prio (threads (wake_thread v t ks) u) = prio (threads ks u)"
  "swap_data (threads (wake_thread v t ks) u) = swap_data (threads ks u)"
  "current (wake_thread v t ks) = current ks" "mem (wake_thread v t ks) = mem ks"
  "in_isr (wake_thread v t ks) = in_isr ks" "irq_unlocked (wake_thread v t ks) = irq_unlocked ks"
  "idle_thread (wake_thread v t ks) = idle_thread ks"
  by (simp_all add: wake_thread_def z_ready_thread_def ready_thread_def queue_thread_def runq_add_def set_state_bits_def
      arch_thread_return_value_set_def upd_thread_def unpend_thread_no_timeout_def waitq_remove_def thread_mark_defs
      clear_state_bits_def Let_def)

lemma wake_first:
  assumes "system_ok d ks" and "waitqs ks q = t # ts"
  shows "system_ok d (wake_thread v t ks)" and "waitqs (wake_thread v t ks) = (waitqs ks)(q := ts)"
    and "\<not> z_is_thread_pending (wake_thread v t ks) t" and "\<not> is_linked (wake_thread v t ks) (ThreadTO t)"
proof -
  let ?u = "snd (z_abort_thread_timeout t (unpend_thread_no_timeout t ks))"
  have f: "z_unpend_first_thread q ks = (Some t, ?u)"
    by (simp add: unpend_first_cases assms(2))
  note u = z_unpend_first_thread_ok [OF system_ok_parts(1) [OF assms(1)] f]
  have kr: "kernel_ok_but {t} (arch_thread_return_value_set t v ?u)"
    using u(1) by (rule kernel_ok_retval)
  have idle: "t \<noteq> idle_thread (arch_thread_return_value_set t v ?u)"
    using u(3) by (simp add: arch_thread_return_value_set_def upd_thread_def)
  show "system_ok d (wake_thread v t ks)"
    unfolding system_ok_def wake_thread_def z_ready_thread_def
    using ready_thread_done [OF kr idle] system_ok_parts(2) [OF assms(1)] by (auto intro!: inv_intros)
  show "waitqs (wake_thread v t ks) = (waitqs ks)(q := ts)"
    using u(4) assms(2) by (simp add: wake_thread_def z_ready_thread_def)
  show "\<not> z_is_thread_pending (wake_thread v t ks) t"
    by (simp add: wake_thread_def z_ready_thread_def thread_state_bits arch_thread_return_value_set_def
        unpend_thread_no_timeout_def thread_mark_defs Let_def)
  have "timeouts_ok (arch_thread_return_value_set t v ?u)" "timeouts_ok ks"
    using kr system_ok_parts(3) [OF assms(1)] sched_inv_timeouts by (auto simp: kernel_ok_but_def)
  then show "\<not> is_linked (wake_thread v t ks) (ThreadTO t)"
    by (simp add: wake_thread_def z_ready_thread_def is_linked_ready_thread arch_thread_return_value_set_def is_linked_abort_thread)
qed

text \<open>Waking all waiting threads, one after the other.\<close>

lemma wake_all_fields [simp]:
  "swap_retval (threads (fold (wake_thread v) ts ks) u) = (if u \<in> set ts then v else swap_retval (threads ks u))"
  "pended_on (threads (fold (wake_thread v) ts ks) u) = (if u \<in> set ts then None else pended_on (threads ks u))"
  "current (fold (wake_thread v) ts ks) = current ks" "mem (fold (wake_thread v) ts ks) = mem ks"
  "in_isr (fold (wake_thread v) ts ks) = in_isr ks" "irq_unlocked (fold (wake_thread v) ts ks) = irq_unlocked ks"
  "idle_thread (fold (wake_thread v) ts ks) = idle_thread ks"
  by (induction ts arbitrary: ks) auto

lemma wake_all_ok:
  assumes "system_ok d ks" and "waitqs ks q = ts"
  shows "system_ok d (fold (wake_thread v) ts ks)"
    and "waitqs (fold (wake_thread v) ts ks) = (waitqs ks)(q := [])"
proof -
  have "system_ok d (fold (wake_thread v) ts ks) \<and> waitqs (fold (wake_thread v) ts ks) = (waitqs ks)(q := [])"
    using assms
  proof (induction ts arbitrary: ks)
    case (Cons t ts)
    then show ?case
      using wake_first(1,2) [of d ks q t ts v] Cons.IH [of "wake_thread v t ks"] by (auto simp: fun_eq_iff)
  qed auto
  then show "system_ok d (fold (wake_thread v) ts ks)" "waitqs (fold (wake_thread v) ts ks) = (waitqs ks)(q := [])"
    by simp_all
qed

lemma z_waitq_init_empty: "waitqs ks q = [] \<Longrightarrow> z_waitq_init q ks = ks"
proof -
  assume "waitqs ks q = []"
  then have "(waitqs ks)(q := []) = waitqs ks" by auto
  then show ?thesis by (simp add: z_waitq_init_def)
qed

lemma first_waiting:
  assumes "system_ok d ks" and "waitqs ks q = t # ts"
  shows "t \<notin> set ts" and "t \<noteq> idle_thread ks" and "pended_on (threads ks t) = Some q"
proof -
  note inv = system_ok_parts(3) [OF assms(1)]
  show "t \<notin> set ts"
    using waitq_pended(2) [OF inv, of q] assms(2) by simp
  have "t \<in> set (waitqs ks q)"
    using assms(2) by simp
  then show p: "pended_on (threads ks t) = Some q"
    using waitq_pended(1) [OF inv] by simp
  then show "t \<noteq> idle_thread ks"
    using pended_not_idle [OF inv] by simp
qed

lemma waiting_not_current:
  assumes "system_ok d ks" and "t \<in> set (waitqs ks q)" and "\<not> in_isr ks"
  shows "t \<noteq> current ks"
proof
  assume t: "t = current ks"
  have p: "pended_on (threads ks t) = Some q"
    using assms(2) waitq_pended(1) [OF system_ok_parts(3) [OF assms(1)]] by auto
  then have "t \<noteq> idle_thread ks"
    using pended_not_idle [OF system_ok_parts(3) [OF assms(1)]] by simp
  then show False
    using current_facts(2) [OF system_ok_parts(1) [OF assms(1)] assms(3)] p t by simp
qed

lemma reschedule_fields:
  "t \<noteq> current ks \<or> in_isr ks \<Longrightarrow> swap_retval (threads (z_reschedule ks) t) = swap_retval (threads ks t)"
  "pended_on (threads (z_reschedule ks) t) = pended_on (threads ks t)"
  "prio (threads (z_reschedule ks) t) = prio (threads ks t)"
  "z_is_thread_state_set (z_reschedule ks) t m = z_is_thread_state_set ks t m"
  by (auto simp: z_reschedule_def resched_def z_swap_def do_swap_def arch_thread_return_value_set_def upd_thread_def Let_def
      z_is_thread_state_set_def)

text \<open>A thread that left its wait queue with the given result: no time-out is left, and it is in the run queue unless
  something else keeps it from running.\<close>

definition woken_up :: "retval \<Rightarrow> tid \<Rightarrow> 'a kernel_scheme \<Rightarrow> bool" where
  "woken_up v t ks \<longleftrightarrow> swap_retval (threads ks t) = v \<and> pended_on (threads ks t) = None \<and> \<not> z_is_thread_pending ks t \<and>
     \<not> is_linked ks (ThreadTO t) \<and> (z_is_thread_ready ks t \<longrightarrow> t \<in> set (runq ks))"

lemma linked_reschedule:
  assumes "system_ok d ks"
  shows "is_linked (z_reschedule ks) (ThreadTO t) = is_linked ks (ThreadTO t)"
proof -
  let ?k = "\<lambda>u v c. (arch_thread_return_value_set u v ks)\<lparr>current := c\<rparr>"
  have "timeouts_ok (?k u v c)" "is_linked (?k u v c) x = is_linked ks x" "is_linked (arch_thread_return_value_set u v ks) x = is_linked ks x" for u v c x
    using sched_inv_timeouts [OF system_ok_parts(3) [OF assms]]
    by (simp_all add: timeouts_ok_def arch_thread_return_value_set_def upd_thread_def is_linked_def)
  then show ?thesis
    by (simp add: z_reschedule_def z_swap_def do_swap_def Let_def timeouts_reset_slice)
qed

lemma woken_upI:
  assumes "system_ok d ks" and "swap_retval (threads ks t) = v" and "pended_on (threads ks t) = None"
    and "\<not> is_linked ks (ThreadTO t)" and "t \<noteq> idle_thread ks" and "t \<noteq> current ks \<or> in_isr ks"
  shows "woken_up v t (z_reschedule ks)"
proof -
  have ok: "sched_inv (z_reschedule ks)" and idle: "idle_thread (z_reschedule ks) = idle_thread ks"
    using system_ok_parts(3) [OF system_ok_reschedule [OF assms(1)]] by (simp_all add: idle_fields)
  have "\<not> z_is_thread_pending (z_reschedule ks) t"
    using ok assms(3) by (simp add: sched_inv_but_def reschedule_fields)
  then show ?thesis
    using assms runq_ready [OF ok, of t] idle by (simp add: woken_up_def linked_reschedule reschedule_fields)
qed

lemma linked_wake:
  assumes "system_ok d ks" and "waitqs ks q = t # ts"
  shows "is_linked (wake_thread v t ks) (ThreadTO u) \<longleftrightarrow> is_linked ks (ThreadTO u) \<and> u \<noteq> t"
proof -
  let ?u = "snd (z_abort_thread_timeout t (unpend_thread_no_timeout t ks))"
  have f: "z_unpend_first_thread q ks = (Some t, ?u)"
    by (simp add: unpend_first_cases assms(2))
  have "kernel_ok_but {t} (arch_thread_return_value_set t v ?u)"
    using z_unpend_first_thread_ok(1) [OF system_ok_parts(1) [OF assms(1)] f] by (rule kernel_ok_retval)
  then have "timeouts_ok (arch_thread_return_value_set t v ?u)" "timeouts_ok ks"
    using system_ok_parts(3) [OF assms(1)] sched_inv_timeouts by (auto simp: kernel_ok_but_def)
  then show ?thesis
    by (simp add: wake_thread_def z_ready_thread_def is_linked_ready_thread arch_thread_return_value_set_def is_linked_abort_thread)
qed

lemma wake_all_linked:
  "system_ok d ks \<Longrightarrow> waitqs ks q = ts @ us \<Longrightarrow>
   is_linked (fold (wake_thread v) ts ks) (ThreadTO u) \<longleftrightarrow> is_linked ks (ThreadTO u) \<and> u \<notin> set ts"
proof (induction ts arbitrary: ks)
  case (Cons t ts)
  then show ?case
    using wake_first(1,2) [of d ks q t "ts @ us" v] linked_wake [of d ks q t "ts @ us" v u] Cons.IH [of "wake_thread v t ks"]
    by auto
qed simp

lemma wake_some_ok:
  assumes "system_ok d ks" and "waitqs ks q = ts @ us"
  shows "system_ok d (fold (wake_thread v) ts ks) \<and> waitqs (fold (wake_thread v) ts ks) = (waitqs ks)(q := us)"
  using assms
proof (induction ts arbitrary: ks)
  case (Cons t ts)
  then show ?case
    using wake_first(1,2) [of d ks q t "ts @ us" v] Cons.IH [of "wake_thread v t ks"] by (auto simp: fun_eq_iff)
qed auto

lemma wake_some_woken:
  assumes "system_ok d ks" and "waitqs ks q = ts @ us" and "t \<in> set ts"
  shows "woken_up v t (z_reschedule (fold (wake_thread v) ts ks))"
proof (rule woken_upI)
  show "system_ok d (fold (wake_thread v) ts ks)"
    using wake_some_ok [OF assms(1,2)] by simp
  have q: "t \<in> set (waitqs ks q)"
    using assms(2,3) by simp
  then show "t \<noteq> current (fold (wake_thread v) ts ks) \<or> in_isr (fold (wake_thread v) ts ks)"
    using waiting_not_current [OF assms(1)] by auto
  show "t \<noteq> idle_thread (fold (wake_thread v) ts ks)"
    using q waitq_pended(1) [OF system_ok_parts(3) [OF assms(1)]] pended_not_idle [OF system_ok_parts(3) [OF assms(1)]] by auto
  show "\<not> is_linked (fold (wake_thread v) ts ks) (ThreadTO t)"
    using wake_all_linked [OF assms(1,2)] assms(3) by simp
qed (use assms(3) in simp_all)

lemma set_priq_add [simp]: "set (z_priq_dumb_add th t pq) = insert t (set pq)"
  by (auto simp: z_priq_dumb_add_eq)

lemma pend_curr:
  assumes "system_ok d ks" and "may_block ks"
  shows "system_ok d (z_pend_curr (Some q) w ks)"
    and "waitqs (z_pend_curr (Some q) w ks) =
      (waitqs ks)(q := z_priq_dumb_add (threads ks) (current ks) (waitqs ks q))"
    and "mem (z_pend_curr (Some q) w ks) = mem ks" and "idle_thread (z_pend_curr (Some q) w ks) = idle_thread ks"
    and "prio (threads (z_pend_curr (Some q) w ks) t) = prio (threads ks t)"
proof -
  show "system_ok d (z_pend_curr (Some q) w ks)"
    using assms current_not_dummy [OF assms] unfolding system_ok_def may_block_def by (auto intro!: inv_intros)
  have p: "(\<lambda>t. prio (if t = c then (threads (z_mark_thread_as_pending c (unready_thread c ks)) c)\<lparr>pended_on := Some q\<rparr>
      else threads (z_mark_thread_as_pending c (unready_thread c ks)) t)) = (\<lambda>t. prio (threads ks t))" for c
    by (rule ext) (simp add: thread_mark_defs set_state_bits_def upd_thread_def)
  show "waitqs (z_pend_curr (Some q) w ks) = (waitqs ks)(q := z_priq_dumb_add (threads ks) (current ks) (waitqs ks q))"
    by (simp add: z_pend_curr_def pend_locked_def add_to_waitq_locked_def waitq_add_def Let_def z_priq_dumb_add_eq p)
      (simp add: thread_mark_defs set_state_bits_def upd_thread_def)
  show "mem (z_pend_curr (Some q) w ks) = mem ks" "idle_thread (z_pend_curr (Some q) w ks) = idle_thread ks"
    by (simp_all add: z_pend_curr_def pend_locked_def)
  show "prio (threads (z_pend_curr (Some q) w ks) t) = prio (threads ks t)"
    by (simp add: z_pend_curr_def pend_locked_def add_thread_timeout_def add_to_waitq_locked_def waitq_add_def Let_def
        thread_mark_defs set_state_bits_def upd_thread_def)
qed

subsection \<open>What a waiting thread left for its object\<close>

text \<open>
  A thread that pends on an object leaves data for it in its own control block: the address of a message, the
  events it waits for.  No other kernel activity changes them while the thread is waiting.
\<close>

definition wait_data :: "k_thread \<Rightarrow> addr \<times> tid \<times> u32 \<times> u32" where
  "wait_data th = (swap_data th, next_event_link th, t_events th, event_options th)"

definition keeps_data :: "tid set \<Rightarrow> 'a kernel_scheme \<Rightarrow> 'a kernel_scheme \<Rightarrow> bool" where
  "keeps_data A ks ks' \<longleftrightarrow> (\<forall>u. u \<notin> A \<longrightarrow> wait_data (threads ks' u) = wait_data (threads ks u) \<and>
     z_is_thread_state_set ks' u THREAD_DEAD = z_is_thread_state_set ks u THREAD_DEAD)"

lemma keeps_data_refl [intro]: "keeps_data A ks ks"
  by (simp add: keeps_data_def)

lemma keeps_data_trans: "keeps_data A ks ks' \<Longrightarrow> keeps_data A ks' ks'' \<Longrightarrow> keeps_data A ks ks''"
  by (simp add: keeps_data_def)

lemma wait_data_upd [simp]:
  "wait_data (th\<lparr>prio := p\<rparr>) = wait_data th" "wait_data (th\<lparr>sched_locked := l\<rparr>) = wait_data th"
  "wait_data (th\<lparr>thread_state := s\<rparr>) = wait_data th" "wait_data (th\<lparr>user_options := o'\<rparr>) = wait_data th"
  "wait_data (th\<lparr>pended_on := q\<rparr>) = wait_data th" "wait_data (th\<lparr>swap_retval := v\<rparr>) = wait_data th"
  "wait_data (th\<lparr>no_wake_on_timeout := b\<rparr>) = wait_data th"
  by (simp_all add: wait_data_def)

lemma wait_data_fields [simp]:
  "wait_data (threads (set_state_bits t m ks) u) = wait_data (threads ks u)"
  "wait_data (threads (clear_state_bits t m ks) u) = wait_data (threads ks u)"
  "wait_data (threads (queue_thread t ks) u) = wait_data (threads ks u)"
  "wait_data (threads (dequeue_thread t ks) u) = wait_data (threads ks u)"
  "wait_data (threads (ready_thread t ks) u) = wait_data (threads ks u)"
  "wait_data (threads (unready_thread t ks) u) = wait_data (threads ks u)"
  "wait_data (threads (unpend_thread_no_timeout t ks) u) = wait_data (threads ks u)"
  "wait_data (threads (snd (z_abort_thread_timeout t ks)) u) = wait_data (threads ks u)"
  "wait_data (threads (z_swap ks) u) = wait_data (threads ks u)"
  "wait_data (threads (z_reschedule ks) u) = wait_data (threads ks u)"
  "wait_data (threads (arch_thread_return_value_set t v ks) u) = wait_data (threads ks u)"
  "wait_data (threads (add_thread_timeout t w ks) u) = wait_data (threads ks u)"
  "wait_data (threads (add_to_waitq_locked t q ks) u) = wait_data (threads ks u)"
  "wait_data (threads (wake_thread v t ks) u) = wait_data (threads ks u)"
  by (simp_all add: upd_thread_def set_state_bits_def clear_state_bits_def queue_thread_def runq_add_def
      dequeue_thread_def runq_remove_def ready_thread_def unready_thread_def unpend_thread_no_timeout_def
      waitq_remove_def thread_mark_defs z_abort_thread_timeout_def z_swap_def do_swap_def z_reschedule_def
      arch_thread_return_value_set_def add_thread_timeout_def wake_thread_def z_ready_thread_def
      add_to_waitq_locked_def waitq_add_def Let_def split: option.split)

lemma wait_data_upd_thread: "u \<noteq> t \<Longrightarrow> wait_data (threads (upd_thread t f ks) u) = wait_data (threads ks u)"
  by (simp add: upd_thread_def)

lemma upd_keeps [simp]:
  "(\<And>th. wait_data (f th) = wait_data th) \<Longrightarrow> wait_data (threads (upd_thread t f ks) u) = wait_data (threads ks u)"
  "(\<And>th. thread_state (f th) = thread_state th) \<Longrightarrow>
     z_is_thread_state_set (upd_thread t f ks) u m = z_is_thread_state_set ks u m"
  by (simp_all add: upd_thread_def z_is_thread_state_set_def)

lemma dead_waitq_add: "z_is_thread_state_set (waitq_add q t ks) u m = z_is_thread_state_set ks u m"
  by (simp add: z_is_thread_state_set_def waitq_add_def)

lemma dead_add_timeout: "z_is_thread_state_set (add_thread_timeout t w ks) u m = z_is_thread_state_set ks u m"
  by (simp add: z_is_thread_state_set_def add_thread_timeout_def)

lemma dead_records [simp]:
  "z_is_thread_state_set (z_add_timeout to w ks) u m = z_is_thread_state_set ks u m"
  "z_is_thread_state_set (ks\<lparr>slice_ticks := x, slice_max_prio := y\<rparr>) u m = z_is_thread_state_set ks u m"
  by (simp_all add: z_is_thread_state_set_def)

lemma dead_fields [simp]:
  "z_is_thread_state_set (z_reschedule ks) u 8 = z_is_thread_state_set ks u 8"
  "z_is_thread_state_set (arch_thread_return_value_set t v ks) u 8 = z_is_thread_state_set ks u 8"
  "z_is_thread_state_set (add_thread_timeout t w ks) u 8 = z_is_thread_state_set ks u 8"
  "z_is_thread_state_set (add_to_waitq_locked t q ks) u 8 = z_is_thread_state_set ks u 8"
  "z_is_thread_state_set (wake_thread v t ks) u 8 = z_is_thread_state_set ks u 8"
  by (simp_all add: reschedule_fields arch_thread_return_value_set_def dead_add_timeout add_to_waitq_locked_def
      dead_waitq_add wake_thread_def z_ready_thread_def thread_mark_defs Let_def split: option.split)

lemma keeps_unpend_all: "unpend_all q ks = Some ks' \<Longrightarrow> keeps_data A ks ks'"
proof (induction rule: unpend_all.raw_induct [rotated, consumes 1, case_names step])
  case (step unp q ks ks')
  show ?case
  proof (cases "z_waitq_head ks q")
    case (Some t)
    let ?k = "ready_thread t (arch_thread_return_value_set t ret_ok
      (snd (z_abort_thread_timeout t (unpend_thread_no_timeout t ks))))"
    have "keeps_data A ?k ks'"
      using step(2) Some by (intro step(1) [of q]) (simp add: Let_def)
    then show ?thesis by (simp add: keeps_data_def)
  qed (use step(2) in \<open>auto simp: keeps_data_def\<close>)
qed

lemma keeps_z_unpend_all: "z_unpend_all_loop q b ks = Some (b', ks') \<Longrightarrow> keeps_data A ks ks'"
proof (induction q b ks "(b', ks')" rule: z_unpend_all_loop.raw_induct [rotated, consumes 1, case_names step])
  case (step loop q b ks)
  show ?case
  proof (cases "z_waitq_head ks q")
    case (Some t)
    have "keeps_data A (z_ready_thread t (z_unpend_thread t ks)) ks'"
      using step(2) Some by (intro step(1) [of q True]) (simp add: Let_def)
    then show ?thesis
      by (simp add: keeps_data_def z_ready_thread_def z_unpend_thread_def z_unpend_thread_no_timeout_def)
  qed (use step(2) in \<open>auto simp: keeps_data_def\<close>)
qed

lemma waitq_best_in: "waitq_best ks q = Some t \<Longrightarrow> t \<in> set (waitqs ks q)"
  by (auto simp: waitq_best_def z_priq_dumb_best_def split: list.splits)

lemma keeps_sched_wake:
  assumes "set (waitqs ks q) \<subseteq> A"
  shows "keeps_data A ks (snd (z_sched_wake q v a ks))"
  using assms waitq_best_in [of ks q]
  by (auto simp: z_sched_wake_def keeps_data_def Let_def z_thread_return_value_set_with_data_def wait_data_upd_thread
      split: option.split)

lemma keeps_wake_all:
  "wake_all_loop q v a b ks = Some (b', ks') \<Longrightarrow> set (waitqs ks q) \<subseteq> A \<Longrightarrow> keeps_data A ks ks'"
proof (induction q v a b ks "(b', ks')" rule: wake_all_loop.raw_induct [rotated, consumes 1, case_names step])
  case (step loop q v a b ks)
  obtain c k where c: "z_sched_wake q v a ks = (c, k)" by fastforce
  have "subseq (waitqs k q) (waitqs ks q)"
    using shrinks_sched_wake [of "{}" ks q v a] c by (simp add: shrinks_def)
  then have "set (waitqs k q) \<subseteq> A" using set_subseq step(3) by blast
  moreover have "keeps_data A ks k" using keeps_sched_wake [OF step(3), of v a] c by simp
  ultimately show ?case
    using step(1) [of q v a True k] step(2) c by (auto split: if_splits intro: keeps_data_trans)
qed

lemma keeps_halt_thread:
  assumes "halt_thread d t m ks = Some ks'" and "d \<in> A" and "m = 16 \<or> m = 8 \<and> t \<in> A"
  shows "keeps_data A ks ks'"
proof -
  define k1 where "k1 = set_state_bits t m ks"
  define k2 where "k2 = (if z_is_thread_queued k1 t then dequeue_thread t k1 else k1)"
  define k3 where "k3 = snd (z_abort_thread_timeout t
    (if pended_on (threads k2 t) \<noteq> None then unpend_thread_no_timeout t k2 else k2))"
  have "keeps_data A ks k2" "keeps_data A ks k3"
    using assms(3) by (auto simp: k1_def k2_def k3_def keeps_data_def)
  moreover have "keeps_data A k3 k" if "unpend_all (JoinQ t) k3 = Some k" for k
    using that by (rule keeps_unpend_all)
  ultimately have k: "keeps_data A ks k" if "(if m = 8 then unpend_all (JoinQ t) k3 else Some k2) = Some k" for k
    using that by (auto intro: keeps_data_trans split: if_splits)
  have tail: "keeps_data A k (clear_halting t k)" "keeps_data A k (z_dummy_thread_init d k)"
      "keeps_data A k (update_cache b k)" for k :: "'a kernel_scheme" and b
  proof -
    show "keeps_data A k (clear_halting t k)" "keeps_data A k (update_cache b k)"
      by (simp_all add: clear_halting_def keeps_data_def)
    show "keeps_data A k (z_dummy_thread_init d k)"
      using assms(2) by (auto simp: z_dummy_thread_init_def Let_def keeps_data_def upd_thread_def z_is_thread_state_set_def)
  qed
  define r where "r = (if m = 8 then unpend_all (JoinQ t) k3 else Some k2)"
  define D where "D \<longleftrightarrow> m \<noteq> 16 \<and> m = 8 \<and> t = current k2 \<and> in_isr k2"
  let ?f = "\<lambda>k. clear_halting t (if D then z_dummy_thread_init d (update_cache True k) else update_cache True k)"
  have "halt_thread d t m ks = map_option ?f r" if "thread_state (threads ks t) AND m = 0"
    using that unfolding halt_thread_def Let_def k1_def [symmetric] k2_def [symmetric] r_def D_def
    by (auto simp: k3_def)
  moreover have "keeps_data A ks (?f k)" if "r = Some k" for k
    using that k [of k] tail keeps_data_trans unfolding r_def by (metis (full_types))
  ultimately show ?thesis
    using assms(1) by (cases "thread_state (threads ks t) AND m = 0"; cases r) (auto simp: halt_thread_def keeps_data_def)
qed

lemma keeps_swap_cond: "keeps_data A ks k \<Longrightarrow> keeps_data A ks (if c then z_swap k else k)"
  by (simp add: keeps_data_def)

lemma keeps_halt:
  "z_thread_halt d t b ks = Some ks' \<Longrightarrow> d \<in> A \<Longrightarrow> \<not> b \<or> t \<in> A \<Longrightarrow> keeps_data A ks ks'"
  unfolding z_thread_halt_def map_option_eq_Some
  by (cases b; elim exE conjE) (auto dest!: keeps_halt_thread [where A = A] intro: keeps_swap_cond split del: if_split)

text \<open>An aborted thread waits nowhere.\<close>

lemma halt_not_waiting:
  assumes "halt_thread d t 8 ks = Some ks'" and "sched_inv ks" and "thread_state (threads ks t) AND 8 = 0"
  shows "t \<notin> set (waitqs ks' q)"
proof -
  define k1 where "k1 = set_state_bits t 8 ks"
  define k2 where "k2 = (if z_is_thread_queued k1 t then dequeue_thread t k1 else k1)"
  define k3 where "k3 = snd (z_abort_thread_timeout t
    (if pended_on (threads k2 t) \<noteq> None then unpend_thread_no_timeout t k2 else k2))"
  have 2: "waitqs k2 = waitqs ks" "pended_on (threads k2 t) = pended_on (threads ks t)"
    by (simp_all add: k1_def k2_def)
  have "t \<notin> set (waitqs k3 p)" for p
    using waitq_pended [OF assms(2)] 2 by (auto simp: k3_def waitqs_unpend)
  moreover obtain k where k: "unpend_all (JoinQ t) k3 = Some k" "waitqs ks' = waitqs k"
    using assms(1,3) unfolding halt_thread_def Let_def k1_def [symmetric] k2_def [symmetric]
    by (auto simp: k3_def clear_halting_def z_dummy_thread_init_def split: if_splits)
  moreover have "subseq (waitqs k q) (waitqs k3 q)"
    using shrinks_unpend_all [OF k(1), of "{}"] by (simp add: shrinks_def)
  ultimately show ?thesis using set_subseq by (metis subsetD)
qed

lemma keeps_wake_thread: "keeps_data A ks (z_sched_wake_thread t b ks)"
  by (simp add: z_sched_wake_thread_def Let_def keeps_data_def thread_mark_defs)

lemma keeps_expiry: "keeps_data A ks (kernel_expiry to ks)"
  by (auto simp: kernel_expiry_def z_thread_timeout_def slice_timeout_def keeps_wake_thread split: toid.split)
    (simp_all add: keeps_data_def)

lemma keeps_announce_loop:
  "announce_loop fn ks log = Some (ks', log') \<Longrightarrow> (\<And>to ks. keeps_data A ks (fn to ks)) \<Longrightarrow> keeps_data A ks ks'"
proof (induction fn ks log "(ks', log')" rule: announce_loop.raw_induct [rotated, consumes 1, case_names step])
  case (step loop fn ks log)
  show ?case
  proof (cases "first ks")
    case (Some x)
    obtain t d where x: "first ks = Some (t, d)"
      using Some by (cases x) simp
    let ?k = "fn t (ks\<lparr>curr_tick := curr_tick ks + d, timeout_list := remove_timeout t ((t, 0) # tl (timeout_list ks))\<rparr>)"
    let ?k' = "?k\<lparr>announce_remaining := announce_remaining ?k - d\<rparr>"
    have "keeps_data A ?k' ks'" if "d \<le> announce_remaining ks"
      using step(2) x that by (intro step(1) [of fn ?k' "log @ [(t, curr_tick ks + d)]"] step(3)) (simp add: Let_def)
    moreover have "keeps_data A ks ?k'"
      using step(3) [of "ks\<lparr>curr_tick := curr_tick ks + d, timeout_list := remove_timeout t ((t, 0) # tl (timeout_list ks))\<rparr>" t]
      by (simp add: keeps_data_def z_is_thread_state_set_def)
    ultimately show ?thesis
      using step(2) x by (cases "d \<le> announce_remaining ks") (auto intro: keeps_data_trans simp: keeps_data_def)
  qed (use step(2) in \<open>auto simp: keeps_data_def\<close>)
qed

lemma keeps_announce_end: "keeps_data A ks (z_time_slice ks)" "keeps_data A ks (announce_finish ks)"
proof -
  show "keeps_data A ks (z_time_slice ks)"
    by (simp add: z_time_slice_def move_thread_to_end_of_prio_q_def Let_def keeps_data_def)
  show "keeps_data A ks (announce_finish ks)"
    by (simp add: keeps_data_def z_is_thread_state_set_def announce_finish_same)
qed

lemma keeps_announce:
  assumes "sys_clock_announce kernel_expiry z_time_slice n ks = Some (ks', log)"
  shows "keeps_data A ks ks'"
proof -
  obtain k log' where k: "announce_loop kernel_expiry (ks\<lparr>announce_remaining := n\<rparr>) [] = Some (k, log')"
      "ks' = z_time_slice (announce_finish k)"
    using assms by (auto simp: sys_clock_announce_def map_option_eq_Some)
  have "keeps_data A (ks\<lparr>announce_remaining := n\<rparr>) k"
    by (rule keeps_announce_loop [OF k(1) keeps_expiry])
  moreover have "keeps_data A ks (ks\<lparr>announce_remaining := n\<rparr>)" by (simp add: keeps_data_def z_is_thread_state_set_def)
  ultimately show ?thesis using keeps_announce_end k(2) by (metis keeps_data_trans)
qed

lemma keeps_wakeup: "keeps_data A ks (k_wakeup t ks)"
proof -
  obtain r k where a: "z_abort_thread_timeout t ks = (r, k)" by fastforce
  then have "threads k = threads ks" using abort_thread_fields(1) [of t ks] by simp
  then show ?thesis
    by (simp add: k_wakeup_def a Let_def keeps_data_def thread_mark_defs z_is_thread_state_set_def [of k]
        z_is_thread_state_set_def [of ks])
qed

lemma keeps_calls:
  "keeps_data A ks (k_yield ks)" "keeps_data A ks (snd (snd (z_tick_sleep ticks ks)))"
  "keeps_data A ks (snd (k_thread_join t w ks))" "keeps_data A ks (z_pend_curr q w ks)"
  "keeps_data A ks (k_thread_resume t ks)" "keeps_data A ks (z_sched_start t ks)"
  "keeps_data A ks (k_thread_priority_set t p ks)" "keeps_data A ks (k_sched_lock ks)" "keeps_data A ks (k_sched_unlock ks)"
  "keeps_data A ks (k_sched_time_slice_set ticks p ks)"
  by (simp_all add: keeps_data_def k_yield_def z_tick_sleep_def k_thread_join_def z_pend_curr_def pend_locked_def
      k_thread_resume_def z_sched_start_def k_thread_priority_set_def z_thread_prio_set_def
      k_sched_lock_def k_sched_unlock_def k_sched_time_slice_set_def z_reschedule_unlocked_eq Let_def thread_mark_defs
      set_prio_def split: prod.splits)

lemma keeps_irq:
  "keeps_data A ks (ks\<lparr>hw_elapsed := n\<rparr>)" "keeps_data A ks (ks\<lparr>irq_unlocked := b\<rparr>)" "keeps_data A ks (ks\<lparr>in_isr := c\<rparr>)"
  "keeps_data A ks ((snd (z_get_next_switch_handle ks))\<lparr>in_isr := c\<rparr>)"
  by (simp_all add: keeps_data_def z_is_thread_state_set_def z_get_next_switch_handle_def)

lemma keeps_create:
  assumes "t \<in> A"
  shows "keeps_data A ks (k_thread_create t p opts w ks)"
proof -
  have "keeps_data A ks (z_setup_new_thread t p opts ks)"
    using assms by (auto simp: keeps_data_def z_setup_new_thread_def z_init_thread_base_def z_waitq_init_def Let_def
        upd_thread_def z_is_thread_state_set_def)
  moreover have "keeps_data A ks (z_add_timeout to w k)" if "keeps_data A ks k" for to k
    using that by (simp add: keeps_data_def)
  ultimately show ?thesis
    unfolding k_thread_create_def thread_schedule_new_def k_thread_start_def Let_def
    using keeps_data_trans [OF _ keeps_calls(6)] by auto
qed

text \<open>A step of the rest of the kernel, seen by an object that owns the queues outside \<open>Q\<close>: threads that go on
  waiting for the object keep what they left for it, and are alive if they were.\<close>

definition undisturbed :: "wq set \<Rightarrow> 'a kernel_scheme \<Rightarrow> 'a kernel_scheme \<Rightarrow> bool" where
  "undisturbed Q ks ks' \<longleftrightarrow> shrinks Q ks ks' \<and>
     (\<forall>q t. q \<notin> Q \<longrightarrow> t \<in> set (waitqs ks' q) \<longrightarrow> wait_data (threads ks' t) = wait_data (threads ks t) \<and>
        z_is_thread_state_set ks' t THREAD_DEAD = z_is_thread_state_set ks t THREAD_DEAD)"

lemma undisturbedI:
  assumes "shrinks Q ks ks'" and "keeps_data A ks ks'" and "\<And>q. q \<notin> Q \<Longrightarrow> A \<inter> set (waitqs ks' q) = {}"
  shows "undisturbed Q ks ks'"
  using assms unfolding undisturbed_def keeps_data_def by blast

text \<open>Threads that are not waiting for the object may be changed freely.\<close>

lemma undisturbed_others:
  assumes "shrinks Q ks ks'" and "keeps_data A ks ks'" and "sched_inv ks"
    and "\<And>u q. u \<in> A \<Longrightarrow> pended_on (threads ks u) = Some q \<Longrightarrow> q \<in> Q"
  shows "undisturbed Q ks ks'"
proof (rule undisturbedI [OF assms(1,2)])
  show "A \<inter> set (waitqs ks' q) = {}" if "q \<notin> Q" for q
    using that assms(1,4) set_subseq [of "waitqs ks' q" "waitqs ks q"] waitq_pended(1) [OF assms(3)]
    by (auto simp: shrinks_def)
qed

lemma kstep_undisturbed:
  assumes "kstep d Q ks ks'" and "system_ok d ks"
  shows "undisturbed (Q \<union> range JoinQ) ks ks'"
proof -
  note s = kstep_shrinks [OF assms(1)]
  have inv: "sched_inv ks" and d: "pended_on (threads ks d) = None"
    using assms(2) by (auto simp: system_ok_def kernel_ok_but_def base_ok_def dummy_ok_def)
  note oth = undisturbed_others [OF s _ inv]
  have none: "undisturbed (Q \<union> range JoinQ) ks ks'" if "keeps_data {} ks ks'"
    using that by (intro oth [of "{}"]) auto
  have wakes: "undisturbed (Q \<union> range JoinQ) ks ks'" if "keeps_data (set (waitqs ks q)) ks ks'" "q \<in> Q" for q
    using that waitq_pended(1) [OF inv] by (intro oth [of "set (waitqs ks q)"]) auto
  from assms(1) show ?thesis
  proof (cases rule: kstep.cases)
    case (suspend t)
    have "keeps_data {d} ks (snd (z_abort_thread_timeout t ks))" by (simp add: keeps_data_def)
    then have "keeps_data {d} ks ks'"
      using suspend unfolding k_thread_suspend_def Let_def
      by (auto split: if_splits intro: keeps_data_trans keeps_halt)
    then show ?thesis using d by (intro oth [of "{d}"]) auto
  next
    case (abort t)
    show ?thesis
    proof (cases "thread_state (threads ks t) AND 8 = 0")
      case True
      then have h: "z_thread_halt d t True ks = Some ks'"
        using abort by (auto simp: z_thread_abort_def split: if_splits)
      then have "keeps_data {d, t} ks ks'" by (rule keeps_halt) auto
      moreover obtain k where "halt_thread d t 8 ks = Some k" "waitqs ks' = waitqs k"
        using h by (auto simp: z_thread_halt_def)
      then have "t \<notin> set (waitqs ks' q)" for q using halt_not_waiting [OF _ inv True] by metis
      moreover have "d \<notin> set (waitqs ks' q)" if "q \<notin> Q \<union> range JoinQ" for q
        using that s d set_subseq [of "waitqs ks' q" "waitqs ks q"] waitq_pended(1) [OF inv]
        by (auto simp: shrinks_def)
      ultimately show ?thesis by (intro undisturbedI [OF s, of "{d, t}"]) auto
    next
      case False
      then show ?thesis using abort none by (auto simp: z_thread_abort_def split: if_splits)
    qed
  next
    case (create t p opts w)
    then show ?thesis using keeps_create [of t "{t}" ks p opts w]
      by (intro oth [of "{t}"]) (auto simp: unused_thread_def)
  next
    case (wake_all q v a b k)
    then have "keeps_data (set (waitqs ks q)) ks k"
      unfolding z_sched_wake_all_def by (intro keeps_wake_all) auto
    then show ?thesis using wake_all by (intro wakes [of q]) (auto simp: keeps_data_def)
  next
    case (unpend_all q b k)
    then have "keeps_data {} ks k"
      unfolding z_unpend_all_def by (intro keeps_z_unpend_all)
    then show ?thesis using unpend_all by (intro none) (simp add: keeps_data_def)
  next
    case (wake q v a)
    then show ?thesis
      using keeps_sched_wake [of ks q "set (waitqs ks q)" v a] by (intro wakes [of q]) (auto simp: keeps_data_def)
  next
    case (tick n log)
    then show ?thesis by (intro none) (rule keeps_announce)
  qed (rule none, simp add: keeps_wakeup keeps_calls keeps_irq)+
qed

subsection \<open>An example state\<close>

text \<open>Thread 5 waits on queue 100, thread 6 is ready, the main thread runs.\<close>

definition one_waiting :: kernel where
  "one_waiting = k_yield (z_pend_curr (Some (ObjQ 100)) K_FOREVER (k_yield (k_thread_create 6 0 0 K_NO_WAIT two_threads)))"

lemma one_waiting_state:
  "current one_waiting = 2 \<and> idle_thread one_waiting = 3 \<and> in_isr one_waiting = False \<and>
   waitqs one_waiting (ObjQ 100) = [5] \<and> prio (threads one_waiting 6) = 0 \<and>
   swap_retval (threads one_waiting 2) = Inl EAGAIN"
  by code_simp

lemma one_waiting_ok: "system_ok 1 one_waiting"
proof -
  let ?k1 = "k_thread_create 6 0 0 K_NO_WAIT two_threads"
  let ?k3 = "z_pend_curr (Some (ObjQ 100)) K_FOREVER (k_yield ?k1)"
  have "unused_thread 6 two_threads"
    by code_simp
  then have "system_ok 1 ?k1"
    using two_threads_ok by (auto simp: system_ok_def intro!: inv_intros)
  moreover have "may_block ?k1" "may_block (k_yield ?k1)" "may_block ?k3"
    by code_simp+
  ultimately have "system_ok 1 (k_yield ?k3)"
    using kstep_ok [OF kstep.yield] pend_curr(1) by blast
  then show ?thesis
    by (simp add: one_waiting_def)
qed

subsection \<open>The contract of a kernel object\<close>

text \<open>
  \<open>calls\<close> relates the object and the kernel before and after one call; \<open>qs\<close> are the wait queues the
  object embeds; \<open>I\<close> relates the object to the threads waiting in them.
\<close>

definition object_ok :: "tid \<Rightarrow> ('o \<Rightarrow> 'a kernel_scheme \<Rightarrow> bool) \<Rightarrow> 'o \<times> 'a kernel_scheme \<Rightarrow> bool" where
  "object_ok d I s \<longleftrightarrow> system_ok d (snd s) \<and> I (fst s) (snd s)"

lemma object_ok_simps [simp]: "object_ok d I (ob, ks) \<longleftrightarrow> system_ok d ks \<and> I ob ks"
  by (simp add: object_ok_def)

inductive interleaved ::
    "tid \<Rightarrow> wq set \<Rightarrow> ('o \<times> 'a kernel_scheme \<Rightarrow> 'o \<times> 'a kernel_scheme \<Rightarrow> bool) \<Rightarrow>
     'o \<times> 'a kernel_scheme \<Rightarrow> 'o \<times> 'a kernel_scheme \<Rightarrow> bool" for d qs calls s where
  start: "interleaved d qs calls s s"
| call: "interleaved d qs calls s t \<Longrightarrow> calls t u \<Longrightarrow> interleaved d qs calls s u"
| other: "interleaved d qs calls s (ob, ks) \<Longrightarrow> kstep d (- qs) ks ks' \<Longrightarrow> interleaved d qs calls s (ob, ks')"

locale kernel_object =
  fixes d :: tid and qs :: "wq set"
    and calls :: "'o \<times> 'a kernel_scheme \<Rightarrow> 'o \<times> 'a kernel_scheme \<Rightarrow> bool"
    and I :: "'o \<Rightarrow> 'a kernel_scheme \<Rightarrow> bool"
  assumes own: "qs \<inter> range JoinQ = {}"
    and shrink: "I ob ks \<Longrightarrow> undisturbed (- qs) ks ks' \<Longrightarrow> I ob ks'"
    and calls_ok: "calls s t \<Longrightarrow> object_ok d I s \<Longrightarrow> object_ok d I t"
begin

lemma other_ok:
  assumes "kstep d (- qs) ks ks'" and "I ob ks" and "system_ok d ks"
  shows "I ob ks'"
proof -
  have "- qs \<union> range JoinQ = - qs" using own by blast
  then show ?thesis
    using kstep_undisturbed [OF assms(1,3)] by (intro shrink [OF assms(2)]) simp
qed

lemma interleaved_ok: "interleaved d qs calls s t \<Longrightarrow> object_ok d I s \<Longrightarrow> object_ok d I t"
proof (induction rule: interleaved.induct)
  case (call t u)
  then show ?case using calls_ok by blast
next
  case (other ob1 ks1 ks2)
  then show ?case using kstep_ok [of d "- qs" ks1 ks2] other_ok [of ks1 ks2 ob1] by simp
qed

end

end
