(* ===== verification/Kernel_Types.thy ===== *)
theory Kernel_Types
  imports Kernel_Object
begin

text \<open>
  The \<^verbatim>\<open>int8_t\<close> field \<^verbatim>\<open>prio\<close> of a thread is an integer of the model.  The theory shows that it stays in the range of its C type
  in every reachable state, so that the test whether a thread is preemptible, which reads \<^verbatim>\<open>prio\<close> and \<^verbatim>\<open>sched_locked\<close> as one
  16-bit number, means what it should.
\<close>

definition typed :: "'a kernel_scheme \<Rightarrow> bool" where
  "typed ks \<longleftrightarrow> (\<forall>t. - 128 \<le> prio (threads ks t) \<and> prio (threads ks t) < 128)"

subsection \<open>What keeps the priorities\<close>

lemma typed_upd:
  "(\<And>th. prio (f th) = prio th) \<Longrightarrow> typed ks \<Longrightarrow> typed (upd_thread t f ks)"
  "(\<And>th. prio (g th) = to_int8 p) \<Longrightarrow> typed ks \<Longrightarrow> typed (upd_thread t g ks)"
  using to_int8_range [of p] by (auto simp: typed_def upd_thread_def)

lemma typed_fields [simp]:
  "typed (set_state_bits t m ks) = typed ks" "typed (clear_state_bits t m ks) = typed ks"
  "typed (queue_thread t ks) = typed ks" "typed (dequeue_thread t ks) = typed ks"
  "typed (ready_thread t ks) = typed ks" "typed (unready_thread t ks) = typed ks"
  "typed (unpend_thread_no_timeout t ks) = typed ks" "typed (snd (z_abort_thread_timeout t ks)) = typed ks"
  "typed (z_swap ks) = typed ks" "typed (z_reschedule ks) = typed ks" "typed (update_cache b ks) = typed ks"
  "typed (z_reset_time_slice t ks) = typed ks" "typed (z_add_timeout to w ks) = typed ks"
  "typed (arch_thread_return_value_set t v ks) = typed ks" "typed (add_thread_timeout t w ks) = typed ks"
  "typed (add_to_waitq_locked t q ks) = typed ks" "typed (z_dummy_thread_init d ks) = typed ks"
  by (simp_all add: typed_def swap_fields reschedule_fields upd_thread_def arch_thread_return_value_set_def
      add_thread_timeout_def add_to_waitq_locked_def waitq_add_def thread_mark_defs Let_def split: option.split) metis+

lemma typed_records [simp]:
  "typed (ks\<lparr>slice_ticks := x, slice_max_prio := y\<rparr>) = typed ks" "typed (ks\<lparr>hw_elapsed := n\<rparr>) = typed ks"
  "typed (ks\<lparr>irq_unlocked := b\<rparr>) = typed ks" "typed (ks\<lparr>in_isr := c\<rparr>) = typed ks" "typed (ks\<lparr>announce_remaining := n\<rparr>) = typed ks"
  "typed (snd (z_get_next_switch_handle ks)) = typed ks"
  "typed (ks\<lparr>curr_tick := n, timeout_list := l\<rparr>) = typed ks"
  by (simp_all add: typed_def z_get_next_switch_handle_def)

lemma typed_unpend_all: "unpend_all q ks = Some ks' \<Longrightarrow> typed ks \<Longrightarrow> typed ks'"
proof (induction rule: unpend_all.raw_induct [rotated, consumes 1, case_names step])
  case (step unp q ks ks')
  then show ?case by (auto simp: Let_def split: option.splits)
qed

lemma typed_z_unpend_all: "z_unpend_all_loop q b ks = Some (b', ks') \<Longrightarrow> typed ks \<Longrightarrow> typed ks'"
proof (induction q b ks "(b', ks')" rule: z_unpend_all_loop.raw_induct [rotated, consumes 1, case_names step])
  case (step loop q b ks)
  then show ?case
    by (auto simp: Let_def z_ready_thread_def z_unpend_thread_def z_unpend_thread_no_timeout_def split: option.splits)
qed

lemma typed_sched_wake: "typed ks \<Longrightarrow> typed (snd (z_sched_wake q v a ks))"
  by (auto simp: z_sched_wake_def Let_def z_thread_return_value_set_with_data_def split: option.split intro: typed_upd)

lemma typed_wake_all: "wake_all_loop q v a b ks = Some (b', ks') \<Longrightarrow> typed ks \<Longrightarrow> typed ks'"
proof (induction q v a b ks "(b', ks')" rule: wake_all_loop.raw_induct [rotated, consumes 1, case_names step])
  case (step loop q v a b ks)
  then show ?case using typed_sched_wake [of ks q v a] by (auto split: prod.splits if_splits)
qed

lemma typed_halt_thread: "halt_thread d t m ks = Some ks' \<Longrightarrow> typed ks \<Longrightarrow> typed ks'"
  by (auto simp: halt_thread_def Let_def clear_halting_def typed_unpend_all split: if_splits)

lemma typed_halt: "z_thread_halt d t b ks = Some ks' \<Longrightarrow> typed ks \<Longrightarrow> typed ks'"
  by (auto simp: z_thread_halt_def typed_halt_thread split: if_splits)

lemma typed_wake_thread: "typed ks \<Longrightarrow> typed (z_sched_wake_thread t b ks)"
  by (simp add: z_sched_wake_thread_def Let_def thread_mark_defs typed_upd)

lemma typed_calls:
  "typed ks \<Longrightarrow> typed (k_yield ks)" "typed ks \<Longrightarrow> typed (snd (snd (z_tick_sleep ticks ks)))"
  "typed ks \<Longrightarrow> typed (snd (k_thread_join t w ks))" "typed ks \<Longrightarrow> typed (z_pend_curr q w ks)"
  "typed ks \<Longrightarrow> typed (k_thread_resume t ks)" "typed ks \<Longrightarrow> typed (z_sched_start t ks)"
  "typed ks \<Longrightarrow> typed (k_thread_priority_set t p ks)" "typed ks \<Longrightarrow> typed (k_sched_lock ks)" "typed ks \<Longrightarrow> typed (k_sched_unlock ks)"
  "typed ks \<Longrightarrow> typed (k_sched_time_slice_set ticks p ks)"
  by (simp_all add: k_yield_def z_tick_sleep_def k_thread_join_def z_pend_curr_def pend_locked_def
      k_thread_resume_def z_sched_start_def k_thread_priority_set_def z_thread_prio_set_def
      k_sched_lock_def k_sched_unlock_def k_sched_time_slice_set_def z_reschedule_unlocked_eq Let_def thread_mark_defs
      set_prio_def typed_upd split: prod.splits)

lemma typed_expiry: "typed ks \<Longrightarrow> typed (kernel_expiry to ks)"
  by (auto simp: kernel_expiry_def z_thread_timeout_def slice_timeout_def typed_wake_thread split: toid.split)
    (simp_all add: typed_def)

lemma typed_announce_loop:
  "announce_loop fn ks log = Some (ks', log') \<Longrightarrow> (\<And>to ks. typed ks \<Longrightarrow> typed (fn to ks)) \<Longrightarrow> typed ks \<Longrightarrow> typed ks'"
proof (induction fn ks log "(ks', log')" rule: announce_loop.raw_induct [rotated, consumes 1, case_names step])
  case (step loop fn ks log)
  then show ?case by (auto simp: Let_def split: option.splits if_splits)
qed

lemma typed_announce:
  assumes "sys_clock_announce kernel_expiry z_time_slice n ks = Some (ks', log)" and "typed ks"
  shows "typed ks'"
proof -
  obtain k log' where k: "announce_loop kernel_expiry (ks\<lparr>announce_remaining := n\<rparr>) [] = Some (k, log')"
      "ks' = z_time_slice (announce_finish k)"
    using assms(1) by (auto simp: sys_clock_announce_def map_option_eq_Some)
  have "typed k"
    using typed_announce_loop [OF k(1) typed_expiry] assms(2) by simp
  then show ?thesis
    unfolding k(2) by (simp add: z_time_slice_def move_thread_to_end_of_prio_q_def Let_def typed_def announce_finish_same)
qed

lemma typed_wakeup: "typed ks \<Longrightarrow> typed (k_wakeup t ks)"
proof (cases "z_abort_thread_timeout t ks")
  case (Pair r k)
  then show "typed ks \<Longrightarrow> ?thesis"
    using typed_fields(8) [of t ks] by (simp add: k_wakeup_def Let_def thread_mark_defs)
qed

lemma typed_setup: "typed ks \<Longrightarrow> typed (z_setup_new_thread t p opts ks)"
  by (auto simp: z_setup_new_thread_def z_init_thread_base_def z_waitq_init_def typed_def upd_thread_def Let_def to_int8_range)

lemma typed_create: "typed ks \<Longrightarrow> typed (k_thread_create t p opts w ks)"
  by (auto simp: k_thread_create_def thread_schedule_new_def k_thread_start_def Let_def intro: typed_setup typed_calls(6))

lemma kstep_typed: "kstep d Q ks ks' \<Longrightarrow> typed ks \<Longrightarrow> typed ks'"
  by (cases rule: kstep.cases, assumption)
    (auto simp: typed_calls typed_sched_wake typed_wakeup typed_create z_sched_wake_all_def z_unpend_all_def
      k_thread_suspend_def z_thread_abort_def Let_def split: if_splits dest: typed_wake_all typed_z_unpend_all typed_announce typed_halt)

lemma typed_boot: "typed (boot ticks p mp ip d main idle)"
proof -
  have "typed (ks\<lparr>idle_thread := c\<rparr>) = typed ks" "typed (ks\<lparr>cache := c\<rparr>) = typed ks" "typed (bss_kernel ticks p)"
      "typed (init_ready_q ks) = typed ks" for ks :: kernel and c
    by (simp_all add: typed_def bss_kernel_def blank_thread_def init_ready_q_def)
  moreover have "typed (do_swap ks) = typed ks" for ks :: kernel
    using typed_fields(9) [of ks] by (simp add: z_swap_def)
  ultimately show ?thesis
    by (auto simp: boot_def z_cstart_def prepare_multithreading_def switch_to_main_thread_def z_swap_unlocked_def
        z_init_cpu_def init_idle_thread_def z_sched_init_def z_ready_thread_def thread_mark_defs Let_def
        intro!: typed_setup)
qed

subsection \<open>Properties\<close>

text \<open>C2: In every reachable state the priority of each thread is in the range of its type \<^verbatim>\<open>int8_t\<close>, and so a thread is
  preemptible exactly when its priority is not negative and it has not locked the scheduler.\<close>

theorem priorities_keep_type:
  assumes "reachable ticks p mp ip d main idle ks"
  shows "- 128 \<le> prio (threads ks t) \<and> prio (threads ks t) \<le> 127 \<and>
    (thread_is_preemptible ks t \<longleftrightarrow> sched_locked (threads ks t) = 0 \<and> 0 \<le> prio (threads ks t))"
proof -
  have "typed ks"
    using assms by (induction rule: reachable.induct) (auto intro: typed_boot kstep_typed)
  then have "- 128 \<le> prio (threads ks t)" "prio (threads ks t) < 128"
    by (simp_all add: typed_def)
  then show ?thesis
    using thread_is_preemptible_iff [of ks t] by simp
qed

theorem priorities_keep_type_witness:
  "thread_is_preemptible (k_thread_priority_set 2 200 (boot 0 0 0 15 1 2 3)) 2 \<longleftrightarrow> False"
proof -
  let ?b = "boot 0 0 0 15 1 2 3"
  have "user_thread 1 2 ?b" "\<not> in_isr ?b" "prio (threads (k_thread_priority_set 2 200 ?b) 2) = - 56"
    by code_simp+
  then have "reachable 0 0 0 15 1 2 3 (k_thread_priority_set 2 200 ?b)"
    by (intro reachable.reach_step [OF reachable.reach_boot] kstep.prio)
  then show ?thesis
    using priorities_keep_type [of 0 0 0 15 1 2 3 "k_thread_priority_set 2 200 ?b" 2] \<open>prio _ = _\<close> by simp
qed

end
