(* ===== verification/Sem.thy ===== *)
theory Sem
  imports Kernel_Object
begin

text \<open>
  Counting semaphores (\<^verbatim>\<open>kernel/sem.c\<close>).  A semaphore is its count and limit; its wait queue is
  \<open>ObjQ a\<close> for the semaphore at address \<open>a\<close>.  Under every interleaving of calls with other kernel
  activity the count stays within the limit and no thread waits while a token is left.
\<close>

subsection \<open>The operations\<close>

record k_sem =
  count :: u32
  limit :: u32

definition k_sem_init :: "addr \<Rightarrow> u32 \<Rightarrow> u32 \<Rightarrow> k_sem \<Rightarrow> 'a kernel_scheme \<Rightarrow> retval \<times> k_sem \<times> 'a kernel_scheme" where
  "k_sem_init a initial_count lim sem ks =
     (if lim = 0 \<or> initial_count > lim then (Inl EINVAL, sem, ks)
      else (let sem = sem\<lparr>count := initial_count\<rparr>; sem = sem\<lparr>limit := lim\<rparr>
            in (ret_ok, sem, z_waitq_init (ObjQ a) ks)))"

text \<open>\<^verbatim>\<open>handle_poll_events\<close> without \<^verbatim>\<open>CONFIG_POLL\<close>.\<close>

definition handle_poll_events :: bool where
  "handle_poll_events = False"

definition k_sem_give :: "addr \<Rightarrow> k_sem \<Rightarrow> 'a kernel_scheme \<Rightarrow> k_sem \<times> 'a kernel_scheme" where
  "k_sem_give a sem ks =
     (case z_unpend_first_thread (ObjQ a) ks of
        (Some thread, ks) \<Rightarrow>
          (let ks = arch_thread_return_value_set thread ret_ok ks;
               ks = z_ready_thread thread ks
           in (sem, z_reschedule ks))
      | (None, ks) \<Rightarrow>
          (let sem = sem\<lparr>count := count sem + (if count sem \<noteq> limit sem then 1 else 0)\<rparr>
           in (sem, if handle_poll_events then z_reschedule ks else ks)))"

definition k_sem_take :: "addr \<Rightarrow> k_timeout \<Rightarrow> k_sem \<Rightarrow> 'a kernel_scheme \<Rightarrow> retval outcome \<times> k_sem \<times> 'a kernel_scheme" where
  "k_sem_take a timeout sem ks =
     (if count sem > 0 then (Done ret_ok, sem\<lparr>count := count sem - 1\<rparr>, ks)
      else if timeout = K_NO_WAIT then (Done (Inl EBUSY), sem, ks)
      else (Blocked, sem, z_pend_curr (Some (ObjQ a)) timeout ks))"

partial_function (option) sem_reset_loop :: "addr \<Rightarrow> 'a kernel_scheme \<Rightarrow> 'a kernel_scheme option" where
  "sem_reset_loop a ks =
     (case z_unpend_first_thread (ObjQ a) ks of
        (thread, ks) \<Rightarrow>
          if thread = None then Some ks
          else (let ks = arch_thread_return_value_set (the thread) (Inl EAGAIN) ks;
                    ks = z_ready_thread (the thread) ks
                in sem_reset_loop a ks))"

definition k_sem_reset :: "addr \<Rightarrow> k_sem \<Rightarrow> 'a kernel_scheme \<Rightarrow> (k_sem \<times> 'a kernel_scheme) option" where
  "k_sem_reset a sem ks = map_option (\<lambda>ks. (sem\<lparr>count := 0\<rparr>, z_reschedule ks)) (sem_reset_loop a ks)"

definition k_sem_count_get :: "k_sem \<Rightarrow> u32" where
  "k_sem_count_get sem = count sem"

subsection \<open>Behaviour\<close>

lemma k_sem_give_empty:
  "waitqs ks (ObjQ a) = [] \<Longrightarrow>
   k_sem_give a sem ks = (sem\<lparr>count := if count sem \<noteq> limit sem then count sem + 1 else limit sem\<rparr>, ks)"
  by (simp add: k_sem_give_def unpend_first_cases handle_poll_events_def)

lemma k_sem_give_waiter:
  "waitqs ks (ObjQ a) = t # ts \<Longrightarrow> k_sem_give a sem ks = (sem, z_reschedule (wake_thread ret_ok t ks))"
  by (simp add: k_sem_give_def unpend_first_cases wake_thread_def)

lemma sem_reset_loop_unfold:
  "sem_reset_loop a ks =
     (case waitqs ks (ObjQ a) of
        [] \<Rightarrow> Some ks
      | t # _ \<Rightarrow> sem_reset_loop a (wake_thread (Inl EAGAIN) t ks))"
  by (subst sem_reset_loop.simps) (simp add: unpend_first_cases wake_thread_def split: list.split)

lemma sem_reset_loop_returns:
  "system_ok d ks \<Longrightarrow> waitqs ks (ObjQ a) = ts \<Longrightarrow> sem_reset_loop a ks = Some (fold (wake_thread (Inl EAGAIN)) ts ks)"
proof (induction ts arbitrary: ks)
  case (Cons t ts)
  then show ?case
    using wake_first(1,2) [of d ks "ObjQ a" t ts "Inl EAGAIN"] by (simp add: sem_reset_loop_unfold [of a ks])
qed (simp add: sem_reset_loop_unfold)

subsection \<open>The semaphore as a kernel object\<close>

inductive sem_calls :: "addr \<Rightarrow> k_sem \<times> 'a kernel_scheme \<Rightarrow> k_sem \<times> 'a kernel_scheme \<Rightarrow> bool" for a where
  give: "sem_calls a (sem, ks) (k_sem_give a sem ks)"
| take: "timeout = K_NO_WAIT \<or> may_block ks \<Longrightarrow> sem_calls a (sem, ks) (snd (k_sem_take a timeout sem ks))"
| reset: "k_sem_reset a sem ks = Some s \<Longrightarrow> sem_calls a (sem, ks) s"

definition sem_inv :: "addr \<Rightarrow> k_sem \<Rightarrow> 'a kernel_scheme \<Rightarrow> bool" where
  "sem_inv a sem ks \<longleftrightarrow> count sem \<le> limit sem \<and> (waitqs ks (ObjQ a) \<noteq> [] \<longrightarrow> count sem = 0)"

lemma word_incr_le: "c \<le> l \<Longrightarrow> c \<noteq> l \<Longrightarrow> c + 1 \<le> (l :: u32)"
  by (metis inc_le order_le_less)

lemma word_decr_le: "c \<le> l \<Longrightarrow> c \<noteq> 0 \<Longrightarrow> c - 1 \<le> (l :: u32)"
  using unat_minus_one [of c] by (cases "c = 0") (auto simp: word_le_nat_alt)

lemma sem_give_ok:
  assumes "object_ok d (sem_inv a) (sem, ks)"
  shows "object_ok d (sem_inv a) (k_sem_give a sem ks)"
proof (cases "waitqs ks (ObjQ a)")
  case Nil
  then show ?thesis
    using assms by (auto simp: k_sem_give_empty sem_inv_def word_incr_le)
next
  case (Cons t ts)
  then show ?thesis
    using assms wake_first(1,2) [OF _ Cons, of d ret_ok]
    by (simp add: k_sem_give_waiter [OF Cons] sem_inv_def system_ok_reschedule)
qed

lemma sem_take_ok:
  assumes "object_ok d (sem_inv a) (sem, ks)" and "timeout = K_NO_WAIT \<or> may_block ks"
  shows "object_ok d (sem_inv a) (snd (k_sem_take a timeout sem ks))"
  using assms pend_curr [of d ks "ObjQ a" timeout]
  by (auto simp: k_sem_take_def sem_inv_def word_decr_le word_gt_0)

lemma k_sem_reset_returns:
  assumes "system_ok d ks"
  shows "k_sem_reset a sem ks = Some (sem\<lparr>count := 0\<rparr>, z_reschedule (fold (wake_thread (Inl EAGAIN)) (waitqs ks (ObjQ a)) ks))"
  by (simp add: k_sem_reset_def sem_reset_loop_returns [OF assms refl])

lemma sem_reset_ok:
  assumes "object_ok d (sem_inv a) (sem, ks)"
  shows "object_ok d (sem_inv a) (sem\<lparr>count := 0\<rparr>, z_reschedule (fold (wake_thread (Inl EAGAIN)) (waitqs ks (ObjQ a)) ks))"
  using assms wake_all_ok [of d ks "ObjQ a" _ "Inl EAGAIN"] by (auto simp: sem_inv_def intro!: inv_intros)

interpretation sem: kernel_object d "{ObjQ a}" "sem_calls a" "sem_inv a" for d a
proof
  show "object_ok d (sem_inv a) t" if "sem_calls a s t" "object_ok d (sem_inv a) s" for s t
    using that
    by (induction rule: sem_calls.induct)
      (auto simp del: object_ok_simps simp: sem_give_ok sem_take_ok sem_reset_ok k_sem_reset_returns [OF conjunct1 [OF object_ok_simps [THEN iffD1]]])
qed (auto simp: sem_inv_def undisturbed_def shrinks_def)

subsection \<open>Properties\<close>

text \<open>C10: From initialisation on, whatever threads and interrupts do in between (give, take, reset, time-outs,
  aborted or suspended waiting threads, scheduling), the count of a semaphore never exceeds its limit, and
  no thread waits for it while a token is available.\<close>

theorem sem_count_bounded:
  assumes "k_sem_init a c l sem ks = (ret_ok, sem0, ks0)" and "system_ok d ks" and "waitqs ks (ObjQ a) = []"
    and "interleaved d {ObjQ a} (sem_calls a) (sem0, ks0) (sem1, ks1)"
  shows "count sem1 \<le> limit sem1 \<and> (waitqs ks1 (ObjQ a) \<noteq> [] \<longrightarrow> count sem1 = 0) \<and> system_ok d ks1"
proof -
  have "ks0 = ks" "sem_inv a sem0 ks"
    using assms(1,3) by (auto simp: k_sem_init_def Let_def sem_inv_def z_waitq_init_empty split: if_splits)
  then show ?thesis
    using sem.interleaved_ok [OF assms(4)] assms(2) by (simp add: sem_inv_def)
qed

theorem sem_count_bounded_witness:
  "count (fst (k_sem_give 100 \<lparr>count = 1, limit = 1\<rparr> two_threads)) \<le> 1"
proof -
  let ?s = "\<lparr>count = 1, limit = 1\<rparr>"
  have q: "waitqs two_threads (ObjQ 100) = []"
    by code_simp
  have "interleaved 1 {ObjQ 100} (sem_calls 100) (?s, two_threads) (k_sem_give 100 ?s two_threads)"
    by (rule interleaved.call [OF interleaved.start]) (rule sem_calls.give)
  then show ?thesis
    using sem_count_bounded [of 100 1 1 ?s two_threads ?s two_threads 1 "fst (k_sem_give 100 ?s two_threads)"
        "snd (k_sem_give 100 ?s two_threads)"] two_threads_ok q
    by (simp add: k_sem_init_def z_waitq_init_empty system_ok_def k_sem_give_empty)
qed



text \<open>\<^verbatim>\<open>k_sem_reset\<close> returns: it empties the wait queue, every thread that waited returns \<^verbatim>\<open>-EAGAIN\<close>, and the
  count is zero.\<close>

lemma sem_reset_returns:
  assumes "system_ok d ks" and "\<not> in_isr ks"
  shows "\<exists>sem' ks'. k_sem_reset a sem ks = Some (sem', ks') \<and> count sem' = 0 \<and> limit sem' = limit sem \<and>
    waitqs ks' (ObjQ a) = [] \<and> (\<forall>t \<in> set (waitqs ks (ObjQ a)). swap_retval (threads ks' t) = Inl EAGAIN \<and>
      pended_on (threads ks' t) = None) \<and> system_ok d ks'"
  using wake_all_ok [OF assms(1) refl, where q = "ObjQ a" and v = "Inl EAGAIN"] waiting_not_current [OF assms(1) _ assms(2)]
  by (fastforce simp: k_sem_reset_returns [OF assms(1)] reschedule_fields intro!: inv_intros)

end
