(* ===== verification/Mutex.thy ===== *)
theory Mutex
  imports Kernel_Object
begin

text \<open>
  Mutexes with priority inheritance (\<^verbatim>\<open>kernel/mutex.c\<close>) and condition variables
  (\<^verbatim>\<open>kernel/condvar.c\<close>).  The wait queue of the mutex at address \<open>a\<close> is \<open>ObjQ a\<close>; a blocking call is
  split at the context switch, and \<open>k_mutex_lock_resume\<close> is the rest of \<^verbatim>\<open>k_mutex_lock\<close>, run when the
  thread runs again with its \<^verbatim>\<open>swap_retval\<close> as the result of \<^verbatim>\<open>z_pend_curr\<close>.
\<close>

subsection \<open>Mutexes\<close>

record k_mutex =
  owner :: "tid option"
  lock_count :: u32
  owner_orig_prio :: int

definition k_mutex_init :: "addr \<Rightarrow> k_mutex \<Rightarrow> 'a kernel_scheme \<Rightarrow> retval \<times> k_mutex \<times> 'a kernel_scheme" where
  "k_mutex_init a mutex ks =
     (let mutex = mutex\<lparr>owner := None\<rparr>; mutex = mutex\<lparr>lock_count := 0\<rparr>
      in (ret_ok, mutex, z_waitq_init (ObjQ a) ks))"

text \<open>\<open>ceiling\<close> is \<^verbatim>\<open>CONFIG_PRIORITY_CEILING\<close>.\<close>

definition z_is_under_prio_ceiling :: "int \<Rightarrow> int \<Rightarrow> bool" where
  "z_is_under_prio_ceiling ceiling p \<longleftrightarrow> p \<ge> ceiling"

definition z_get_new_prio_with_ceiling :: "int \<Rightarrow> int \<Rightarrow> int" where
  "z_get_new_prio_with_ceiling ceiling p = (if z_is_under_prio_ceiling ceiling p then p else ceiling)"

definition new_prio_for_inheritance :: "int \<Rightarrow> int \<Rightarrow> int \<Rightarrow> int" where
  "new_prio_for_inheritance ceiling target lim =
     (let new_prio = (if z_is_prio_higher target lim then target else lim)
      in z_get_new_prio_with_ceiling ceiling new_prio)"

definition adjust_owner_prio :: "k_mutex \<Rightarrow> int \<Rightarrow> 'a kernel_scheme \<Rightarrow> bool \<times> 'a kernel_scheme" where
  "adjust_owner_prio mutex new_prio ks =
     (if prio (threads ks (the (owner mutex))) \<noteq> new_prio
      then z_thread_prio_set (the (owner mutex)) new_prio ks else (False, ks))"

text \<open>The flag is the local variable \<^verbatim>\<open>resched\<close>, needed after the context switch.\<close>

definition k_mutex_lock ::
    "int \<Rightarrow> addr \<Rightarrow> k_timeout \<Rightarrow> k_mutex \<Rightarrow> 'a kernel_scheme \<Rightarrow> retval outcome \<times> bool \<times> k_mutex \<times> 'a kernel_scheme" where
  "k_mutex_lock ceiling a timeout mutex ks =
     (if lock_count mutex = 0 \<or> owner mutex = Some (current ks)
      then (let mutex = mutex\<lparr>owner_orig_prio := if lock_count mutex = 0 then prio (threads ks (current ks))
                                                 else owner_orig_prio mutex\<rparr>;
                mutex = mutex\<lparr>lock_count := lock_count mutex + 1\<rparr>;
                mutex = mutex\<lparr>owner := Some (current ks)\<rparr>
            in (Done ret_ok, False, mutex, ks))
      else if timeout = K_NO_WAIT then (Done (Inl EBUSY), False, mutex, ks)
      else (let owner_prio = prio (threads ks (the (owner mutex)));
                new_prio = new_prio_for_inheritance ceiling (prio (threads ks (current ks))) owner_prio;
                (rs, ks) = (if z_is_prio_higher new_prio owner_prio
                                 then adjust_owner_prio mutex new_prio ks else (False, ks))
            in (Blocked, rs, mutex, z_pend_curr (Some (ObjQ a)) timeout ks)))"

definition k_mutex_lock_resume ::
    "int \<Rightarrow> addr \<Rightarrow> bool \<Rightarrow> k_mutex \<Rightarrow> 'a kernel_scheme \<Rightarrow> retval \<times> k_mutex \<times> 'a kernel_scheme" where
  "k_mutex_lock_resume ceiling a rs mutex ks =
     (let got_mutex = swap_retval (threads ks (current ks))
      in if got_mutex = ret_ok then (ret_ok, mutex, ks)
         else (let (rs, ks) =
                     (if owner mutex \<noteq> None
                      then (let new_prio = (case z_waitq_head ks (ObjQ a) of
                                              Some waiter \<Rightarrow> new_prio_for_inheritance ceiling (prio (threads ks waiter))
                                                               (owner_orig_prio mutex)
                                            | None \<Rightarrow> owner_orig_prio mutex);
                                (r, ks) = adjust_owner_prio mutex new_prio ks
                            in (r \<or> rs, ks))
                      else (rs, ks))
               in (Inl EAGAIN, mutex, if rs then z_reschedule ks else ks)))"

definition k_mutex_unlock :: "addr \<Rightarrow> k_mutex \<Rightarrow> 'a kernel_scheme \<Rightarrow> retval \<times> k_mutex \<times> 'a kernel_scheme" where
  "k_mutex_unlock a mutex ks =
     (if owner mutex = None then (Inl EINVAL, mutex, ks)
      else if owner mutex \<noteq> Some (current ks) then (Inl EPERM, mutex, ks)
      else if lock_count mutex > 1 then (ret_ok, mutex\<lparr>lock_count := lock_count mutex - 1\<rparr>, ks)
      else (let ks = snd (adjust_owner_prio mutex (owner_orig_prio mutex) ks);
                (new_owner, ks) = z_unpend_first_thread (ObjQ a) ks;
                mutex = mutex\<lparr>owner := new_owner\<rparr>
            in case new_owner of
                 Some t \<Rightarrow>
                   (let mutex = mutex\<lparr>owner_orig_prio := prio (threads ks t)\<rparr>;
                        ks = arch_thread_return_value_set t ret_ok ks;
                        ks = z_ready_thread t ks
                    in (ret_ok, mutex, z_reschedule ks))
               | None \<Rightarrow> (ret_ok, mutex\<lparr>lock_count := 0\<rparr>, ks)))"

subsection \<open>Condition variables\<close>

definition k_condvar_init :: "addr \<Rightarrow> 'a kernel_scheme \<Rightarrow> retval \<times> 'a kernel_scheme" where
  "k_condvar_init c ks = (ret_ok, z_waitq_init (ObjQ c) ks)"

definition k_condvar_signal :: "addr \<Rightarrow> 'a kernel_scheme \<Rightarrow> retval \<times> 'a kernel_scheme" where
  "k_condvar_signal c ks =
     (case z_unpend_first_thread (ObjQ c) ks of
        (Some thread, ks) \<Rightarrow>
          (let ks = arch_thread_return_value_set thread ret_ok ks;
               ks = z_ready_thread thread ks
           in (ret_ok, z_reschedule ks))
      | (None, ks) \<Rightarrow> (ret_ok, ks))"

partial_function (option) broadcast_loop :: "addr \<Rightarrow> int \<Rightarrow> 'a kernel_scheme \<Rightarrow> (int \<times> 'a kernel_scheme) option" where
  "broadcast_loop c n ks =
     (case z_unpend_first_thread (ObjQ c) ks of
        (pending_thread, ks) \<Rightarrow>
          if pending_thread = None then Some (n, ks)
          else (let ks = arch_thread_return_value_set (the pending_thread) ret_ok ks;
                    ks = z_ready_thread (the pending_thread) ks
                in broadcast_loop c (n + 1) ks))"

definition k_condvar_broadcast :: "addr \<Rightarrow> 'a kernel_scheme \<Rightarrow> (int \<times> 'a kernel_scheme) option" where
  "k_condvar_broadcast c ks = map_option (\<lambda>(n, ks). (n, z_reschedule ks)) (broadcast_loop c 0 ks)"

text \<open>
  \<open>k_condvar_wait\<close> unlocks the mutex under its own lock, so that the unlock cannot switch threads,
  and then pends the caller; \<open>k_condvar_wait_resume\<close> is the call that locks the mutex again.
\<close>

definition k_condvar_wait ::
    "addr \<Rightarrow> addr \<Rightarrow> k_timeout \<Rightarrow> k_mutex \<Rightarrow> 'a kernel_scheme \<Rightarrow> k_mutex \<times> 'a kernel_scheme" where
  "k_condvar_wait c a timeout mutex ks =
     (let key = irq_unlocked ks;
          (_, mutex, ks) = k_mutex_unlock a mutex (ks\<lparr>irq_unlocked := False\<rparr>)
      in (mutex, z_pend_curr (Some (ObjQ c)) timeout (ks\<lparr>irq_unlocked := key\<rparr>)))"

definition k_condvar_wait_resume ::
    "int \<Rightarrow> addr \<Rightarrow> k_mutex \<Rightarrow> 'a kernel_scheme \<Rightarrow> retval \<times> retval outcome \<times> bool \<times> k_mutex \<times> 'a kernel_scheme" where
  "k_condvar_wait_resume ceiling a mutex ks =
     (swap_retval (threads ks (current ks)), k_mutex_lock ceiling a K_FOREVER mutex ks)"

subsection \<open>Mutexes as kernel objects\<close>

lemma to_prio_set_fields:
  assumes "z_thread_prio_set t p ks = (b, ks')"
  shows "waitqs ks' = waitqs ks" and "current ks' = current ks" and "in_isr ks' = in_isr ks"
    and "idle_thread ks' = idle_thread ks" and "irq_unlocked ks' = irq_unlocked ks" and "mem ks' = mem ks"
    and "prio (threads ks' u) = (if u = t then to_int8 p else prio (threads ks u))"
    and "swap_retval (threads ks' u) = swap_retval (threads ks u)"
    and "pended_on (threads ks' u) = pended_on (threads ks u)"
  using assms
  by (auto simp: z_thread_prio_set_def Let_def set_prio_def upd_thread_def queue_thread_def runq_add_def
      dequeue_thread_def runq_remove_def set_state_bits_def clear_state_bits_def split: if_splits)

lemma base_ok_to_prio_set:
  assumes "base_ok d ks" and "z_thread_prio_set t p ks = (b, ks')"
  shows "base_ok d ks'"
proof -
  have s: "base_ok d k \<Longrightarrow> base_ok d (set_prio t p k)" for k :: "'a kernel_scheme"
    unfolding set_prio_def by (rule base_ok_upd) (auto simp: base_ok_def dummy_ok_def)
  show ?thesis
    using assms by (auto simp: z_thread_prio_set_def Let_def split: if_splits intro!: inv_intros s)
qed

lemma adjust_owner_prio_ok:
  assumes "system_ok d ks" and "\<not> in_isr ks" and "owner mutex = Some t" and "t \<noteq> idle_thread ks"
    and "adjust_owner_prio mutex p ks = (b, ks')"
  shows "system_ok d ks'" and "waitqs ks' = waitqs ks" and "current ks' = current ks" and "in_isr ks' = in_isr ks"
    and "idle_thread ks' = idle_thread ks" and "irq_unlocked ks' = irq_unlocked ks" and "mem ks' = mem ks"
    and "prio (threads ks' u) = (if u = t \<and> prio (threads ks t) \<noteq> p then to_int8 p else prio (threads ks u))"
    and "swap_retval (threads ks' u) = swap_retval (threads ks u)"
proof -
  have "system_ok d k" if "z_thread_prio_set t p ks = (b, k)" for k
    using that z_thread_prio_set_ok [of ks t p] base_ok_to_prio_set [of d ks t p b k] assms by (auto simp: system_ok_def)
  then show "system_ok d ks'"
    using assms by (auto simp: adjust_owner_prio_def split: if_splits)
  show "waitqs ks' = waitqs ks" and "current ks' = current ks" and "in_isr ks' = in_isr ks"
    and "idle_thread ks' = idle_thread ks" and "irq_unlocked ks' = irq_unlocked ks" and "mem ks' = mem ks"
    and "prio (threads ks' u) = (if u = t \<and> prio (threads ks t) \<noteq> p then to_int8 p else prio (threads ks u))"
    and "swap_retval (threads ks' u) = swap_retval (threads ks u)"
    using assms to_prio_set_fields [of t p ks b ks'] by (auto simp: adjust_owner_prio_def split: if_splits)
qed

definition mutex_inv :: "addr \<Rightarrow> k_mutex \<Rightarrow> 'a kernel_scheme \<Rightarrow> bool" where
  "mutex_inv a mutex ks \<longleftrightarrow>
     (owner mutex = None \<longleftrightarrow> lock_count mutex = 0) \<and>
     (waitqs ks (ObjQ a) \<noteq> [] \<longrightarrow> owner mutex \<noteq> None) \<and>
     (\<forall>t. owner mutex = Some t \<longrightarrow> t \<noteq> idle_thread ks \<and> t \<notin> set (waitqs ks (ObjQ a)))"

text \<open>The count has 32 bits: locking it recursively is restricted to counts below the maximum.\<close>

inductive mutex_calls :: "int \<Rightarrow> addr \<Rightarrow> k_mutex \<times> 'a kernel_scheme \<Rightarrow> k_mutex \<times> 'a kernel_scheme \<Rightarrow> bool" for ceiling a where
  lock: "may_block ks \<Longrightarrow> lock_count mutex \<noteq> - 1 \<Longrightarrow>
    mutex_calls ceiling a (mutex, ks) (snd (snd (k_mutex_lock ceiling a timeout mutex ks)))"
| lock_resume: "\<not> in_isr ks \<Longrightarrow> mutex_calls ceiling a (mutex, ks) (snd (k_mutex_lock_resume ceiling a rs mutex ks))"
| unlock: "\<not> in_isr ks \<Longrightarrow> mutex_calls ceiling a (mutex, ks) (snd (k_mutex_unlock a mutex ks))"

lemma mutex_lock_ok:
  assumes ok: "object_ok d (mutex_inv a) (mutex, ks)" and b: "may_block ks" and "lock_count mutex \<noteq> - 1"
  shows "object_ok d (mutex_inv a) (snd (snd (k_mutex_lock ceiling a timeout mutex ks)))"
proof (cases "lock_count mutex = 0 \<or> owner mutex = Some (current ks) \<or> timeout = K_NO_WAIT")
  case True
  have "lock_count mutex + 1 \<noteq> 0"
    using assms(3) by (metis add.commute add_eq_0_iff)
  then show ?thesis
    using True assms by (auto simp: k_mutex_lock_def mutex_inv_def may_block_def Let_def)
next
  case False
  then obtain t where t: "owner mutex = Some t" "t \<noteq> current ks" "t \<noteq> idle_thread ks" "t \<notin> set (waitqs ks (ObjQ a))"
    using ok by (auto simp: mutex_inv_def)
  let ?p = "new_prio_for_inheritance ceiling (prio (threads ks (current ks))) (prio (threads ks t))"
  obtain r ks1 where a: "(if z_is_prio_higher ?p (prio (threads ks t)) then adjust_owner_prio mutex ?p ks else (False, ks)) = (r, ks1)"
    by fastforce
  have k1: "system_ok d ks1 \<and> waitqs ks1 = waitqs ks \<and> current ks1 = current ks \<and> may_block ks1 \<and>
    idle_thread ks1 = idle_thread ks"
  proof (cases "z_is_prio_higher ?p (prio (threads ks t))")
    case True
    then have "adjust_owner_prio mutex ?p ks = (r, ks1)" "\<not> in_isr ks" "system_ok d ks"
      using a b ok by (simp_all add: may_block_def)
    note adj = adjust_owner_prio_ok [OF this(3,2) t(1,3) this(1)]
    show ?thesis
      using adj b by (simp_all add: may_block_def)
  qed (use a b ok in simp_all)
  have "k_mutex_lock ceiling a timeout mutex ks = (Blocked, r, mutex, z_pend_curr (Some (ObjQ a)) timeout ks1)"
    using False a t(1) unfolding k_mutex_lock_def by (simp add: Let_def)
  then show ?thesis
    using pend_curr [of d ks1 "ObjQ a" timeout] ok t False k1 by (simp add: mutex_inv_def)
qed

lemma mutex_lock_resume_ok:
  assumes ok: "object_ok d (mutex_inv a) (mutex, ks)" and b: "\<not> in_isr ks"
  shows "object_ok d (mutex_inv a) (snd (k_mutex_lock_resume ceiling a rs mutex ks))"
proof (cases "swap_retval (threads ks (current ks)) = ret_ok \<or> owner mutex = None")
  case True
  then show ?thesis
    using ok by (auto simp: k_mutex_lock_resume_def Let_def mutex_inv_def intro!: inv_intros)
next
  case False
  then obtain t where t: "owner mutex = Some t" "t \<noteq> idle_thread ks"
    using ok by (auto simp: mutex_inv_def)
  define p where "p = (case z_waitq_head ks (ObjQ a) of
      Some waiter \<Rightarrow> new_prio_for_inheritance ceiling (prio (threads ks waiter)) (owner_orig_prio mutex)
    | None \<Rightarrow> owner_orig_prio mutex)"
  obtain r ks1 where a: "adjust_owner_prio mutex p ks = (r, ks1)"
    by fastforce
  have "k_mutex_lock_resume ceiling a rs mutex ks = (Inl EAGAIN, mutex, if r \<or> rs then z_reschedule ks1 else ks1)"
    using False a unfolding k_mutex_lock_resume_def p_def [symmetric] by (simp add: Let_def)
  then show ?thesis
    using adjust_owner_prio_ok [OF _ b t a] ok by (auto simp: mutex_inv_def intro!: inv_intros)
qed

lemma k_mutex_unlock_last:
  assumes "owner mutex = Some (current ks)" and "\<not> lock_count mutex > 1"
    and "ks1 = snd (adjust_owner_prio mutex (owner_orig_prio mutex) ks)"
  shows "k_mutex_unlock a mutex ks =
    (case waitqs ks1 (ObjQ a) of
       [] \<Rightarrow> (ret_ok, mutex\<lparr>owner := None, lock_count := 0\<rparr>, ks1)
     | t # ts \<Rightarrow> (ret_ok, mutex\<lparr>owner := Some t, owner_orig_prio := prio (threads ks1 t)\<rparr>, z_reschedule (wake_thread ret_ok t ks1)))"
  using assms by (simp add: k_mutex_unlock_def unpend_first_cases wake_thread_def Let_def split: list.split)

lemma mutex_unlock_ok:
  assumes ok: "object_ok d (mutex_inv a) (mutex, ks)" and b: "\<not> in_isr ks"
  shows "object_ok d (mutex_inv a) (snd (k_mutex_unlock a mutex ks))"
proof (cases "owner mutex = Some (current ks) \<and> \<not> lock_count mutex > 1")
  case True
  obtain r ks1 where a: "adjust_owner_prio mutex (owner_orig_prio mutex) ks = (r, ks1)"
    by fastforce
  have c: "current ks \<noteq> idle_thread ks" and sys: "system_ok d ks"
    using ok True by (auto simp: mutex_inv_def)
  note adj = adjust_owner_prio_ok [OF sys b conjunct1 [OF True] c a]
  note eq = k_mutex_unlock_last [of mutex ks ks1 a]
  show ?thesis
  proof (cases "waitqs ks1 (ObjQ a)")
    case Nil
    then show ?thesis
      using eq a True adj(1) by (simp add: mutex_inv_def)
  next
    case (Cons t ts)
    have "t \<notin> set ts" "t \<noteq> idle_thread ks1"
      using first_waiting [OF adj(1) Cons] by simp_all
    then show ?thesis
      using eq a True Cons ok adj wake_first(1,2) [OF adj(1) Cons, of ret_ok]
      by (auto simp: mutex_inv_def intro!: inv_intros)
  qed
next
  case False
  have "lock_count mutex - 1 \<noteq> 0" if "lock_count mutex > 1"
    using that by auto
  then show ?thesis
    using False ok by (auto simp: k_mutex_unlock_def mutex_inv_def)
qed

interpretation mutex: kernel_object d "{ObjQ a}" "mutex_calls ceiling a" "mutex_inv a" for d ceiling a
proof
  show "object_ok d (mutex_inv a) t" if "mutex_calls ceiling a s t" "object_ok d (mutex_inv a) s" for s t
    using that
    by (induction rule: mutex_calls.induct)
      (auto simp del: object_ok_simps simp: mutex_lock_ok mutex_lock_resume_ok mutex_unlock_ok)
  show "mutex_inv a ob ks'" if "mutex_inv a ob ks" "undisturbed (- {ObjQ a}) ks ks'" for ob ks ks'
    using that shrinks_waiting [of "{ObjQ a}" ks ks' "ObjQ a"] by (auto simp: mutex_inv_def undisturbed_def)
qed auto

subsection \<open>Condition variables wake all their waiting threads\<close>

lemma broadcast_loop_unfold:
  "broadcast_loop c n ks =
     (case waitqs ks (ObjQ c) of
        [] \<Rightarrow> Some (n, ks)
      | t # _ \<Rightarrow> broadcast_loop c (n + 1) (wake_thread ret_ok t ks))"
  by (subst broadcast_loop.simps) (simp add: unpend_first_cases wake_thread_def split: list.split)

lemma broadcast_loop_returns:
  "system_ok d ks \<Longrightarrow> waitqs ks (ObjQ c) = ts \<Longrightarrow>
   broadcast_loop c n ks = Some (n + int (length ts), fold (wake_thread ret_ok) ts ks)"
proof (induction ts arbitrary: ks n)
  case (Cons t ts)
  then show ?case
    using wake_first(1,2) [of d ks "ObjQ c" t ts ret_ok] by (simp add: broadcast_loop_unfold [of c n ks])
qed (simp add: broadcast_loop_unfold)

subsection \<open>Properties\<close>

text \<open>C12: Under every interleaving of lock, unlock, time-outs and other kernel activity a mutex has an owner exactly
  when its lock count is positive, threads wait only for a mutex that is owned, and the owner is never
  among the threads waiting for it.\<close>

theorem mutex_ownership:
  assumes "k_mutex_init a m ks = (ret_ok, m0, ks0)" and "system_ok d ks" and "waitqs ks (ObjQ a) = []"
    and "interleaved d {ObjQ a} (mutex_calls ceiling a) (m0, ks0) (m1, ks1)"
  shows "(owner m1 = None \<longleftrightarrow> lock_count m1 = 0) \<and> (waitqs ks1 (ObjQ a) \<noteq> [] \<longrightarrow> owner m1 \<noteq> None) \<and>
    (\<forall>t. owner m1 = Some t \<longrightarrow> t \<notin> set (waitqs ks1 (ObjQ a))) \<and> system_ok d ks1"
proof -
  have "ks0 = ks" "mutex_inv a m0 ks"
    using assms(1,3) by (auto simp: k_mutex_init_def Let_def mutex_inv_def z_waitq_init_empty)
  then have "object_ok d (mutex_inv a) (m1, ks1)"
    using mutex.interleaved_ok [OF assms(4)] assms(2) by simp
  then show ?thesis
    by (auto simp: mutex_inv_def)
qed

theorem mutex_ownership_witness:
  "lock_count (fst (snd (snd (k_mutex_lock (- 127) 100 0 \<lparr>owner = None, lock_count = 0, owner_orig_prio = 0\<rparr> two_threads)))) \<noteq> 0"
proof -
  let ?m = "\<lparr>owner = None, lock_count = 0, owner_orig_prio = 0\<rparr>"
  let ?r = "snd (snd (k_mutex_lock (- 127) 100 0 ?m two_threads))"
  have q: "waitqs two_threads (ObjQ 100) = []"
    by code_simp
  have "mutex_calls (- 127) 100 (?m, two_threads) ?r"
    using two_threads_state by (intro mutex_calls.lock) (simp_all add: may_block_def)
  then have "interleaved 1 {ObjQ 100} (mutex_calls (- 127) 100) (?m, two_threads) ?r"
    by (rule interleaved.call [OF interleaved.start])
  then show ?thesis
    using mutex_ownership [of 100 ?m two_threads ?m two_threads 1 "- 127" "fst ?r" "snd ?r"] two_threads_ok q
    by (simp add: k_mutex_init_def z_waitq_init_empty system_ok_def k_mutex_lock_def)
qed

text \<open>C13: Priority inheritance: when a thread blocks on a mutex, the owner's priority is raised to the caller's,
  limited by the priority ceiling, and never lowered; the caller is queued and the mutex is unchanged.\<close>

theorem mutex_priority_inheritance:
  assumes "system_ok d ks" and "may_block ks" and "mutex_inv a m ks"
    and "owner m = Some t" and "t \<noteq> current ks" and "timeout \<noteq> K_NO_WAIT"
    and "- 128 \<le> ceiling" and "ceiling < 128" and "\<forall>u \<in> {t, current ks}. - 128 \<le> prio (threads ks u) \<and> prio (threads ks u) < 128"
  shows "\<exists>rs ks'. k_mutex_lock ceiling a timeout m ks = (Blocked, rs, m, ks') \<and>
    prio (threads ks' t) = min (prio (threads ks t)) (max ceiling (prio (threads ks (current ks)))) \<and>
    current ks \<in> set (waitqs ks' (ObjQ a)) \<and> (\<forall>u. u \<noteq> t \<longrightarrow> prio (threads ks' u) = prio (threads ks u))"
proof -
  let ?c = "prio (threads ks (current ks))" and ?o = "prio (threads ks t)"
  let ?p = "new_prio_for_inheritance ceiling ?c ?o"
  have lc: "lock_count m \<noteq> 0"
    using assms(3,4) by (auto simp: mutex_inv_def)
  obtain r ks1 where a: "(if z_is_prio_higher ?p ?o then adjust_owner_prio m ?p ks else (False, ks)) = (r, ks1)"
    by fastforce
  have idle: "t \<noteq> idle_thread ks" and isr: "\<not> in_isr ks"
    using assms(2-4) by (auto simp: mutex_inv_def may_block_def)
  have p: "?p = max ceiling (min ?c ?o)" "- 128 \<le> ?p" "?p < 128"
    using assms(7-9) by (auto simp: new_prio_for_inheritance_def z_get_new_prio_with_ceiling_def
        z_is_under_prio_ceiling_def z_is_prio_higher_def Let_def)
  have k1: "system_ok d ks1 \<and> may_block ks1 \<and> current ks1 = current ks \<and>
      prio (threads ks1 t) = min ?o (max ceiling ?c) \<and> (\<forall>u. u \<noteq> t \<longrightarrow> prio (threads ks1 u) = prio (threads ks u))"
  proof (cases "z_is_prio_higher ?p ?o")
    case True
    then have adj: "adjust_owner_prio m ?p ks = (r, ks1)"
      using a by simp
    note f = adjust_owner_prio_ok [OF assms(1) isr assms(4) idle adj]
    show ?thesis
      using f assms(2) True p by (auto simp: may_block_def z_is_prio_higher_def)
  next
    case False
    then show ?thesis
      using a assms(1,2) p by (auto simp: z_is_prio_higher_def)
  qed
  have "k_mutex_lock ceiling a timeout m ks = (Blocked, r, m, z_pend_curr (Some (ObjQ a)) timeout ks1)"
    using a assms(4-6) lc unfolding k_mutex_lock_def by (simp add: Let_def)
  then show ?thesis
    using k1 pend_curr [of d ks1 "ObjQ a" timeout] by auto
qed

theorem mutex_priority_inheritance_witness:
  "\<exists>rs ks'. k_mutex_lock (- 127) 100 K_FOREVER \<lparr>owner = Some 5, lock_count = 1, owner_orig_prio = 4\<rparr>
     (k_thread_priority_set 5 4 two_threads) = (Blocked, rs, \<lparr>owner = Some 5, lock_count = 1, owner_orig_prio = 4\<rparr>, ks') \<and>
     prio (threads ks' 5) = 0"
proof -
  let ?k = "k_thread_priority_set 5 4 two_threads" and ?m = "\<lparr>owner = Some 5, lock_count = 1, owner_orig_prio = 4\<rparr>"
  have s: "current ?k = 2 \<and> idle_thread ?k = 3 \<and> in_isr ?k = False \<and> waitqs ?k (ObjQ 100) = [] \<and>
      prio (threads ?k 2) = 0 \<and> prio (threads ?k 5) = 4"
    by code_simp
  have "system_ok 1 ?k"
    using two_threads_ok two_threads_state by (auto simp: system_ok_def intro!: inv_intros)
  then show ?thesis
    using mutex_priority_inheritance [of 1 ?k 100 ?m 5 "- 1" "- 127"] s by (auto simp: may_block_def mutex_inv_def)
qed

text \<open>Misuse of a mutex is reported and changes nothing: unlocking a free mutex gives \<^verbatim>\<open>-EINVAL\<close>, unlocking
  another thread's mutex \<^verbatim>\<open>-EPERM\<close>, and locking one without waiting \<^verbatim>\<open>-EBUSY\<close>.\<close>

lemma mutex_errors:
  "(owner m = None \<longrightarrow> k_mutex_unlock a m ks = (Inl EINVAL, m, ks)) \<and>
   (owner m \<noteq> None \<and> owner m \<noteq> Some (current ks) \<longrightarrow> k_mutex_unlock a m ks = (Inl EPERM, m, ks)) \<and>
   (lock_count m \<noteq> 0 \<and> owner m \<noteq> Some (current ks) \<longrightarrow>
     k_mutex_lock ceiling a K_NO_WAIT m ks = (Done (Inl EBUSY), False, m, ks))"
  by (simp add: k_mutex_unlock_def k_mutex_lock_def)

text \<open>C14: The last unlock of a mutex gives the owner its original priority back and hands the mutex, still
  locked once, to the first waiting thread, which returns 0; with no thread waiting the mutex is free.\<close>

theorem mutex_unlock_hands_over:
  assumes "system_ok d ks" and "\<not> in_isr ks" and "mutex_inv a m ks" and "owner m = Some (current ks)" and "lock_count m = 1"
    and "- 128 \<le> owner_orig_prio m" and "owner_orig_prio m < 128"
  shows "\<exists>m' ks'. k_mutex_unlock a m ks = (ret_ok, m', ks') \<and> prio (threads ks' (current ks)) = owner_orig_prio m \<and>
    (case waitqs ks (ObjQ a) of
       [] \<Rightarrow> owner m' = None \<and> lock_count m' = 0
     | t # ts \<Rightarrow> owner m' = Some t \<and> lock_count m' = 1 \<and> owner_orig_prio m' = prio (threads ks t) \<and>
         swap_retval (threads ks' t) = ret_ok \<and> waitqs ks' (ObjQ a) = ts)"
proof -
  obtain r ks1 where a: "adjust_owner_prio m (owner_orig_prio m) ks = (r, ks1)"
    by fastforce
  have c: "current ks \<noteq> idle_thread ks" "current ks \<notin> set (waitqs ks (ObjQ a))"
    using assms(3,4) by (auto simp: mutex_inv_def)
  note adj = adjust_owner_prio_ok [OF assms(1,2,4) c(1) a]
  have p: "prio (threads ks1 u) = (if u = current ks then owner_orig_prio m else prio (threads ks u))" for u
    using adj(8) [of u] assms(6,7) by simp
  note eq = k_mutex_unlock_last [of m ks ks1 a]
  show ?thesis
  proof (cases "waitqs ks (ObjQ a)")
    case Nil
    then show ?thesis
      using eq a assms(4,5) adj(2) p by simp
  next
    case (Cons t ts)
    then have "t \<noteq> current ks" "waitqs ks1 (ObjQ a) = t # ts"
      using c(2) adj(2) by auto
    then show ?thesis
      using eq a assms(4,5) adj(1-7) p Cons wake_first(2) [OF adj(1), of "ObjQ a" t ts ret_ok]
      by (simp add: reschedule_fields)
  qed
qed

theorem mutex_unlock_hands_over_witness:
  "\<exists>m' ks'. k_mutex_unlock 100 \<lparr>owner = Some 2, lock_count = 1, owner_orig_prio = 0\<rparr> two_threads = (ret_ok, m', ks') \<and>
     lock_count m' = 0"
proof -
  have q: "waitqs two_threads (ObjQ 100) = []"
    by code_simp
  show ?thesis
    using mutex_unlock_hands_over [of 1 two_threads 100 "\<lparr>owner = Some 2, lock_count = 1, owner_orig_prio = 0\<rparr>"]
      two_threads_ok two_threads_state q
    by (auto simp: system_ok_def mutex_inv_def)
qed

text \<open>C15: Waiting on a condition variable unlocks the mutex and queues the caller in one step: the caller joins the
  threads waiting on the condition variable while no other thread runs in between, so no signal is lost.  A mutex
  locked once goes to the first thread waiting for it, or is free.  A mutex the caller has locked several times is not
  released: only its lock count goes down, and the caller sleeps as its owner.\<close>

theorem condvar_wait_atomic:
  assumes "system_ok d ks" and "may_block ks" and "mutex_inv a m ks" and "owner m = Some (current ks)" and "a \<noteq> c"
    and "k_condvar_wait c a timeout m ks = (m', ks')"
  shows "set (waitqs ks' (ObjQ c)) = insert (current ks) (set (waitqs ks (ObjQ c))) \<and> system_ok d ks' \<and>
    (if lock_count m = 1
     then waitqs ks' (ObjQ a) = tl (waitqs ks (ObjQ a)) \<and>
       (case waitqs ks (ObjQ a) of
          [] \<Rightarrow> owner m' = None \<and> lock_count m' = 0
        | t # _ \<Rightarrow> owner m' = Some t \<and> lock_count m' = 1)
     else m' = m\<lparr>lock_count := lock_count m - 1\<rparr> \<and> owner m' = Some (current ks) \<and> waitqs ks' (ObjQ a) = waitqs ks (ObjQ a))"
proof -
  let ?k = "ks\<lparr>irq_unlocked := False\<rparr>"
  have ok: "system_ok d ?k" and isr: "\<not> in_isr ?k" and minv: "mutex_inv a m ?k"
    using system_ok_fields(1) [OF assms(1)] assms(2,3) by (auto simp: may_block_def mutex_inv_def)
  obtain r ks1 where a: "adjust_owner_prio m (owner_orig_prio m) ?k = (r, ks1)"
    by fastforce
  have c: "current ?k \<noteq> idle_thread ?k" "owner m = Some (current ?k)" "lock_count m \<noteq> 0"
    using assms(3,4) by (auto simp: mutex_inv_def)
  note adj = adjust_owner_prio_ok [OF ok isr c(2,1) a]
  have one: "lock_count m > 1 \<longleftrightarrow> lock_count m \<noteq> 1"
    using c(3) by (metis word_gt_0 word_less_1 linorder_neqE less_irrefl)
  obtain v ks2 where u: "k_mutex_unlock a m ?k = (v, m', ks2)"
    using assms(6) by (auto simp: k_condvar_wait_def Let_def split: prod.splits)
  have many: "m' = m\<lparr>lock_count := lock_count m - 1\<rparr> \<and> ks2 = ?k" if "lock_count m \<noteq> 1"
    using u that one c(2) by (simp add: k_mutex_unlock_def)
  have still: "z_reschedule (wake_thread v t ks1) = wake_thread v t ks1" for v t
    by (simp add: z_reschedule_def resched_def adj(6))
  have last: "(m', ks2) = (case waitqs ks (ObjQ a) of
       [] \<Rightarrow> (m\<lparr>owner := None, lock_count := 0\<rparr>, ks1)
     | t # ts \<Rightarrow> (m\<lparr>owner := Some t, owner_orig_prio := prio (threads ks1 t)\<rparr>, wake_thread ret_ok t ks1))" if "lock_count m = 1"
    using u k_mutex_unlock_last [of m ?k ks1 a] a c(2) that adj(2) still by (auto split: list.splits)
  have w: "waitqs ks2 = (if lock_count m = 1 then (waitqs ks)(ObjQ a := tl (waitqs ks (ObjQ a))) else waitqs ks)"
    using many last adj(1,2) wake_first(2) [of d ks1 "ObjQ a" _ _ ret_ok] by (auto simp: fun_eq_iff split: list.splits)
  have "current ks2 = current ks \<and> in_isr ks2 = in_isr ks \<and> idle_thread ks2 = idle_thread ks"
    using many last adj by (cases "lock_count m = 1") (auto split: list.splits)
  moreover have "system_ok d ks2"
    using u mutex_unlock_ok [of d a m ?k] ok minv isr by auto
  moreover have "ks' = z_pend_curr (Some (ObjQ c)) timeout (ks2\<lparr>irq_unlocked := irq_unlocked ks\<rparr>)"
    using assms(6) u by (simp add: k_condvar_wait_def Let_def)
  ultimately have "system_ok d ks'" "waitqs ks' = (waitqs ks2)(ObjQ c := z_priq_dumb_add (threads ks2) (current ks) (waitqs ks2 (ObjQ c)))"
    using pend_curr(1,2) [of d "ks2\<lparr>irq_unlocked := irq_unlocked ks\<rparr>" "ObjQ c" timeout] system_ok_fields(1) [of d ks2] assms(2)
    by (simp_all add: may_block_def)
  then show ?thesis
    using w many last assms(4,5) by (auto split: list.splits)
qed

theorem condvar_wait_atomic_witness:
  "owner (fst (k_condvar_wait 200 100 K_FOREVER \<lparr>owner = Some 2, lock_count = 2, owner_orig_prio = 0\<rparr> two_threads)) = Some 2"
proof -
  have q: "waitqs two_threads (ObjQ 100) = []"
    by code_simp
  let ?m = "\<lparr>owner = Some 2, lock_count = 2, owner_orig_prio = 0\<rparr>"
  show ?thesis
    using condvar_wait_atomic [of 1 two_threads 100 ?m 200 "- 1" "fst (k_condvar_wait 200 100 (- 1) ?m two_threads)"
        "snd (k_condvar_wait 200 100 (- 1) ?m two_threads)"] two_threads_ok two_threads_state q
    by (simp add: system_ok_def mutex_inv_def may_block_def)
qed

text \<open>C16: Broadcasting on a condition variable returns the number of waiting threads and wakes each of them with
  the result 0.\<close>

theorem condvar_broadcast_wakes_all:
  assumes "system_ok d ks" and "\<not> in_isr ks"
  shows "\<exists>ks'. k_condvar_broadcast c ks = Some (int (length (waitqs ks (ObjQ c))), ks') \<and> system_ok d ks' \<and>
    waitqs ks' = (waitqs ks)(ObjQ c := []) \<and>
    (\<forall>t \<in> set (waitqs ks (ObjQ c)). swap_retval (threads ks' t) = ret_ok \<and> pended_on (threads ks' t) = None)"
  using wake_all_ok [OF assms(1) refl, where q = "ObjQ c" and v = ret_ok] waiting_not_current [OF assms(1) _ assms(2)]
  by (fastforce simp: k_condvar_broadcast_def broadcast_loop_returns [OF assms(1) refl] reschedule_fields intro!: inv_intros)

theorem condvar_broadcast_wakes_all_witness: "\<exists>ks'. k_condvar_broadcast 200 two_threads = Some (0, ks')"
proof -
  have q: "waitqs two_threads (ObjQ 200) = []"
    by code_simp
  show ?thesis
    using condvar_broadcast_wakes_all [of 1 two_threads 200] two_threads_ok two_threads_state q by (auto simp: system_ok_def)
qed

text \<open>C17: If a thread gives up waiting for a mutex while another one still waits, and the owner's original priority
  is above the priority ceiling, the owner is demoted to the ceiling, below its own original priority.\<close>

theorem mutex_timeout_demotes_owner:
  assumes "system_ok d ks" and "\<not> in_isr ks" and "mutex_inv a m ks" and "owner m = Some t"
    and "swap_retval (threads ks (current ks)) \<noteq> ret_ok" and "waitqs ks (ObjQ a) = u # us"
    and "prio (threads ks t) = owner_orig_prio m" and "owner_orig_prio m < ceiling" and "ceiling < 128" and "- 128 \<le> ceiling"
    and "k_mutex_lock_resume ceiling a rs m ks = (r, m', ks')"
  shows "prio (threads ks' t) = ceiling \<and> owner_orig_prio m' < prio (threads ks' t)"
proof -
  have idle: "t \<noteq> idle_thread ks"
    using assms(3,4) by (auto simp: mutex_inv_def)
  have p: "new_prio_for_inheritance ceiling (prio (threads ks u)) (owner_orig_prio m) = ceiling"
    using assms(8) by (auto simp: new_prio_for_inheritance_def z_get_new_prio_with_ceiling_def z_is_under_prio_ceiling_def
        z_is_prio_higher_def Let_def)
  obtain b ks1 where a: "adjust_owner_prio m ceiling ks = (b, ks1)"
    by fastforce
  have "k_mutex_lock_resume ceiling a rs m ks = (Inl EAGAIN, m, if b \<or> rs then z_reschedule ks1 else ks1)"
    using assms(4-6) a p by (simp add: k_mutex_lock_resume_def waitq_head_best waitq_best_def z_priq_dumb_best_def Let_def)
  then show ?thesis
    using assms adjust_owner_prio_ok(8) [OF assms(1,2,4) idle a, of t] by (auto simp: reschedule_fields split: if_splits)
qed

theorem mutex_timeout_demotes_owner_witness:
  "prio (threads (snd (snd (k_mutex_lock_resume 4 100 False \<lparr>owner = Some 6, lock_count = 1, owner_orig_prio = 0\<rparr> one_waiting))) 6) = 4"
  using mutex_timeout_demotes_owner [of 1 one_waiting 100 "\<lparr>owner = Some 6, lock_count = 1, owner_orig_prio = 0\<rparr>" 6 5 "[]" 4 False]
    one_waiting_ok one_waiting_state
  by (auto simp: mutex_inv_def prod_eq_iff)

end
