(* ===== verification/Kernel_Mem.thy ===== *)
theory Kernel_Mem
  imports Kernel_Object
begin

text \<open>
  Memory that kernel objects copy messages to and from.  Copying touches no scheduler state, and the
  idiom of waking a waiting thread after a copy behaves like waking it alone.
\<close>

definition copy_bytes :: "addr \<Rightarrow> addr \<Rightarrow> nat \<Rightarrow> (addr \<Rightarrow> u8) \<Rightarrow> addr \<Rightarrow> u8" where
  "copy_bytes dst src n m = (\<lambda>a. if dst \<le> a \<and> a < dst + n then m (src + (a - dst)) else m a)"

definition memcpy :: "addr \<Rightarrow> addr \<Rightarrow> nat \<Rightarrow> 'a kernel_scheme \<Rightarrow> 'a kernel_scheme" where
  "memcpy dst src n ks =
     ks\<lparr>mem := copy_bytes dst src n (mem ks)\<rparr>"

text \<open>The bytes at an address.\<close>

definition bytes_at :: "'a kernel_scheme \<Rightarrow> addr \<Rightarrow> nat \<Rightarrow> u8 list" where
  "bytes_at ks a n = map (mem ks) [a..<a + n]"

definition disjoint_mem :: "addr \<Rightarrow> nat \<Rightarrow> addr \<Rightarrow> nat \<Rightarrow> bool" where
  "disjoint_mem a n b m \<longleftrightarrow> a + n \<le> b \<or> b + m \<le> a"

lemma memcpy_fields [simp]:
  "threads (memcpy p s n ks) = threads ks" "runq (memcpy p s n ks) = runq ks" "cache (memcpy p s n ks) = cache ks"
  "current (memcpy p s n ks) = current ks" "idle_thread (memcpy p s n ks) = idle_thread ks"
  "in_isr (memcpy p s n ks) = in_isr ks" "irq_unlocked (memcpy p s n ks) = irq_unlocked ks"
  "waitqs (memcpy p s n ks) = waitqs ks" "timeout_list (memcpy p s n ks) = timeout_list ks"
  "hw_elapsed (memcpy p s n ks) = hw_elapsed ks" "mem (memcpy p s n ks) = copy_bytes p s n (mem ks)"
  by (simp_all add: memcpy_def)

lemma bytes_at_cong: "mem ks' = mem ks \<Longrightarrow> bytes_at ks' a n = bytes_at ks a n"
  by (simp add: bytes_at_def)

lemma length_bytes_at [simp]: "length (bytes_at ks a n) = n"
  by (simp add: bytes_at_def)

lemma bytes_at_copied: "bytes_at (memcpy p s n ks) p n = bytes_at ks s n"
  by (auto simp: bytes_at_def copy_bytes_def intro!: nth_equalityI)

lemma bytes_at_other: "disjoint_mem p n a m \<Longrightarrow> bytes_at (memcpy p s n ks) a m = bytes_at ks a m"
  by (auto simp: bytes_at_def copy_bytes_def disjoint_mem_def)

lemma kernel_ok_mem_upd: "kernel_ok_but X ks \<Longrightarrow> kernel_ok_but X (ks\<lparr>mem := m\<rparr>)"
  by (rule kernel_ok_same [where ks = ks]) (auto simp: timeouts_ok_def kernel_ok_but_def sched_inv_but_def is_linked_def)

lemma base_ok_mem_upd: "base_ok d ks \<Longrightarrow> base_ok d (ks\<lparr>mem := m\<rparr>)"
  by (rule base_ok_same [where ks = ks]) (simp_all add: is_linked_def)

lemma system_ok_mem_upd: "system_ok d ks \<Longrightarrow> system_ok d (ks\<lparr>mem := m\<rparr>)"
  by (simp add: system_ok_def kernel_ok_mem_upd base_ok_mem_upd)

lemma system_ok_mem [inv_intros]: "system_ok d ks \<Longrightarrow> system_ok d (memcpy p s n ks)"
  by (simp add: memcpy_def system_ok_mem_upd)

lemma system_ok_wait_data [inv_intros]:
  assumes "system_ok d ks" and "\<And>th. thread_state (f th) = thread_state th" and "\<And>th. pended_on (f th) = pended_on th"
    and "\<And>th. prio (f th) = prio th" and "\<And>th. sched_locked (f th) = sched_locked th"
    and "\<And>th. no_wake_on_timeout (f th) = no_wake_on_timeout th"
  shows "system_ok d (upd_thread t f ks)"
proof -
  have "t \<noteq> d \<or> pended_on (threads ks t) = None"
    using assms(1) by (auto simp: system_ok_def base_ok_def dummy_ok_def)
  then show ?thesis
    using assms kernel_ok_upd [of "{}" ks f t] base_ok_upd [of d ks f t] by (simp add: system_ok_def)
qed

text \<open>Waking the first thread of a queue after a copy.\<close>

definition wake_thread_copy :: "retval \<Rightarrow> tid \<Rightarrow> addr \<Rightarrow> addr \<Rightarrow> nat \<Rightarrow> 'a kernel_scheme \<Rightarrow> 'a kernel_scheme" where
  "wake_thread_copy v t p s n ks = z_ready_thread t (arch_thread_return_value_set t v
     (memcpy p s n (snd (z_abort_thread_timeout t (unpend_thread_no_timeout t ks)))))"

lemma wake_copy_fields [simp]:
  "swap_retval (threads (wake_thread_copy v t p s n ks) u) = (if u = t then v else swap_retval (threads ks u))"
  "pended_on (threads (wake_thread_copy v t p s n ks) u) = (if u = t then None else pended_on (threads ks u))"
  "wait_data (threads (wake_thread_copy v t p s n ks) u) = wait_data (threads ks u)"
  "current (wake_thread_copy v t p s n ks) = current ks" "mem (wake_thread_copy v t p s n ks) = copy_bytes p s n (mem ks)"
  "in_isr (wake_thread_copy v t p s n ks) = in_isr ks" "idle_thread (wake_thread_copy v t p s n ks) = idle_thread ks"
  by (simp_all add: wake_thread_copy_def z_ready_thread_def)
    (simp_all add: ready_thread_def queue_thread_def runq_add_def set_state_bits_def
      arch_thread_return_value_set_def upd_thread_def unpend_thread_no_timeout_def waitq_remove_def thread_mark_defs
      clear_state_bits_def Let_def memcpy_def)

lemma wake_first_copy:
  assumes "system_ok d ks" and "waitqs ks q = t # ts"
  shows "system_ok d (wake_thread_copy v t p s n ks)" and "waitqs (wake_thread_copy v t p s n ks) = (waitqs ks)(q := ts)"
proof -
  let ?u = "snd (z_abort_thread_timeout t (unpend_thread_no_timeout t ks))"
  have f: "z_unpend_first_thread q ks = (Some t, ?u)"
    by (simp add: unpend_first_cases assms(2))
  note u = z_unpend_first_thread_ok [OF system_ok_parts(1) [OF assms(1)] f]
  have kr: "kernel_ok_but {t} (arch_thread_return_value_set t v (memcpy p s n ?u))"
    using u(1) by (intro kernel_ok_retval) (simp add: memcpy_def kernel_ok_mem_upd)
  have idle: "t \<noteq> idle_thread (arch_thread_return_value_set t v (memcpy p s n ?u))"
    using u(3) by simp
  have "base_ok d ?u" using system_ok_parts(2) [OF assms(1)] by (auto intro!: inv_intros)
  then show "system_ok d (wake_thread_copy v t p s n ks)"
    unfolding system_ok_def wake_thread_copy_def z_ready_thread_def
    using ready_thread_done [OF kr idle] base_ok_mem_upd [of d ?u] by (auto simp: memcpy_def intro!: inv_intros)
  show "waitqs (wake_thread_copy v t p s n ks) = (waitqs ks)(q := ts)"
    using u(4) assms(2) by (simp add: wake_thread_copy_def z_ready_thread_def)
qed

subsection \<open>Words in memory\<close>

text \<open>A 32-bit word is stored as four bytes, the lowest first.\<close>

definition load32 :: "'a kernel_scheme \<Rightarrow> addr \<Rightarrow> u32" where
  "load32 ks a = ucast (mem ks a) OR push_bit 8 (ucast (mem ks (a + 1))) OR push_bit 16 (ucast (mem ks (a + 2))) OR
     push_bit 24 (ucast (mem ks (a + 3)))"

definition store32 :: "addr \<Rightarrow> u32 \<Rightarrow> 'a kernel_scheme \<Rightarrow> 'a kernel_scheme" where
  "store32 a w ks = ks\<lparr>mem := (mem ks)(a := ucast w, a + 1 := ucast (drop_bit 8 w), a + 2 := ucast (drop_bit 16 w),
     a + 3 := ucast (drop_bit 24 w))\<rparr>"

lemma load_store_same [simp]: "load32 (store32 a w ks) a = w"
proof (rule bit_word_eqI)
  fix n assume "n < LENGTH(32)"
  then have "n < 8 \<or> 8 \<le> n \<and> n < 16 \<or> 16 \<le> n \<and> n < 24 \<or> 24 \<le> n \<and> n < 32" by auto
  then show "bit (load32 (store32 a w ks) a) n = bit w n"
    by (elim disjE) (auto simp: load32_def store32_def bit_simps)
qed

lemma load_store_other: "a + 4 \<le> b \<or> b + 4 \<le> a \<Longrightarrow> load32 (store32 a w ks) b = load32 ks b"
  by (auto simp: load32_def store32_def)

lemma load32_cong: "mem ks' = mem ks \<Longrightarrow> load32 ks' a = load32 ks a"
  by (simp add: load32_def)

lemma store32_fields [simp]:
  "threads (store32 a w ks) = threads ks" "runq (store32 a w ks) = runq ks" "cache (store32 a w ks) = cache ks"
  "current (store32 a w ks) = current ks" "idle_thread (store32 a w ks) = idle_thread ks"
  "in_isr (store32 a w ks) = in_isr ks" "irq_unlocked (store32 a w ks) = irq_unlocked ks"
  "waitqs (store32 a w ks) = waitqs ks" "timeout_list (store32 a w ks) = timeout_list ks"
  "hw_elapsed (store32 a w ks) = hw_elapsed ks"
  by (simp_all add: store32_def)

lemma system_ok_store [inv_intros]: "system_ok d ks \<Longrightarrow> system_ok d (store32 a w ks)"
  by (simp add: store32_def system_ok_mem_upd)

text \<open>Aligned addresses.\<close>

lemma aligned_dvd: "w AND 3 = 0 \<longleftrightarrow> 4 dvd unat w" for w :: u32
proof -
  have "w AND 3 = take_bit 2 w"
    using take_bit_eq_mask [of 2 w] by (simp add: mask_eq_exp_minus_1)
  moreover have "unat (take_bit 2 w) = unat w mod 4"
    by (simp only: unsigned_take_bit_eq) (simp add: take_bit_eq_mod)
  ultimately show ?thesis
    by (metis dvd_eq_mod_eq_0 unsigned_0 unat_eq_zero)
qed

lemma aligned_apart:
  "a AND 3 = 0 \<Longrightarrow> b AND 3 = 0 \<Longrightarrow> a \<noteq> b \<Longrightarrow> unat a + 4 \<le> unat b \<or> unat b + 4 \<le> unat a" for a b :: u32
  unfolding aligned_dvd by (auto simp: word_unat_eq_iff elim!: dvdE)

subsection \<open>Handing data to the first waiting thread\<close>

definition wake_thread_data :: "retval \<Rightarrow> addr \<Rightarrow> tid \<Rightarrow> 'a kernel_scheme \<Rightarrow> 'a kernel_scheme" where
  "wake_thread_data v x t ks = z_ready_thread t (z_thread_return_value_set_with_data t v x
     (snd (z_abort_thread_timeout t (unpend_thread_no_timeout t ks))))"

lemma wake_data_fields [simp]:
  "swap_retval (threads (wake_thread_data v x t ks) u) = (if u = t then v else swap_retval (threads ks u))"
  "swap_data (threads (wake_thread_data v x t ks) u) = (if u = t then x else swap_data (threads ks u))"
  "pended_on (threads (wake_thread_data v x t ks) u) = (if u = t then None else pended_on (threads ks u))"
  "current (wake_thread_data v x t ks) = current ks" "mem (wake_thread_data v x t ks) = mem ks"
  "in_isr (wake_thread_data v x t ks) = in_isr ks" "idle_thread (wake_thread_data v x t ks) = idle_thread ks"
  by (simp_all add: wake_thread_data_def z_ready_thread_def z_thread_return_value_set_with_data_def)
    (simp_all add: ready_thread_def queue_thread_def runq_add_def set_state_bits_def
      arch_thread_return_value_set_def upd_thread_def unpend_thread_no_timeout_def waitq_remove_def thread_mark_defs
      clear_state_bits_def Let_def)

lemma wake_first_data:
  assumes "system_ok d ks" and "waitqs ks q = t # ts"
  shows "system_ok d (wake_thread_data v x t ks)" and "waitqs (wake_thread_data v x t ks) = (waitqs ks)(q := ts)"
proof -
  let ?u = "snd (z_abort_thread_timeout t (unpend_thread_no_timeout t ks))"
  let ?r = "z_thread_return_value_set_with_data t v x ?u"
  have f: "z_unpend_first_thread q ks = (Some t, ?u)"
    by (simp add: unpend_first_cases assms(2))
  note u = z_unpend_first_thread_ok [OF system_ok_parts(1) [OF assms(1)] f]
  have kr: "kernel_ok_but {t} ?r"
    using u(1) by (rule kernel_ok_retval)
  have idle: "t \<noteq> idle_thread ?r"
    using u(3) by (simp add: z_thread_return_value_set_with_data_def arch_thread_return_value_set_def)
  show "system_ok d (wake_thread_data v x t ks)"
    unfolding system_ok_def wake_thread_data_def z_ready_thread_def
    using ready_thread_done [OF kr idle] system_ok_parts(2) [OF assms(1)] by (auto intro!: inv_intros)
  show "waitqs (wake_thread_data v x t ks) = (waitqs ks)(q := ts)"
    using u(4) assms(2) by (simp add: wake_thread_data_def z_ready_thread_def)
qed

lemma swap_data_reschedule: "swap_data (threads (z_reschedule ks) t) = swap_data (threads ks t)"
  using wait_data_fields(10) [of ks t] by (simp add: wait_data_def)

lemma wake_data_woken:
  assumes "system_ok d ks" and "waitqs ks q = t # ts"
  shows "woken_up v t (z_reschedule (wake_thread_data v x t ks))"
proof (rule woken_upI [OF wake_first_data(1) [OF assms]])
  let ?u = "snd (z_abort_thread_timeout t (unpend_thread_no_timeout t ks))"
  have t: "t \<in> set (waitqs ks q)" using assms(2) by simp
  then show "t \<noteq> idle_thread (wake_thread_data v x t ks)"
    using waitq_pended(1) [OF system_ok_parts(3) [OF assms(1)]] pended_not_idle [OF system_ok_parts(3) [OF assms(1)]] by auto
  show "t \<noteq> current (wake_thread_data v x t ks) \<or> in_isr (wake_thread_data v x t ks)"
    using waiting_not_current [OF assms(1) t] by auto
  have "z_unpend_first_thread q ks = (Some t, ?u)"
    by (simp add: unpend_first_cases assms(2))
  then have "kernel_ok_but {t} (z_thread_return_value_set_with_data t v x ?u)"
    using z_unpend_first_thread_ok(1) [OF system_ok_parts(1) [OF assms(1)]] kernel_ok_retval by blast
  then have "timeouts_ok (z_thread_return_value_set_with_data t v x ?u)" "timeouts_ok ks"
    using system_ok_parts(3) [OF assms(1)] sched_inv_timeouts by (auto simp: kernel_ok_but_def)
  then show "\<not> is_linked (wake_thread_data v x t ks) (ThreadTO t)"
    by (simp add: wake_thread_data_def z_ready_thread_def is_linked_ready_thread z_thread_return_value_set_with_data_def
        arch_thread_return_value_set_def is_linked_abort_thread)
qed simp_all

end
