(* ===== verification/Msgq.thy ===== *)
theory Msgq
  imports Kernel_Mem Math_Extras
begin

text \<open>
  Message queues (\<^verbatim>\<open>kernel/msg_q.c\<close>): a ring buffer of messages of one size in memory, and one wait queue for
  the threads that wait to read from an empty or to write to a full queue.  Shown are that the calls
  implement a bounded first-in first-out queue, that the pointers stay within the buffer under every
  interleaving, and that threads only wait while the queue is empty or full.  The counters have 32 bits in
  the code; they never exceed \<^verbatim>\<open>max_msgs\<close>, so that natural numbers model them.
\<close>

subsection \<open>The operations\<close>

record k_msgq =
  msg_size :: nat
  max_msgs :: nat
  buffer_start :: addr
  buffer_end :: addr
  read_ptr :: addr
  write_ptr :: addr
  used_msgs :: nat
  msgq_flags :: u8

definition K_MSGQ_FLAG_ALLOC :: u8 where
  "K_MSGQ_FLAG_ALLOC = 1"

definition k_msgq_init :: "addr \<Rightarrow> addr \<Rightarrow> nat \<Rightarrow> nat \<Rightarrow> k_msgq \<Rightarrow> 'a kernel_scheme \<Rightarrow> k_msgq \<times> 'a kernel_scheme" where
  "k_msgq_init a buffer sz nmax msgq ks =
     (msgq\<lparr>msg_size := sz, max_msgs := nmax, buffer_start := buffer,
           buffer_end := buffer + (nmax * sz) mod 2 ^ 32,
           read_ptr := buffer, write_ptr := buffer, used_msgs := 0, msgq_flags := 0\<rparr>,
      z_waitq_init (ObjQ a) ks)"

text \<open>The heap of the calling thread is a parameter: \<open>malloc\<close> returns an address, \<open>NULL\<close> if there is no room.\<close>

definition k_msgq_alloc_init ::
    "(nat \<Rightarrow> 'a kernel_scheme \<Rightarrow> addr \<times> 'a kernel_scheme) \<Rightarrow> addr \<Rightarrow> u32 \<Rightarrow> u32 \<Rightarrow> k_msgq \<Rightarrow> 'a kernel_scheme \<Rightarrow>
     retval \<times> k_msgq \<times> 'a kernel_scheme" where
  "k_msgq_alloc_init malloc a sz nmax msgq ks =
     (case size_mul_overflow sz nmax of
        (overflow, total_size) \<Rightarrow>
          if overflow then (Inl EINVAL, msgq, ks)
          else (case malloc (unat total_size) ks of
                  (buffer, ks) \<Rightarrow>
                    if buffer \<noteq> NULL
                    then (let (msgq, ks) = k_msgq_init a buffer (unat sz) (unat nmax) msgq ks
                          in (ret_ok, msgq\<lparr>msgq_flags := K_MSGQ_FLAG_ALLOC\<rparr>, ks))
                    else (Inl ENOMEM, msgq, ks)))"

definition k_msgq_cleanup ::
    "(addr \<Rightarrow> 'a kernel_scheme \<Rightarrow> 'a kernel_scheme) \<Rightarrow> addr \<Rightarrow> k_msgq \<Rightarrow> 'a kernel_scheme \<Rightarrow>
     retval \<times> k_msgq \<times> 'a kernel_scheme" where
  "k_msgq_cleanup free a msgq ks =
     (if z_waitq_head ks (ObjQ a) \<noteq> None then (Inl EBUSY, msgq, ks)
      else if msgq_flags msgq AND K_MSGQ_FLAG_ALLOC \<noteq> 0
      then (ret_ok, msgq\<lparr>msgq_flags := msgq_flags msgq AND NOT K_MSGQ_FLAG_ALLOC\<rparr>, free (buffer_start msgq) ks)
      else (ret_ok, msgq, ks))"

text \<open>Copying a message to the ring, and advancing the write pointer.\<close>

definition msgq_store :: "addr \<Rightarrow> k_msgq \<Rightarrow> 'a kernel_scheme \<Rightarrow> k_msgq \<times> 'a kernel_scheme" where
  "msgq_store data msgq ks =
     (let ks = memcpy (write_ptr msgq) data (msg_size msgq) ks;
          msgq = msgq\<lparr>write_ptr := write_ptr msgq + msg_size msgq\<rparr>;
          msgq = (if write_ptr msgq = buffer_end msgq then msgq\<lparr>write_ptr := buffer_start msgq\<rparr> else msgq)
      in (msgq\<lparr>used_msgs := used_msgs msgq + 1\<rparr>, ks))"

definition k_msgq_put :: "addr \<Rightarrow> addr \<Rightarrow> k_timeout \<Rightarrow> k_msgq \<Rightarrow> 'a kernel_scheme \<Rightarrow> retval outcome \<times> k_msgq \<times> 'a kernel_scheme" where
  "k_msgq_put a data timeout msgq ks =
     (if used_msgs msgq < max_msgs msgq
      then (case z_unpend_first_thread (ObjQ a) ks of
              (Some pending_thread, ks) \<Rightarrow>
                (let ks = memcpy (swap_data (threads ks pending_thread)) data (msg_size msgq) ks;
                     ks = arch_thread_return_value_set pending_thread ret_ok ks;
                     ks = z_ready_thread pending_thread ks
                 in (Done ret_ok, msgq, z_reschedule ks))
            | (None, ks) \<Rightarrow>
                (let (msgq, ks) = msgq_store data msgq ks in (Done ret_ok, msgq, ks)))
      else if timeout = K_NO_WAIT then (Done (Inl ENOMSG), msgq, ks)
      else (let ks = upd_thread (current ks) (\<lambda>th. th\<lparr>swap_data := data\<rparr>) ks
            in (Blocked, msgq, z_pend_curr (Some (ObjQ a)) timeout ks)))"

definition k_msgq_get :: "addr \<Rightarrow> addr \<Rightarrow> k_timeout \<Rightarrow> k_msgq \<Rightarrow> 'a kernel_scheme \<Rightarrow> retval outcome \<times> k_msgq \<times> 'a kernel_scheme" where
  "k_msgq_get a data timeout msgq ks =
     (if used_msgs msgq > 0
      then (let ks = memcpy data (read_ptr msgq) (msg_size msgq) ks;
                msgq = msgq\<lparr>read_ptr := read_ptr msgq + msg_size msgq\<rparr>;
                msgq = (if read_ptr msgq = buffer_end msgq then msgq\<lparr>read_ptr := buffer_start msgq\<rparr> else msgq);
                msgq = msgq\<lparr>used_msgs := used_msgs msgq - 1\<rparr>
            in (case z_unpend_first_thread (ObjQ a) ks of
                  (Some pending_thread, ks) \<Rightarrow>
                    (let (msgq, ks) = msgq_store (swap_data (threads ks pending_thread)) msgq ks;
                         ks = arch_thread_return_value_set pending_thread ret_ok ks;
                         ks = z_ready_thread pending_thread ks
                     in (Done ret_ok, msgq, z_reschedule ks))
                | (None, ks) \<Rightarrow> (Done ret_ok, msgq, ks)))
      else if timeout = K_NO_WAIT then (Done (Inl ENOMSG), msgq, ks)
      else (let ks = upd_thread (current ks) (\<lambda>th. th\<lparr>swap_data := data\<rparr>) ks
            in (Blocked, msgq, z_pend_curr (Some (ObjQ a)) timeout ks)))"

record k_msgq_attrs =
  attrs_msg_size :: nat
  attrs_max_msgs :: nat
  attrs_used_msgs :: nat

definition k_msgq_get_attrs :: "k_msgq \<Rightarrow> k_msgq_attrs" where
  "k_msgq_get_attrs msgq =
     \<lparr>attrs_msg_size = msg_size msgq, attrs_max_msgs = max_msgs msgq, attrs_used_msgs = used_msgs msgq\<rparr>"

definition k_msgq_peek :: "addr \<Rightarrow> k_msgq \<Rightarrow> 'a kernel_scheme \<Rightarrow> retval \<times> 'a kernel_scheme" where
  "k_msgq_peek data msgq ks =
     (if used_msgs msgq > 0 then (ret_ok, memcpy data (read_ptr msgq) (msg_size msgq) ks) else (Inl ENOMSG, ks))"

definition k_msgq_peek_at :: "addr \<Rightarrow> nat \<Rightarrow> k_msgq \<Rightarrow> 'a kernel_scheme \<Rightarrow> retval \<times> 'a kernel_scheme" where
  "k_msgq_peek_at data i msgq ks =
     (if used_msgs msgq > i
      then (let bytes_to_end = buffer_end msgq - read_ptr msgq;
                byte_offset = i * msg_size msgq;
                (start_addr, byte_offset) =
                  (if bytes_to_end \<le> byte_offset then (buffer_start msgq, byte_offset - bytes_to_end)
                   else (read_ptr msgq, byte_offset))
            in (ret_ok, memcpy data (start_addr + byte_offset) (msg_size msgq) ks))
      else (Inl ENOMSG, ks))"

partial_function (option) msgq_purge_loop :: "addr \<Rightarrow> 'a kernel_scheme \<Rightarrow> 'a kernel_scheme option" where
  "msgq_purge_loop a ks =
     (case z_unpend_first_thread (ObjQ a) ks of
        (pending_thread, ks) \<Rightarrow>
          if pending_thread \<noteq> None
          then (let ks = arch_thread_return_value_set (the pending_thread) (Inl ENOMSG) ks;
                    ks = z_ready_thread (the pending_thread) ks
                in msgq_purge_loop a ks)
          else Some ks)"

definition k_msgq_purge :: "addr \<Rightarrow> k_msgq \<Rightarrow> 'a kernel_scheme \<Rightarrow> (k_msgq \<times> 'a kernel_scheme) option" where
  "k_msgq_purge a msgq ks =
     map_option (\<lambda>ks. (msgq\<lparr>used_msgs := 0, read_ptr := write_ptr msgq\<rparr>, z_reschedule ks)) (msgq_purge_loop a ks)"

definition k_msgq_num_free_get :: "k_msgq \<Rightarrow> nat" where
  "k_msgq_num_free_get msgq = max_msgs msgq - used_msgs msgq"

definition k_msgq_num_used_get :: "k_msgq \<Rightarrow> nat" where
  "k_msgq_num_used_get msgq = used_msgs msgq"

subsection \<open>The queue of messages in the ring\<close>

definition slot :: "k_msgq \<Rightarrow> nat \<Rightarrow> addr" where
  "slot m i = buffer_start m + i mod max_msgs m * msg_size m"

definition read_idx :: "k_msgq \<Rightarrow> nat" where
  "read_idx m = (read_ptr m - buffer_start m) div msg_size m"

definition contents :: "k_msgq \<Rightarrow> 'a kernel_scheme \<Rightarrow> u8 list list" where
  "contents m ks = map (\<lambda>i. bytes_at ks (slot m (read_idx m + i)) (msg_size m)) [0..<used_msgs m]"

definition ring_wf :: "k_msgq \<Rightarrow> bool" where
  "ring_wf m \<longleftrightarrow> 0 < msg_size m \<and> 0 < max_msgs m \<and> buffer_end m = buffer_start m + max_msgs m * msg_size m \<and>
     read_idx m < max_msgs m \<and> read_ptr m = slot m (read_idx m) \<and> write_ptr m = slot m (read_idx m + used_msgs m) \<and>
     used_msgs m \<le> max_msgs m"

lemma length_contents [simp]: "length (contents m ks) = used_msgs m"
  by (simp add: contents_def)

text \<open>The next slot: one message further, or the start of the buffer.\<close>

lemma slot_Suc:
  assumes "0 < msg_size m" "0 < max_msgs m" "buffer_end m = buffer_start m + max_msgs m * msg_size m"
  shows "(if slot m i + msg_size m = buffer_end m then buffer_start m else slot m i + msg_size m) = slot m (Suc i)"
proof -
  have "slot m i + msg_size m = buffer_start m + Suc (i mod max_msgs m) * msg_size m" by (simp add: slot_def)
  then have "slot m i + msg_size m = buffer_end m \<longleftrightarrow> Suc (i mod max_msgs m) = max_msgs m"
    using assms by (auto simp only: add_left_cancel mult_cancel2)
  then show ?thesis by (simp add: slot_def mod_Suc)
qed

lemma slot_disjoint:
  assumes "i mod max_msgs m \<noteq> j mod max_msgs m"
  shows "disjoint_mem (slot m i) (msg_size m) (slot m j) (msg_size m)"
proof -
  have "Suc i' * s \<le> j' * s \<or> Suc j' * s \<le> i' * s" if "i' \<noteq> j'" for i' j' s :: nat
    using that by (metis Suc_leI linorder_neqE_nat mult_le_mono1)
  from this [OF assms, of "msg_size m"] show ?thesis
    unfolding disjoint_mem_def slot_def by (simp add: add.assoc add.commute)
qed

lemma slot_in_ring:
  assumes "0 < max_msgs m" "disjoint_mem p n (buffer_start m) (max_msgs m * msg_size m)"
  shows "disjoint_mem p n (slot m i) (msg_size m)"
proof -
  have "Suc (i mod max_msgs m) * msg_size m \<le> max_msgs m * msg_size m"
    using assms(1) by (intro mult_le_mono1 Suc_leI) simp
  then show ?thesis using assms(2) by (auto simp: disjoint_mem_def slot_def)
qed

lemma mod_add_distinct: "i < j \<Longrightarrow> j - i < n \<Longrightarrow> i mod n \<noteq> j mod n" for i j n :: nat
  by (metis dvd_imp_le mod_eq_dvd_iff_nat nless_le zero_less_diff not_less)

lemma read_idx_slot:
  assumes "0 < msg_size m" "read_ptr m = slot m i"
  shows "read_idx m = i mod max_msgs m"
  using assms by (simp add: read_idx_def slot_def)

lemma contents_cong: "mem ks' = mem ks \<Longrightarrow> contents m ks' = contents m ks"
  by (simp add: contents_def bytes_at_def)

text \<open>Memory the ring occupies; copying elsewhere leaves the messages alone.\<close>

definition outside :: "k_msgq \<Rightarrow> addr \<Rightarrow> bool" where
  "outside m p \<longleftrightarrow> disjoint_mem p (msg_size m) (buffer_start m) (max_msgs m * msg_size m)"

lemma contents_copy:
  "ring_wf m \<Longrightarrow> outside m p \<Longrightarrow> contents m (memcpy p s (msg_size m) ks) = contents m ks"
  by (simp add: contents_def ring_wf_def outside_def bytes_at_other slot_in_ring)

lemma msgq_store_ok:
  assumes "ring_wf m" "used_msgs m < max_msgs m" "msgq_store data m ks = (m', ks')"
  shows "ring_wf m'" "used_msgs m' = Suc (used_msgs m)" "ks' = memcpy (write_ptr m) data (msg_size m) ks"
    and "contents m' ks' = contents m ks @ [bytes_at ks data (msg_size m)]"
    and "max_msgs m' = max_msgs m \<and> msg_size m' = msg_size m \<and> buffer_start m' = buffer_start m"
proof -
  let ?w = "read_idx m + used_msgs m"
  have m': "m' = m\<lparr>write_ptr := slot m (Suc ?w), used_msgs := Suc (used_msgs m)\<rparr>"
    and k: "ks' = memcpy (write_ptr m) data (msg_size m) ks"
    using assms slot_Suc [of m ?w] by (auto simp: msgq_store_def Let_def ring_wf_def split: if_splits)
  show "used_msgs m' = Suc (used_msgs m)" "ks' = memcpy (write_ptr m) data (msg_size m) ks"
    "max_msgs m' = max_msgs m \<and> msg_size m' = msg_size m \<and> buffer_start m' = buffer_start m"
    using m' k by simp_all
  have s: "slot m' = slot m" "read_idx m' = read_idx m" "msg_size m' = msg_size m"
    by (simp_all add: m' slot_def read_idx_def fun_eq_iff)
  show "ring_wf m'" using assms(1,2) s by (simp add: ring_wf_def) (simp add: m')
  have "disjoint_mem (slot m ?w) (msg_size m) (slot m (read_idx m + i)) (msg_size m)" if "i < used_msgs m" for i
  proof (rule slot_disjoint)
    have "(read_idx m + i) mod max_msgs m \<noteq> ?w mod max_msgs m"
      using that assms(2) by (intro mod_add_distinct) simp_all
    then show "?w mod max_msgs m \<noteq> (read_idx m + i) mod max_msgs m" by simp
  qed
  then show "contents m' ks' = contents m ks @ [bytes_at ks data (msg_size m)]"
    using assms(1) s by (simp add: contents_def ring_wf_def bytes_at_other bytes_at_copied k) (simp add: m' bytes_at_copied bytes_at_other)
qed

definition msgq_drop :: "k_msgq \<Rightarrow> k_msgq" where
  "msgq_drop m = m\<lparr>read_ptr := if read_ptr m + msg_size m = buffer_end m then buffer_start m else read_ptr m + msg_size m,
     used_msgs := used_msgs m - 1\<rparr>"

lemma msgq_drop_ok:
  assumes "ring_wf m" "0 < used_msgs m"
  shows "ring_wf (msgq_drop m)" "contents m ks = bytes_at ks (read_ptr m) (msg_size m) # contents (msgq_drop m) ks"
    and "used_msgs (msgq_drop m) = used_msgs m - 1"
proof -
  let ?m = "msgq_drop m"
  have r: "read_ptr ?m = slot m (Suc (read_idx m))"
    using assms slot_Suc [of m "read_idx m"] by (simp add: msgq_drop_def ring_wf_def split: if_splits)
  have s: "slot ?m = slot m" "msg_size ?m = msg_size m" "max_msgs ?m = max_msgs m" "write_ptr ?m = write_ptr m"
    "buffer_start ?m = buffer_start m" "buffer_end ?m = buffer_end m" "used_msgs ?m = used_msgs m - 1"
    by (simp_all add: msgq_drop_def slot_def fun_eq_iff)
  then have i: "read_idx ?m = Suc (read_idx m) mod max_msgs m"
    using assms read_idx_slot [of ?m "Suc (read_idx m)"] r by (simp add: ring_wf_def)
  have sl: "slot m (Suc (read_idx m) mod max_msgs m + j) = slot m (Suc (read_idx m) + j)" for j
    by (simp add: slot_def mod_simps)
  show "ring_wf ?m"
    using assms s r i sl [of "used_msgs m - 1"] sl [of 0] by (auto simp: ring_wf_def)
  show "contents m ks = bytes_at ks (read_ptr m) (msg_size m) # contents ?m ks"
    unfolding contents_def s i sl using assms
    by (cases "used_msgs m") (simp_all add: ring_wf_def upt_conv_Cons map_Suc_upt [symmetric] del: upt_Suc)
  show "used_msgs ?m = used_msgs m - 1" by (rule s)
qed

subsection \<open>The branches of the calls\<close>

lemma swap_data_wait: "wait_data th = wait_data th' \<Longrightarrow> swap_data th = swap_data th'"
  by (simp add: wait_data_def)

lemma swap_data_fields [simp]:
  "swap_data (threads (unpend_thread_no_timeout t ks) u) = swap_data (threads ks u)"
  "swap_data (threads (z_reschedule ks) u) = swap_data (threads ks u)"
  "swap_data (threads (wake_thread_copy v t p s n ks) u) = swap_data (threads ks u)"
  by (rule swap_data_wait, simp)+

lemma put_stores:
  "used_msgs m < max_msgs m \<Longrightarrow> waitqs ks (ObjQ a) = [] \<Longrightarrow>
   k_msgq_put a data timeout m ks = (Done ret_ok, msgq_store data m ks)"
  by (simp add: k_msgq_put_def unpend_first_cases split: prod.split)

lemma put_hands_over:
  "used_msgs m < max_msgs m \<Longrightarrow> waitqs ks (ObjQ a) = t # ts \<Longrightarrow>
   k_msgq_put a data timeout m ks =
     (Done ret_ok, m, z_reschedule (wake_thread_copy ret_ok t (swap_data (threads ks t)) data (msg_size m) ks))"
  by (simp add: k_msgq_put_def unpend_first_cases wake_thread_copy_def Let_def)

lemma put_full:
  "\<not> used_msgs m < max_msgs m \<Longrightarrow>
   k_msgq_put a data timeout m ks =
     (if timeout = K_NO_WAIT then (Done (Inl ENOMSG), m, ks)
      else (Blocked, m, z_pend_curr (Some (ObjQ a)) timeout (upd_thread (current ks) (\<lambda>th. th\<lparr>swap_data := data\<rparr>) ks)))"
  by (simp add: k_msgq_put_def)

lemma get_takes:
  "0 < used_msgs m \<Longrightarrow> waitqs ks (ObjQ a) = [] \<Longrightarrow>
   k_msgq_get a data timeout m ks = (Done ret_ok, msgq_drop m, memcpy data (read_ptr m) (msg_size m) ks)"
  by (simp add: k_msgq_get_def unpend_first_cases msgq_drop_def Let_def)

lemma get_refills:
  "0 < used_msgs m \<Longrightarrow> waitqs ks (ObjQ a) = t # ts \<Longrightarrow>
   k_msgq_get a data timeout m ks =
     (let k1 = memcpy data (read_ptr m) (msg_size m) ks
      in (Done ret_ok, fst (msgq_store (swap_data (threads ks t)) (msgq_drop m) k1),
          z_reschedule (wake_thread_copy ret_ok t (write_ptr m) (swap_data (threads ks t)) (msg_size m) k1)))"
  by (simp add: k_msgq_get_def unpend_first_cases msgq_drop_def Let_def wake_thread_copy_def msgq_store_def)

lemma get_empty:
  "used_msgs m = 0 \<Longrightarrow>
   k_msgq_get a data timeout m ks =
     (if timeout = K_NO_WAIT then (Done (Inl ENOMSG), m, ks)
      else (Blocked, m, z_pend_curr (Some (ObjQ a)) timeout (upd_thread (current ks) (\<lambda>th. th\<lparr>swap_data := data\<rparr>) ks)))"
  by (simp add: k_msgq_get_def)

lemma purge_loop_returns:
  "system_ok d ks \<Longrightarrow> waitqs ks (ObjQ a) = ts \<Longrightarrow> msgq_purge_loop a ks = Some (fold (wake_thread (Inl ENOMSG)) ts ks)"
proof (induction ts arbitrary: ks)
  case Nil
  then show ?case by (subst msgq_purge_loop.simps) (simp add: unpend_first_cases)
next
  case (Cons t ts)
  have "msgq_purge_loop a ks = msgq_purge_loop a (wake_thread (Inl ENOMSG) t ks)"
    using Cons.prems(2) by (subst msgq_purge_loop.simps) (simp add: unpend_first_cases wake_thread_def)
  then show ?case using Cons wake_first(1,2) [of d ks "ObjQ a" t ts "Inl ENOMSG"] by simp
qed

subsection \<open>The message queue as a kernel object\<close>

inductive msgq_calls :: "addr \<Rightarrow> k_msgq \<times> 'a kernel_scheme \<Rightarrow> k_msgq \<times> 'a kernel_scheme \<Rightarrow> bool" for a where
  put: "timeout = K_NO_WAIT \<or> may_block ks \<Longrightarrow> outside m data \<Longrightarrow>
    msgq_calls a (m, ks) (snd (k_msgq_put a data timeout m ks))"
| get: "timeout = K_NO_WAIT \<or> may_block ks \<Longrightarrow> outside m data \<Longrightarrow>
    msgq_calls a (m, ks) (snd (k_msgq_get a data timeout m ks))"
| peek: "outside m data \<Longrightarrow> msgq_calls a (m, ks) (m, snd (k_msgq_peek data m ks))"
| peek_at: "outside m data \<Longrightarrow> msgq_calls a (m, ks) (m, snd (k_msgq_peek_at data i m ks))"
| purge: "k_msgq_purge a m ks = Some s \<Longrightarrow> msgq_calls a (m, ks) s"

definition msgq_inv :: "addr \<Rightarrow> k_msgq \<Rightarrow> 'a kernel_scheme \<Rightarrow> bool" where
  "msgq_inv a m ks \<longleftrightarrow> ring_wf m \<and> (waitqs ks (ObjQ a) \<noteq> [] \<longrightarrow> used_msgs m = 0 \<or> used_msgs m = max_msgs m) \<and>
     (\<forall>t \<in> set (waitqs ks (ObjQ a)). outside m (swap_data (threads ks t)))"

lemma pend_swap_data [simp]: "swap_data (threads (z_pend_curr q w ks) u) = swap_data (threads ks u)"
  using keeps_calls(4) [of "{}" ks q w] by (auto simp: keeps_data_def intro: swap_data_wait)

lemma pend_with_data:
  fixes ks :: "'a kernel_scheme" and x :: addr
  defines "k \<equiv> upd_thread (current ks) (\<lambda>th. th\<lparr>swap_data := x\<rparr>) ks"
  shows "mem (z_pend_curr (Some q) w k) = mem ks" "swap_data (threads (z_pend_curr (Some q) w k) (current ks)) = x"
    "pended_on (threads (z_pend_curr (Some q) w k) (current ks)) = Some q"
proof -
  show "mem (z_pend_curr (Some q) w k) = mem ks" "swap_data (threads (z_pend_curr (Some q) w k) (current ks)) = x"
    by (simp add: z_pend_curr_def pend_locked_def k_def) (simp add: k_def upd_thread_def)
  show "pended_on (threads (z_pend_curr (Some q) w k) (current ks)) = Some q"
    by (simp add: z_pend_curr_def pend_locked_def add_thread_timeout_def add_to_waitq_locked_def waitq_add_def Let_def
        z_swap_def do_swap_def arch_thread_return_value_set_def upd_thread_def k_def)
qed

lemma msgq_pend_ok:
  assumes "object_ok d (msgq_inv a) (m, ks)" "may_block ks" "outside m data" "used_msgs m = 0 \<or> used_msgs m = max_msgs m"
  shows "object_ok d (msgq_inv a) (m, z_pend_curr (Some (ObjQ a)) w (upd_thread (current ks) (\<lambda>th. th\<lparr>swap_data := data\<rparr>) ks))"
proof -
  let ?k = "upd_thread (current ks) (\<lambda>th. th\<lparr>swap_data := data\<rparr>) ks"
  have "system_ok d ?k" using assms(1) by (auto intro!: inv_intros)
  moreover have "may_block ?k" using assms(2) by (simp add: may_block_def)
  ultimately show ?thesis
    using assms pend_curr [of d ?k "ObjQ a" w] by (auto simp: msgq_inv_def upd_thread_def)
qed

lemma msgq_put_ok:
  assumes "object_ok d (msgq_inv a) (m, ks)" "timeout = K_NO_WAIT \<or> may_block ks" "outside m data"
  shows "object_ok d (msgq_inv a) (snd (k_msgq_put a data timeout m ks))"
proof (cases "used_msgs m < max_msgs m")
  case False
  then have "used_msgs m = max_msgs m" using assms(1) by (auto simp: msgq_inv_def ring_wf_def)
  then show ?thesis
    using assms msgq_pend_ok [OF assms(1) _ assms(3)] by (auto simp: put_full simp del: object_ok_simps)
next
  case True
  show ?thesis
  proof (cases "waitqs ks (ObjQ a)")
    case Nil
    obtain m' ks' where s: "msgq_store data m ks = (m', ks')" by fastforce
    then show ?thesis
      using assms(1) msgq_store_ok [OF _ True s] Nil
      by (auto simp: put_stores [OF True Nil] msgq_inv_def intro!: inv_intros)
  next
    case (Cons t ts)
    then show ?thesis
      using assms wake_first_copy [OF _ Cons, of d ret_ok "swap_data (threads ks t)" data "msg_size m"]
      by (auto simp: put_hands_over [OF True Cons] msgq_inv_def intro!: inv_intros)
  qed
qed


lemma msgq_get_ok:
  assumes "object_ok d (msgq_inv a) (m, ks)" "timeout = K_NO_WAIT \<or> may_block ks" "outside m data"
  shows "object_ok d (msgq_inv a) (snd (k_msgq_get a data timeout m ks))"
proof (cases "used_msgs m = 0")
  case True
  then show ?thesis
    using assms msgq_pend_ok [OF assms(1) _ assms(3)] by (auto simp: get_empty simp del: object_ok_simps)
next
  case False
  then have u: "0 < used_msgs m" by simp
  have wf: "ring_wf m" and ok: "system_ok d ks" using assms(1) by (simp_all add: msgq_inv_def)
  note dr = msgq_drop_ok [OF wf u]
  let ?k = "memcpy data (read_ptr m) (msg_size m) ks"
  have k: "system_ok d ?k" using ok by (rule system_ok_mem)
  show ?thesis
  proof (cases "waitqs ks (ObjQ a)")
    case Nil
    then show ?thesis using dr k by (simp add: get_takes [OF u Nil] msgq_inv_def)
  next
    case (Cons t ts)
    have c: "waitqs ?k (ObjQ a) = t # ts" using Cons by simp
    have full: "used_msgs m = max_msgs m" using assms(1) Cons u by (simp add: msgq_inv_def)
    obtain m' k' where s: "msgq_store (swap_data (threads ks t)) (msgq_drop m) ?k = (m', k')" by fastforce
    have "used_msgs (msgq_drop m) < max_msgs (msgq_drop m)" using u full dr(3) by (simp add: msgq_drop_def)
    note st = msgq_store_ok [OF dr(1) this s]
    have "used_msgs m' = max_msgs m'" "outside m' = outside m"
      using st(2,5) u full by (simp_all add: msgq_drop_def outside_def fun_eq_iff)
    then show ?thesis
      using assms(1) Cons s st(1) wake_first_copy [OF k c, of ret_ok "write_ptr m" "swap_data (threads ks t)" "msg_size m"]
      by (auto simp: get_refills [OF u Cons] msgq_inv_def intro!: inv_intros)
  qed
qed

lemma k_msgq_purge_returns:
  "system_ok d ks \<Longrightarrow> k_msgq_purge a m ks =
     Some (m\<lparr>used_msgs := 0, read_ptr := write_ptr m\<rparr>, z_reschedule (fold (wake_thread (Inl ENOMSG)) (waitqs ks (ObjQ a)) ks))"
  by (simp add: k_msgq_purge_def purge_loop_returns [OF _ refl])

lemma purged_wf: "ring_wf m \<Longrightarrow> ring_wf (m\<lparr>used_msgs := 0, read_ptr := write_ptr m\<rparr>)"
proof -
  let ?m = "m\<lparr>used_msgs := 0, read_ptr := write_ptr m\<rparr>"
  assume "ring_wf m"
  moreover from this have "read_idx ?m = (read_idx m + used_msgs m) mod max_msgs m"
    by (intro read_idx_slot [of ?m, simplified]) (auto simp: ring_wf_def slot_def)
  ultimately show ?thesis by (auto simp: ring_wf_def slot_def)
qed

lemma msgq_purge_ok:
  assumes "object_ok d (msgq_inv a) (m, ks)" "k_msgq_purge a m ks = Some s"
  shows "object_ok d (msgq_inv a) s"
  using assms wake_all_ok [of d ks "ObjQ a" _ "Inl ENOMSG", OF _ refl] purged_wf [of m]
  by (auto simp: k_msgq_purge_returns msgq_inv_def intro!: inv_intros)

interpretation msgq: kernel_object d "{ObjQ a}" "msgq_calls a" "msgq_inv a" for d a
proof
  show "object_ok d (msgq_inv a) t" if "msgq_calls a s t" "object_ok d (msgq_inv a) s" for s t
    using that
  proof (induction rule: msgq_calls.induct)
    case (peek m data ks)
    then show ?case by (auto simp: k_msgq_peek_def msgq_inv_def intro!: inv_intros)
  next
    case (peek_at m data ks i)
    then show ?case by (auto simp: k_msgq_peek_at_def msgq_inv_def Let_def intro!: inv_intros)
  qed (auto simp del: object_ok_simps intro: msgq_put_ok msgq_get_ok msgq_purge_ok)
  show "msgq_inv a ob ks'" if "msgq_inv a ob ks" "undisturbed (- {ObjQ a}) ks ks'" for ob ks ks'
  proof -
    have "set (waitqs ks' (ObjQ a)) \<subseteq> set (waitqs ks (ObjQ a))" "waitqs ks' (ObjQ a) \<noteq> [] \<Longrightarrow> waitqs ks (ObjQ a) \<noteq> []"
      using that(2) shrinks_waiting [of "{ObjQ a}" ks ks' "ObjQ a"] by (auto simp: undisturbed_def)
    moreover have "swap_data (threads ks' t) = swap_data (threads ks t)" if "t \<in> set (waitqs ks' (ObjQ a))" for t
      using that \<open>undisturbed (- {ObjQ a}) ks ks'\<close> by (auto simp: undisturbed_def intro: swap_data_wait)
    ultimately show ?thesis using that(1) by (auto simp: msgq_inv_def)
  qed
qed auto

subsection \<open>Properties\<close>

lemma msgq_init_ok:
  assumes "k_msgq_init a buf sz n m ks = (m0, ks0)" "0 < sz" "0 < n" "n * sz < 2 ^ 32" "waitqs ks (ObjQ a) = []"
  shows "msgq_inv a m0 ks0" "ks0 = ks" "contents m0 ks0 = []" "max_msgs m0 = n" "msg_size m0 = sz" "buffer_start m0 = buf"
  using assms
  by (auto simp: k_msgq_init_def msgq_inv_def ring_wf_def read_idx_def slot_def z_waitq_init_empty contents_def)

text \<open>The calls never change where the buffer is and how it is divided.\<close>

definition geometry :: "k_msgq \<Rightarrow> addr \<times> addr \<times> nat \<times> nat" where
  "geometry m = (buffer_start m, buffer_end m, msg_size m, max_msgs m)"

lemma geometry_upd [simp]:
  "geometry (m\<lparr>used_msgs := x\<rparr>) = geometry m" "geometry (m\<lparr>read_ptr := p\<rparr>) = geometry m" "geometry (m\<lparr>write_ptr := p\<rparr>) = geometry m"
  by (simp_all add: geometry_def)

lemma msgq_store_geometry: "geometry (fst (msgq_store data m ks)) = geometry m"
  by (simp add: msgq_store_def Let_def)

lemma msgq_calls_geometry: "msgq_calls a s t \<Longrightarrow> geometry (fst t) = geometry (fst s)"
proof (induction rule: msgq_calls.induct)
  case (put timeout ks m data)
  then show ?case
    by (auto simp: k_msgq_put_def Let_def msgq_store_geometry split: prod.splits option.splits)
next
  case (get timeout ks m data)
  then show ?case
    by (auto simp: k_msgq_get_def Let_def msgq_store_def split: prod.splits option.splits)
next
  case (purge m ks s)
  then show ?case
    by (auto simp: k_msgq_purge_def Let_def)
qed simp_all

lemma interleaved_geometry: "interleaved d Q (msgq_calls a) s t \<Longrightarrow> geometry (fst t) = geometry (fst s)"
  by (induction rule: interleaved.induct) (auto dest: msgq_calls_geometry)

text \<open>C27: A message queue on a buffer of \<open>n\<close> messages of \<open>sz\<close> bytes stays sound whatever threads and interrupts do:
  it keeps the buffer and the sizes it was given, it never holds more than \<open>n\<close> messages, its read and write pointers
  always point to the start of a message slot of the buffer, the write pointer as many slots behind the read pointer,
  around the end, as there are messages, and threads wait for it only while it is empty or full.\<close>

theorem msgq_stays_in_buffer:
  assumes "k_msgq_init a buf sz n m ks = (m0, ks0)" "0 < sz" "0 < n" "n * sz < 2 ^ 32"
    and "system_ok d ks" "waitqs ks (ObjQ a) = []" "interleaved d {ObjQ a} (msgq_calls a) (m0, ks0) (m1, ks1)"
  shows "buffer_start m1 = buf \<and> buffer_end m1 = buf + n * sz \<and> msg_size m1 = sz \<and> max_msgs m1 = n \<and> used_msgs m1 \<le> n
    \<and> (\<exists>i < n. read_ptr m1 = buf + i * sz \<and> write_ptr m1 = buf + (i + used_msgs m1) mod n * sz)
    \<and> read_ptr m1 + sz \<le> buf + n * sz \<and> write_ptr m1 + sz \<le> buf + n * sz
    \<and> (waitqs ks1 (ObjQ a) \<noteq> [] \<longrightarrow> used_msgs m1 = 0 \<or> used_msgs m1 = n)"
proof -
  have "object_ok d (msgq_inv a) (m1, ks1)"
    using msgq.interleaved_ok [OF assms(7)] msgq_init_ok [OF assms(1-4,6)] assms(5) by simp
  then have i: "msgq_inv a m1 ks1" by simp
  have "buffer_start m0 = buf" "buffer_end m0 = buf + n * sz" "msg_size m0 = sz" "max_msgs m0 = n"
    using assms(1,4) by (auto simp: k_msgq_init_def Let_def)
  then have g: "buffer_start m1 = buf" "buffer_end m1 = buf + n * sz" "msg_size m1 = sz" "max_msgs m1 = n"
    using interleaved_geometry [OF assms(7)] by (simp_all add: geometry_def)
  have "Suc (k mod n) * sz \<le> n * sz" for k
    using assms(3) by (intro mult_le_mono1 Suc_leI) simp
  then have "slot m1 k + sz \<le> buf + n * sz" for k
    by (simp add: slot_def g add.commute)
  moreover have "read_ptr m1 = buf + read_idx m1 * sz" "read_idx m1 < n"
    "write_ptr m1 = buf + (read_idx m1 + used_msgs m1) mod n * sz"
    using i by (auto simp: msgq_inv_def ring_wf_def slot_def g)
  ultimately show ?thesis using i g by (auto simp: msgq_inv_def ring_wf_def)
qed

theorem msgq_stays_in_buffer_witness:
  "\<exists>m0. k_msgq_init 100 5000 4 2 m0 two_threads = (m0, two_threads)
     \<and> used_msgs (fst (snd (k_msgq_put 100 6000 K_NO_WAIT m0 two_threads))) \<le> 2"
proof -
  let ?m = "\<lparr>msg_size = 4, max_msgs = 2, buffer_start = 5000, buffer_end = 5008, read_ptr = 5000, write_ptr = 5000,
    used_msgs = 0, msgq_flags = 0\<rparr>"
  let ?s = "k_msgq_put 100 6000 K_NO_WAIT ?m two_threads"
  have q: "waitqs two_threads (ObjQ 100) = []" by code_simp
  then have i: "k_msgq_init 100 5000 4 2 ?m two_threads = (?m, two_threads)"
    by (simp add: k_msgq_init_def z_waitq_init_empty)
  have "outside ?m 6000" by (simp add: outside_def disjoint_mem_def)
  then have "interleaved 1 {ObjQ 100} (msgq_calls 100) (?m, two_threads) (snd ?s)"
    by (intro interleaved.call [OF interleaved.start] msgq_calls.put) simp_all
  then show ?thesis
    using msgq_stays_in_buffer [OF i, of 1 "fst (snd ?s)" "snd (snd ?s)"] two_threads_ok q i
    by (intro exI [of _ ?m]) (simp add: system_ok_def)
qed

text \<open>C25: \<^verbatim>\<open>k_msgq_put\<close> acts as a bounded first-in first-out queue.  With room and nobody waiting, the message is
  appended.  With a thread waiting to read, the message is copied to that thread's buffer, the thread leaves the
  queue with result 0, and the stored messages stay as they are.  On a full queue the call fails with
  \<^verbatim>\<open>-ENOMSG\<close> and changes nothing, or the caller waits, leaving the address of its message behind.\<close>

theorem msgq_put_refines:
  assumes "system_ok d ks" "msgq_inv a m ks" "outside m data" "k_msgq_put a data timeout m ks = (r, m', ks')" "\<not> in_isr ks"
  shows "if length (contents m ks) < max_msgs m
    then r = Done ret_ok \<and>
      (case waitqs ks (ObjQ a) of
         [] \<Rightarrow> contents m' ks' = contents m ks @ [bytes_at ks data (msg_size m)]
       | t # ts \<Rightarrow> contents m' ks' = contents m ks \<and>
           bytes_at ks' (swap_data (threads ks t)) (msg_size m) = bytes_at ks data (msg_size m) \<and>
           waitqs ks' (ObjQ a) = ts \<and> swap_retval (threads ks' t) = ret_ok)
    else if timeout = K_NO_WAIT then r = Done (Inl ENOMSG) \<and> m' = m \<and> ks' = ks
    else r = Blocked \<and> m' = m \<and> mem ks' = mem ks \<and> swap_data (threads ks' (current ks)) = data \<and>
      pended_on (threads ks' (current ks)) = Some (ObjQ a)"
proof (cases "used_msgs m < max_msgs m")
  case False
  then show ?thesis using assms(4) by (auto simp: put_full pend_with_data)
next
  case True
  have wf: "ring_wf m" using assms(2) by (simp add: msgq_inv_def)
  show ?thesis
  proof (cases "waitqs ks (ObjQ a)")
    case Nil
    then have s: "msgq_store data m ks = (m', ks')" "r = Done ret_ok"
      using assms(4) by (simp_all add: put_stores [OF True Nil])
    then show ?thesis using True Nil msgq_store_ok(4) [OF wf True s(1)] by simp
  next
    case (Cons t ts)
    have "outside m (swap_data (threads ks t))" using assms(2) Cons by (simp add: msgq_inv_def)
    then show ?thesis
      using True assms(4) Cons wake_first_copy(2) [OF assms(1) Cons] waiting_not_current [OF assms(1) _ assms(5), of t "ObjQ a"]
        contents_copy [OF wf, of _ data ks] bytes_at_copied [of _ data "msg_size m" ks]
      by (auto simp: put_hands_over [OF True Cons] reschedule_fields bytes_at_def contents_def)
  qed
qed

theorem msgq_put_refines_witness:
  "swap_retval (threads (snd (snd (k_msgq_put 100 6000 K_NO_WAIT \<lparr>msg_size = 4, max_msgs = 2, buffer_start = 5000,
      buffer_end = 5008, read_ptr = 5000, write_ptr = 5000, used_msgs = 0, msgq_flags = 0\<rparr> one_waiting))) 5) = ret_ok"
proof -
  let ?m = "\<lparr>msg_size = 4, max_msgs = 2, buffer_start = 5000, buffer_end = 5008, read_ptr = 5000, write_ptr = 5000,
    used_msgs = 0, msgq_flags = 0\<rparr>"
  let ?s = "k_msgq_put 100 6000 K_NO_WAIT ?m one_waiting"
  have "swap_data (threads one_waiting 5) = 0" by code_simp
  then have "msgq_inv 100 ?m one_waiting" "outside ?m 6000"
    using one_waiting_state by (simp_all add: msgq_inv_def ring_wf_def read_idx_def slot_def outside_def disjoint_mem_def)
  then show ?thesis
    using msgq_put_refines [OF one_waiting_ok, of 100 ?m 6000 K_NO_WAIT "fst ?s" "fst (snd ?s)" "snd (snd ?s)"]
      one_waiting_state
    by simp
qed

text \<open>C26: \<^verbatim>\<open>k_msgq_get\<close> returns the oldest message.  If a thread waits to write, its message takes the freed place at
  the end of the queue, and that thread leaves the wait queue with result 0.  On an empty queue the call fails with
  \<^verbatim>\<open>-ENOMSG\<close> and changes nothing, or the caller waits, leaving the address of its buffer behind.\<close>

theorem msgq_get_refines:
  assumes "system_ok d ks" "msgq_inv a m ks" "outside m data" "\<not> in_isr ks"
    and "\<forall>t \<in> set (waitqs ks (ObjQ a)). disjoint_mem data (msg_size m) (swap_data (threads ks t)) (msg_size m)"
    and "k_msgq_get a data timeout m ks = (r, m', ks')"
  shows "case contents m ks of
      msg # msgs \<Rightarrow> r = Done ret_ok \<and> bytes_at ks' data (msg_size m) = msg \<and>
        (case waitqs ks (ObjQ a) of
           [] \<Rightarrow> contents m' ks' = msgs
         | t # ts \<Rightarrow> contents m' ks' = msgs @ [bytes_at ks (swap_data (threads ks t)) (msg_size m)] \<and>
             waitqs ks' (ObjQ a) = ts \<and> swap_retval (threads ks' t) = ret_ok)
    | [] \<Rightarrow> if timeout = K_NO_WAIT then r = Done (Inl ENOMSG) \<and> m' = m \<and> ks' = ks
        else r = Blocked \<and> m' = m \<and> mem ks' = mem ks \<and> swap_data (threads ks' (current ks)) = data \<and>
          pended_on (threads ks' (current ks)) = Some (ObjQ a)"
proof (cases "used_msgs m = 0")
  case True
  then have "contents m ks = []" by (simp add: contents_def)
  then show ?thesis using True assms(6) by (auto simp: get_empty pend_with_data)
next
  case False
  then have u: "0 < used_msgs m" by simp
  have wf: "ring_wf m" using assms(2) by (simp add: msgq_inv_def)
  let ?k = "memcpy data (read_ptr m) (msg_size m) ks" and ?n = "msg_size m"
  note dr = msgq_drop_ok [OF wf u]
  have c: "contents m ks = bytes_at ks (read_ptr m) ?n # contents (msgq_drop m) ks" by (rule dr(2))
  have f: "msg_size (msgq_drop m) = ?n" "outside (msgq_drop m) = outside m" "write_ptr (msgq_drop m) = write_ptr m"
      "max_msgs (msgq_drop m) = max_msgs m"
    by (simp_all add: msgq_drop_def outside_def fun_eq_iff)
  have k: "contents (msgq_drop m) ?k = contents (msgq_drop m) ks" "bytes_at ?k data ?n = bytes_at ks (read_ptr m) ?n"
    using contents_copy [OF dr(1), of data "read_ptr m" ks] assms(3) f by (simp_all add: bytes_at_copied)
  show ?thesis
  proof (cases "waitqs ks (ObjQ a)")
    case Nil
    then show ?thesis using assms(6) c k by (auto simp: get_takes [OF u Nil])
  next
    case (Cons t ts)
    let ?t = "swap_data (threads ks t)"
    obtain m2 k2 where s: "msgq_store ?t (msgq_drop m) ?k = (m2, k2)" by fastforce
    have "used_msgs m = max_msgs m" using assms(2) Cons u by (simp add: msgq_inv_def)
    then have "used_msgs (msgq_drop m) < max_msgs (msgq_drop m)" using u dr(3) f by simp
    note st = msgq_store_ok [OF dr(1) this s]
    have m': "r = Done ret_ok" "m' = m2" "ks' = z_reschedule (wake_thread_copy ret_ok t (write_ptr m) ?t ?n ?k)"
      using assms(6) s by (simp_all add: get_refills [OF u Cons] Let_def)
    then have mem': "mem ks' = mem k2" using st(3) f by simp
    have "disjoint_mem (write_ptr m) ?n data ?n"
      using slot_in_ring [of m data ?n "read_idx m + used_msgs m"] wf assms(3)
      by (auto simp: ring_wf_def outside_def disjoint_mem_def)
    then have "bytes_at ks' data ?n = bytes_at ks (read_ptr m) ?n"
      using bytes_at_cong [OF mem'] st(3) f k by (simp add: bytes_at_other)
    moreover have "contents m' ks' = contents (msgq_drop m) ks @ [bytes_at ks ?t ?n]"
      using contents_cong [OF mem', of m2] st(4) f k assms(5) Cons m' by (simp add: bytes_at_other)
    moreover have "waitqs ks' (ObjQ a) = ts" "swap_retval (threads ks' t) = ret_ok"
      using wake_first_copy(2) [OF system_ok_mem [OF assms(1)], of data "read_ptr m" ?n "ObjQ a" t ts] Cons m'
        waiting_not_current [OF assms(1) _ assms(4), of t "ObjQ a"]
      by (auto simp: reschedule_fields)
    ultimately show ?thesis using c m' Cons by simp
  qed
qed

theorem msgq_get_refines_witness:
  "swap_retval (threads (snd (snd (k_msgq_get 100 6000 K_NO_WAIT \<lparr>msg_size = 4, max_msgs = 1, buffer_start = 5000,
      buffer_end = 5004, read_ptr = 5000, write_ptr = 5000, used_msgs = 1, msgq_flags = 0\<rparr> one_waiting))) 5) = ret_ok"
proof -
  let ?m = "\<lparr>msg_size = 4, max_msgs = 1, buffer_start = 5000, buffer_end = 5004, read_ptr = 5000, write_ptr = 5000,
    used_msgs = 1, msgq_flags = 0\<rparr>"
  let ?s = "k_msgq_get 100 6000 K_NO_WAIT ?m one_waiting"
  have d: "swap_data (threads one_waiting 5) = 0" by code_simp
  then have "msgq_inv 100 ?m one_waiting" "outside ?m 6000"
    using one_waiting_state by (simp_all add: msgq_inv_def ring_wf_def read_idx_def slot_def outside_def disjoint_mem_def)
  then show ?thesis
    using msgq_get_refines [OF one_waiting_ok, of 100 ?m 6000 K_NO_WAIT "fst ?s" "fst (snd ?s)" "snd (snd ?s)"]
      one_waiting_state d
    by (simp add: contents_def disjoint_mem_def)
qed

lemma peek_address:
  assumes "ring_wf m" "i < used_msgs m"
  defines "e \<equiv> buffer_end m - read_ptr m"
  shows "slot m (read_idx m + i) =
    (if e \<le> i * msg_size m then buffer_start m + (i * msg_size m - e) else read_ptr m + i * msg_size m)"
proof -
  let ?r = "read_idx m" and ?n = "msg_size m" and ?x = "max_msgs m"
  have wf: "0 < ?n" "?r < ?x" "i < ?x" "read_ptr m = buffer_start m + ?r * ?n" "buffer_end m = buffer_start m + ?x * ?n"
    using assms(1,2) by (auto simp: ring_wf_def slot_def)
  then have e: "e = (?x - ?r) * ?n" by (simp add: e_def diff_mult_distrib)
  have c: "e \<le> i * ?n \<longleftrightarrow> ?x \<le> ?r + i" unfolding e using wf by (simp add: le_diff_conv) linarith
  show ?thesis
  proof (cases "?x \<le> ?r + i")
    case True
    have "(?r + i) mod ?x = i - (?x - ?r)" using True wf by (simp add: mod_if) linarith
    then show ?thesis using True c by (simp add: slot_def e diff_mult_distrib)
  next
    case False
    then show ?thesis using c wf by (simp add: slot_def add_mult_distrib)
  qed
qed

text \<open>\<^verbatim>\<open>k_msgq_peek_at\<close> copies the \<open>i\<close>-th oldest message, also when it lies past the end of the buffer and the
  ring wraps around, and fails with \<^verbatim>\<open>-ENOMSG\<close> beyond the last message; \<^verbatim>\<open>k_msgq_peek\<close> is the case of the oldest
  message.  The queue keeps its messages.\<close>

lemma msgq_peek_at_correct:
  assumes "ring_wf m" "outside m data" "k_msgq_peek_at data i m ks = (r, ks')"
  shows "contents m ks' = contents m ks \<and> k_msgq_peek data m ks = k_msgq_peek_at data 0 m ks \<and>
    (if i < length (contents m ks) then r = ret_ok \<and> bytes_at ks' data (msg_size m) = contents m ks ! i
     else r = Inl ENOMSG \<and> ks' = ks)"
proof -
  let ?n = "msg_size m"
  have zero: "k_msgq_peek data m ks = k_msgq_peek_at data 0 m ks"
  proof -
    have "read_idx m * ?n < max_msgs m * ?n" using assms(1) by (simp add: ring_wf_def)
    then have "read_ptr m < buffer_end m" using assms(1) by (simp add: ring_wf_def slot_def)
    then show ?thesis by (simp add: k_msgq_peek_def k_msgq_peek_at_def Let_def)
  qed
  show ?thesis
  proof (cases "i < used_msgs m")
    case True
    then have "ks' = memcpy data (slot m (read_idx m + i)) ?n ks \<and> r = ret_ok"
      using assms(3) peek_address [OF assms(1) True] by (auto simp: k_msgq_peek_at_def Let_def split: if_splits)
    moreover have "contents m ks ! i = bytes_at ks (slot m (read_idx m + i)) ?n"
      using True by (simp add: contents_def)
    ultimately show ?thesis using True zero contents_copy [OF assms(1,2)] by (simp add: bytes_at_copied)
  next
    case False
    then show ?thesis using assms(3) zero by (simp add: k_msgq_peek_at_def)
  qed
qed

text \<open>C28: \<^verbatim>\<open>k_msgq_purge\<close> returns with an empty queue and an empty wait queue.  Every thread that waited, be it to
  write to a full queue or to read from an empty one, is woken with \<^verbatim>\<open>-ENOMSG\<close>: no time-out of it is left, and it is in the
  run queue unless it is suspended.\<close>

theorem msgq_purge_wakes_all:
  assumes "system_ok d ks" "msgq_inv a m ks" "\<not> in_isr ks"
  shows "\<exists>m' ks'. k_msgq_purge a m ks = Some (m', ks') \<and> contents m' ks' = [] \<and> waitqs ks' (ObjQ a) = [] \<and>
    msgq_inv a m' ks' \<and> system_ok d ks' \<and> (\<forall>t \<in> set (waitqs ks (ObjQ a)). woken_up (Inl ENOMSG) t ks')"
proof -
  let ?k = "fold (wake_thread (Inl ENOMSG)) (waitqs ks (ObjQ a)) ks"
  have w: "waitqs ?k (ObjQ a) = []" "system_ok d (z_reschedule ?k)"
    using wake_all_ok [OF assms(1) refl] by (auto intro: system_ok_reschedule)
  have "woken_up (Inl ENOMSG) t (z_reschedule ?k)" if "t \<in> set (waitqs ks (ObjQ a))" for t
    using wake_some_woken [OF assms(1), of "ObjQ a" _ "[]"] that by simp
  moreover have "ring_wf (m\<lparr>used_msgs := 0, read_ptr := write_ptr m\<rparr>)" using purged_wf assms(2) by (simp add: msgq_inv_def)
  ultimately show ?thesis
    using w
    by (auto simp: k_msgq_purge_returns [OF assms(1)] msgq_inv_def contents_def reschedule_fields)
qed

theorem msgq_purge_wakes_all_witness:
  "\<exists>m' ks'. k_msgq_purge 100 \<lparr>msg_size = 4, max_msgs = 2, buffer_start = 5000, buffer_end = 5008, read_ptr = 5000,
     write_ptr = 5000, used_msgs = 0, msgq_flags = 0\<rparr> one_waiting = Some (m', ks') \<and>
     swap_retval (threads ks' 5) = Inl ENOMSG"
proof -
  let ?m = "\<lparr>msg_size = 4, max_msgs = 2, buffer_start = 5000, buffer_end = 5008, read_ptr = 5000, write_ptr = 5000,
    used_msgs = 0, msgq_flags = 0\<rparr>"
  have "swap_data (threads one_waiting 5) = 0" by code_simp
  then have "msgq_inv 100 ?m one_waiting"
    using one_waiting_state by (simp add: msgq_inv_def ring_wf_def read_idx_def slot_def outside_def disjoint_mem_def)
  then show ?thesis
    using msgq_purge_wakes_all [OF one_waiting_ok, of 100 ?m] one_waiting_state by (auto simp: woken_up_def)
qed

end
