(* ===== verification/Events.thy ===== *)
theory Events
  imports Kernel_Mem
begin

text \<open>
  Event objects (\<^verbatim>\<open>kernel/events.c\<close>).  An event object is a word of 32 events; its wait queue is
  \<open>ObjQ a\<close> for the object at address \<open>a\<close>.  Posting walks the wait queue, chains the satisfied threads through
  \<^verbatim>\<open>next_event_link\<close> and wakes them along the chain.  The theory shows that exactly the satisfied
  threads are woken, and that under every interleaving no thread waits for events that are present.
\<close>

subsection \<open>The operations\<close>

record k_event =
  events :: u32

abbreviation (input) K_EVENT_WAIT_ALL :: u32 where "K_EVENT_WAIT_ALL \<equiv> 1"
abbreviation (input) K_EVENT_WAIT_MASK :: u32 where "K_EVENT_WAIT_MASK \<equiv> 1"
abbreviation (input) K_EVENT_WAIT_RESET :: u32 where "K_EVENT_WAIT_RESET \<equiv> 2"

definition k_event_init :: "addr \<Rightarrow> k_event \<Rightarrow> 'a kernel_scheme \<Rightarrow> k_event \<times> 'a kernel_scheme" where
  "k_event_init a event ks = (event\<lparr>events := 0\<rparr>, z_waitq_init (ObjQ a) ks)"

definition are_wait_conditions_met :: "u32 \<Rightarrow> u32 \<Rightarrow> u32 \<Rightarrow> bool" where
  "are_wait_conditions_met desired cur wait_condition =
     (let match = cur AND desired
      in if wait_condition = K_EVENT_WAIT_ALL then match = desired else match \<noteq> 0)"

text \<open>The walk data are the head of the chain and the events; the events do not change during the walk.\<close>

definition event_walk_op :: "u32 \<Rightarrow> tid \<Rightarrow> tid \<times> 'a kernel_scheme \<Rightarrow> int \<times> tid \<times> 'a kernel_scheme" where
  "event_walk_op evs thread s =
     (case s of (head, ks) \<Rightarrow>
        (let wait_condition = event_options (threads ks thread) AND K_EVENT_WAIT_MASK
         in if are_wait_conditions_met (t_events (threads ks thread)) evs wait_condition
            then (let ks = upd_thread thread (\<lambda>th. th\<lparr>no_wake_on_timeout := True\<rparr>) ks;
                      ks = upd_thread thread (\<lambda>th. th\<lparr>next_event_link := head\<rparr>) ks;
                      ks = snd (z_abort_timeout (ThreadTO thread) ks)
                  in (0, thread, ks))
            else (0, head, ks)))"

partial_function (option) event_wake_loop :: "u32 \<Rightarrow> tid \<Rightarrow> 'a kernel_scheme \<Rightarrow> 'a kernel_scheme option" where
  "event_wake_loop evs thread ks =
     (let ks = arch_thread_return_value_set thread ret_ok ks;
          ks = upd_thread thread (\<lambda>th. th\<lparr>t_events := evs\<rparr>) ks;
          next = next_event_link (threads ks thread);
          ks = z_sched_wake_thread thread False ks
      in if next \<noteq> NULL then event_wake_loop evs next ks else Some ks)"

definition k_event_post_internal ::
    "addr \<Rightarrow> u32 \<Rightarrow> u32 \<Rightarrow> k_event \<Rightarrow> 'a kernel_scheme \<Rightarrow> (u32 \<times> k_event \<times> 'a kernel_scheme) option" where
  "k_event_post_internal a evs events_mask event ks =
     (let previous_events = events event AND events_mask;
          evs = (events event AND NOT events_mask) OR (evs AND events_mask);
          event = event\<lparr>events := evs\<rparr>;
          (head, ks) = snd (waitq_walk (event_walk_op evs) (waitqs ks (ObjQ a)) (NULL, ks))
      in map_option (\<lambda>ks. (previous_events, event, z_reschedule ks))
           (if head \<noteq> NULL then event_wake_loop evs head ks else Some ks))"

definition k_event_post :: "addr \<Rightarrow> u32 \<Rightarrow> k_event \<Rightarrow> 'a kernel_scheme \<Rightarrow> (u32 \<times> k_event \<times> 'a kernel_scheme) option" where
  "k_event_post a evs event ks = k_event_post_internal a evs evs event ks"

definition k_event_set :: "addr \<Rightarrow> u32 \<Rightarrow> k_event \<Rightarrow> 'a kernel_scheme \<Rightarrow> (u32 \<times> k_event \<times> 'a kernel_scheme) option" where
  "k_event_set a evs event ks = k_event_post_internal a evs (NOT 0) event ks"

definition k_event_set_masked ::
    "addr \<Rightarrow> u32 \<Rightarrow> u32 \<Rightarrow> k_event \<Rightarrow> 'a kernel_scheme \<Rightarrow> (u32 \<times> k_event \<times> 'a kernel_scheme) option" where
  "k_event_set_masked a evs events_mask event ks = k_event_post_internal a evs events_mask event ks"

definition k_event_clear :: "addr \<Rightarrow> u32 \<Rightarrow> k_event \<Rightarrow> 'a kernel_scheme \<Rightarrow> (u32 \<times> k_event \<times> 'a kernel_scheme) option" where
  "k_event_clear a evs event ks = k_event_post_internal a 0 evs event ks"

definition k_event_wait_internal ::
    "addr \<Rightarrow> u32 \<Rightarrow> u32 \<Rightarrow> k_timeout \<Rightarrow> k_event \<Rightarrow> 'a kernel_scheme \<Rightarrow> u32 outcome \<times> k_event \<times> 'a kernel_scheme" where
  "k_event_wait_internal a evs options timeout event ks =
     (if evs = 0 then (Done 0, event, ks)
      else
        (let wait_condition = options AND K_EVENT_WAIT_MASK;
             thread = current ks;
             event = (if options AND K_EVENT_WAIT_RESET \<noteq> 0 then event\<lparr>events := 0\<rparr> else event)
         in if are_wait_conditions_met evs (events event) wait_condition
            then (Done (events event AND evs), event, ks)
            else if timeout = K_NO_WAIT then (Done (0 AND evs), event, ks)
            else (let ks = upd_thread thread (\<lambda>th. th\<lparr>t_events := evs\<rparr>) ks;
                      ks = upd_thread thread (\<lambda>th. th\<lparr>event_options := options\<rparr>) ks
                  in (Blocked, event, z_pend_curr (Some (ObjQ a)) timeout ks))))"

text \<open>The rest of the call, when the thread runs again.\<close>

definition k_event_wait_resume :: "tid \<Rightarrow> u32 \<Rightarrow> 'a kernel_scheme \<Rightarrow> u32" where
  "k_event_wait_resume thread evs ks =
     (let rv = (if swap_retval (threads ks thread) = ret_ok then t_events (threads ks thread) else 0) in rv AND evs)"

definition k_event_wait ::
    "addr \<Rightarrow> u32 \<Rightarrow> bool \<Rightarrow> k_timeout \<Rightarrow> k_event \<Rightarrow> 'a kernel_scheme \<Rightarrow> u32 outcome \<times> k_event \<times> 'a kernel_scheme" where
  "k_event_wait a evs reset timeout event ks =
     (let options = (if reset then K_EVENT_WAIT_RESET else 0) in k_event_wait_internal a evs options timeout event ks)"

definition k_event_wait_all ::
    "addr \<Rightarrow> u32 \<Rightarrow> bool \<Rightarrow> k_timeout \<Rightarrow> k_event \<Rightarrow> 'a kernel_scheme \<Rightarrow> u32 outcome \<times> k_event \<times> 'a kernel_scheme" where
  "k_event_wait_all a evs reset timeout event ks =
     (let options = (if reset then K_EVENT_WAIT_RESET OR K_EVENT_WAIT_ALL else K_EVENT_WAIT_ALL)
      in k_event_wait_internal a evs options timeout event ks)"

subsection \<open>The walk\<close>

text \<open>What a thread waits for, bit by bit: all of the desired events, or any of them.\<close>

definition events_present :: "bool \<Rightarrow> u32 \<Rightarrow> u32 \<Rightarrow> bool" where
  "events_present wants_all desired cur \<longleftrightarrow>
     (if wants_all then \<forall>i. bit desired i \<longrightarrow> bit cur i else \<exists>i. bit desired i \<and> bit cur i)"

lemma wait_conditions_iff:
  "are_wait_conditions_met desired cur (options AND 1) \<longleftrightarrow> events_present (bit options 0) desired cur"
proof -
  have lt: "bit w i \<Longrightarrow> i < 32" for w :: u32 and i
    using bit_imp_le_length [of w i] by simp
  have "options AND 1 = 1 \<longleftrightarrow> bit options 0"
    by (simp add: and_one_eq bit_0 odd_iff_mod_2_eq_one)
  moreover have "cur AND desired = desired \<longleftrightarrow> (\<forall>i. bit desired i \<longrightarrow> bit cur i)"
    by (auto simp: bit_eq_iff bit_and_iff dest: lt)
  moreover have "cur AND desired \<noteq> 0 \<longleftrightarrow> (\<exists>i. bit desired i \<and> bit cur i)"
    by (auto simp: bit_eq_iff bit_and_iff dest: lt)
  ultimately show ?thesis by (simp add: are_wait_conditions_met_def events_present_def Let_def)
qed

text \<open>A thread is satisfied by the events, and is put on the chain.\<close>

definition satisfied :: "u32 \<Rightarrow> 'a kernel_scheme \<Rightarrow> tid \<Rightarrow> bool" where
  "satisfied evs ks t \<longleftrightarrow>
     are_wait_conditions_met (t_events (threads ks t)) evs (event_options (threads ks t) AND K_EVENT_WAIT_MASK)"

definition chain_thread :: "tid \<Rightarrow> tid \<times> 'a kernel_scheme \<Rightarrow> tid \<times> 'a kernel_scheme" where
  "chain_thread t s = (t, snd (z_abort_thread_timeout t (upd_thread t (\<lambda>th. th\<lparr>next_event_link := fst s\<rparr>)
     (upd_thread t (\<lambda>th. th\<lparr>no_wake_on_timeout := True\<rparr>) (snd s)))))"

lemma event_walk_op_eq:
  "event_walk_op evs t s = (0, if satisfied evs (snd s) t then chain_thread t s else s)"
  by (cases s) (simp add: event_walk_op_def satisfied_def chain_thread_def z_abort_thread_timeout_def Let_def)

lemma chain_thread_fields [simp]:
  "t_events (threads (snd (chain_thread t s)) u) = t_events (threads (snd s) u)"
  "event_options (threads (snd (chain_thread t s)) u) = event_options (threads (snd s) u)"
  "swap_retval (threads (snd (chain_thread t s)) u) = swap_retval (threads (snd s) u)"
  "pended_on (threads (snd (chain_thread t s)) u) = pended_on (threads (snd s) u)"
  "next_event_link (threads (snd (chain_thread t s)) u) = (if u = t then fst s else next_event_link (threads (snd s) u))"
  "z_is_thread_state_set (snd (chain_thread t s)) u m = z_is_thread_state_set (snd s) u m"
  "waitqs (snd (chain_thread t s)) = waitqs (snd s)" "current (snd (chain_thread t s)) = current (snd s)"
  "idle_thread (snd (chain_thread t s)) = idle_thread (snd s)" "in_isr (snd (chain_thread t s)) = in_isr (snd s)"
  "mem (snd (chain_thread t s)) = mem (snd s)"
  "fst (chain_thread t s) = t"
  by (simp_all add: chain_thread_def)

lemma waitq_walk_eq:
  "waitq_walk (event_walk_op evs) ts s = (0, fold chain_thread (filter (satisfied evs (snd s)) ts) s)"
proof (induction ts arbitrary: s)
  case (Cons t ts)
  have "satisfied evs (snd (chain_thread t s)) = satisfied evs (snd s)"
    by (simp add: satisfied_def fun_eq_iff)
  then show ?case using Cons by (simp add: event_walk_op_eq)
qed simp

text \<open>The threads of a chain.\<close>

fun chained :: "'a kernel_scheme \<Rightarrow> tid \<Rightarrow> tid list \<Rightarrow> bool" where
  "chained ks h [] \<longleftrightarrow> h = NULL"
| "chained ks h (t # ts) \<longleftrightarrow> h = t \<and> t \<noteq> NULL \<and> chained ks (next_event_link (threads ks t)) ts"

lemma chained_cong:
  "(\<And>u. u \<in> set ts \<Longrightarrow> next_event_link (threads ks' u) = next_event_link (threads ks u)) \<Longrightarrow>
   chained ks' h ts = chained ks h ts"
  by (induction ts arbitrary: h) auto

text \<open>The state while threads \<open>A\<close> are on the chain.\<close>

definition posting_ok :: "tid \<Rightarrow> tid set \<Rightarrow> 'a kernel_scheme \<Rightarrow> bool" where
  "posting_ok d A ks \<longleftrightarrow> kernel_ok ks \<and> dummy_ok d ks \<and>
     (\<forall>t. (no_wake_on_timeout (threads ks t) \<longrightarrow> t \<in> A) \<and> \<not> z_is_thread_state_set ks t THREAD_ABORTING)"

lemma posting_ok_none: "posting_ok d {} ks \<longleftrightarrow> system_ok d ks"
  by (auto simp: posting_ok_def system_ok_def base_ok_def)

lemma chain_thread_ok:
  assumes "posting_ok d A (snd s)" and "pended_on (threads (snd s) t) \<noteq> None"
  shows "posting_ok d (insert t A) (snd (chain_thread t s))"
proof -
  let ?u = "upd_thread t (\<lambda>th. th\<lparr>next_event_link := fst s\<rparr>) (upd_thread t (\<lambda>th. th\<lparr>no_wake_on_timeout := True\<rparr>) (snd s))"
  have u: "kernel_ok ?u"
    using assms(1) by (intro kernel_ok_upd) (simp_all add: posting_ok_def)
  have "kernel_ok_but {t} (snd (chain_thread t s))"
    using kernel_ok_abort [OF u, of t] by (simp add: chain_thread_def)
  moreover have "\<not> z_is_thread_ready (snd (chain_thread t s)) t"
    using waitq_pended(3) [of "snd s" t] assms
    by (simp add: posting_ok_def kernel_ok_but_def z_is_thread_ready_bits thread_state_bits)
  ultimately have "kernel_ok (snd (chain_thread t s))"
    using sched_inv_drop by (auto simp: kernel_ok_but_def)
  moreover have "dummy_ok d (snd (chain_thread t s))"
    using assms(1) is_linked_abort_thread [of ?u t d] u
    by (auto simp: posting_ok_def dummy_ok_def chain_thread_def kernel_ok_but_def sched_inv_timeouts)
  moreover have "no_wake_on_timeout (threads (snd (chain_thread t s)) v) = (v = t \<or> no_wake_on_timeout (threads (snd s) v))" for v
    by (simp add: chain_thread_def)
  ultimately show ?thesis
    using assms(1) by (auto simp: posting_ok_def)
qed

lemma chain_threads_fields [simp]:
  "t_events (threads (snd (fold chain_thread ts s)) u) = t_events (threads (snd s) u)"
  "event_options (threads (snd (fold chain_thread ts s)) u) = event_options (threads (snd s) u)"
  "swap_retval (threads (snd (fold chain_thread ts s)) u) = swap_retval (threads (snd s) u)"
  "pended_on (threads (snd (fold chain_thread ts s)) u) = pended_on (threads (snd s) u)"
  "z_is_thread_state_set (snd (fold chain_thread ts s)) u m = z_is_thread_state_set (snd s) u m"
  "waitqs (snd (fold chain_thread ts s)) = waitqs (snd s)" "current (snd (fold chain_thread ts s)) = current (snd s)"
  "idle_thread (snd (fold chain_thread ts s)) = idle_thread (snd s)" "in_isr (snd (fold chain_thread ts s)) = in_isr (snd s)"
  "mem (snd (fold chain_thread ts s)) = mem (snd s)"
  by (induction ts arbitrary: s) simp_all

lemma chain_thread_linked:
  "is_linked (snd (chain_thread t s)) x \<Longrightarrow> is_linked (snd s) x"
  "posting_ok d A (snd s) \<Longrightarrow> \<not> is_linked (snd (chain_thread t s)) (ThreadTO t)"
proof -
  let ?u = "upd_thread t (\<lambda>th. th\<lparr>next_event_link := fst s\<rparr>) (upd_thread t (\<lambda>th. th\<lparr>no_wake_on_timeout := True\<rparr>) (snd s))"
  show "is_linked (snd (chain_thread t s)) x \<Longrightarrow> is_linked (snd s) x"
    using is_linked_abort_mono [of "ThreadTO t" ?u x] by (simp add: chain_thread_def z_abort_thread_timeout_def)
  assume "posting_ok d A (snd s)"
  then have "timeouts_ok ?u"
    using sched_inv_timeouts [of "{}" "snd s"] by (simp add: posting_ok_def kernel_ok_but_def)
  then show "\<not> is_linked (snd (chain_thread t s)) (ThreadTO t)"
    by (simp add: chain_thread_def is_linked_abort_thread)
qed

lemma chain_threads_linked: "is_linked (snd (fold chain_thread ts s)) x \<Longrightarrow> is_linked (snd s) x"
proof (induction ts arbitrary: s)
  case (Cons t ts)
  then show ?case using chain_thread_linked(1) [of t s x] by simp
qed simp

lemma walk_chains:
  assumes "posting_ok d (set us) (snd s)" and "chained (snd s) (fst s) us" and "distinct (us @ ts)" and "NULL \<notin> set ts"
    and "\<And>t. t \<in> set ts \<Longrightarrow> pended_on (threads (snd s) t) \<noteq> None"
  shows "posting_ok d (set (rev ts @ us)) (snd (fold chain_thread ts s)) \<and>
    chained (snd (fold chain_thread ts s)) (fst (fold chain_thread ts s)) (rev ts @ us) \<and>
    (\<forall>t \<in> set ts. \<not> is_linked (snd (fold chain_thread ts s)) (ThreadTO t))"
  using assms
proof (induction ts arbitrary: s us)
  case (Cons t ts)
  have "posting_ok d (set (t # us)) (snd (chain_thread t s))"
    using chain_thread_ok [OF Cons.prems(1), of t] Cons.prems(5) by simp
  moreover have "chained (snd (chain_thread t s)) (fst s) us = chained (snd s) (fst s) us"
    using Cons.prems(3) by (intro chained_cong) auto
  moreover have "\<not> is_linked (snd (fold chain_thread ts (chain_thread t s))) (ThreadTO t)"
    using chain_threads_linked [of ts "chain_thread t s"] chain_thread_linked(2) [OF Cons.prems(1)] by blast
  ultimately show ?case
    using Cons.IH [of "t # us" "chain_thread t s"] Cons.prems(2-5) by simp
qed simp

subsection \<open>Waking the chain\<close>

definition post_wake :: "u32 \<Rightarrow> tid \<Rightarrow> 'a kernel_scheme \<Rightarrow> 'a kernel_scheme" where
  "post_wake evs t ks = z_sched_wake_thread t False (upd_thread t (\<lambda>th. th\<lparr>t_events := evs\<rparr>)
     (arch_thread_return_value_set t ret_ok ks))"

lemma event_wake_loop_unfold:
  "event_wake_loop evs t ks =
     (if next_event_link (threads ks t) \<noteq> NULL then event_wake_loop evs (next_event_link (threads ks t)) (post_wake evs t ks)
      else Some (post_wake evs t ks))"
  by (subst event_wake_loop.simps) (simp add: Let_def post_wake_def arch_thread_return_value_set_def)

lemma post_wake_fields [simp]:
  "event_options (threads (post_wake evs t ks) u) = event_options (threads ks u)"
  "swap_retval (threads (post_wake evs t ks) u) = (if u = t then ret_ok else swap_retval (threads ks u))"
  "t_events (threads (post_wake evs t ks) u) = (if u = t then evs else t_events (threads ks u))"
  "next_event_link (threads (post_wake evs t ks) u) = next_event_link (threads ks u)"
  "no_wake_on_timeout (threads (post_wake evs t ks) u) = (u \<noteq> t \<and> no_wake_on_timeout (threads ks u))"
  "z_is_thread_state_set (post_wake evs t ks) u 8 = z_is_thread_state_set ks u 8"
  "z_is_thread_state_set (post_wake evs t ks) u 32 = z_is_thread_state_set ks u 32"
  "z_is_thread_state_set (post_wake evs t ks) u 1 = z_is_thread_state_set ks u 1"
  "current (post_wake evs t ks) = current ks" "idle_thread (post_wake evs t ks) = idle_thread ks"
  "in_isr (post_wake evs t ks) = in_isr ks" "mem (post_wake evs t ks) = mem ks"
  by (simp_all add: post_wake_def z_sched_wake_thread_def arch_thread_return_value_set_def Let_def thread_mark_defs)
    (simp_all add: ready_thread_def queue_thread_def runq_add_def set_state_bits_def unpend_thread_no_timeout_def
      waitq_remove_def thread_mark_defs clear_state_bits_def upd_thread_def Let_def)

lemma post_wake_pended:
  assumes "pended_on (threads ks t) = Some q" and "\<not> z_is_thread_state_set ks t 8" and "\<not> z_is_thread_state_set ks t 32"
  shows "waitqs (post_wake evs t ks) = (waitqs ks)(q := remove1 t (waitqs ks q))"
    and "pended_on (threads (post_wake evs t ks) u) = (if u = t then None else pended_on (threads ks u))"
proof -
  have "thread_state (threads ks t) AND (8 OR 32) = 0"
    using assms(2,3) by (simp only: z_is_thread_state_set_def bit.conj_disj_distrib) simp
  then show "waitqs (post_wake evs t ks) = (waitqs ks)(q := remove1 t (waitqs ks q))"
    "pended_on (threads (post_wake evs t ks) u) = (if u = t then None else pended_on (threads ks u))"
    using assms(1) by (simp_all add: post_wake_def z_sched_wake_thread_def arch_thread_return_value_set_def Let_def
        thread_mark_defs waitqs_unpend)
qed

lemma post_wake_ok:
  assumes "posting_ok d A ks" and "pended_on (threads ks t) \<noteq> None"
  shows "posting_ok d (A - {t}) (post_wake evs t ks)"
proof -
  let ?u = "upd_thread t (\<lambda>th. th\<lparr>t_events := evs\<rparr>) (arch_thread_return_value_set t ret_ok ks)"
  have inv: "sched_inv ks" and d: "dummy_ok d ks"
    using assms(1) by (simp_all add: posting_ok_def kernel_ok_but_def)
  have "kernel_ok ?u"
    using assms(1) by (intro kernel_ok_upd kernel_ok_retval) (simp_all add: posting_ok_def)
  moreover have "t \<noteq> idle_thread ks" "t \<noteq> d"
    using pended_not_idle [OF inv] assms(2) d by (auto simp: dummy_ok_def)
  ultimately have "kernel_ok (post_wake evs t ks)" and "pended_on (threads (post_wake evs t ks) d) = pended_on (threads ks d)"
    and "is_linked (post_wake evs t ks) (ThreadTO d) = is_linked ks (ThreadTO d)"
    using z_sched_wake_thread_ok [of ?u t False] sched_inv_timeouts [OF inv]
    by (simp_all add: post_wake_def z_sched_wake_thread_def Let_def thread_mark_defs is_linked_ready_thread
        arch_thread_return_value_set_def)
  then show ?thesis
    using assms(1) by (auto simp: posting_ok_def dummy_ok_def)
qed

lemma post_wake_linked:
  assumes "posting_ok d A ks"
  shows "is_linked (post_wake evs t ks) (ThreadTO u) = is_linked ks (ThreadTO u)"
proof -
  have "timeouts_ok ks"
    using assms sched_inv_timeouts [of "{}" ks] by (simp add: posting_ok_def kernel_ok_but_def)
  then show ?thesis
    by (simp add: post_wake_def z_sched_wake_thread_def Let_def thread_mark_defs is_linked_ready_thread
        arch_thread_return_value_set_def)
qed

lemma wake_chain:
  assumes "posting_ok d (set ts) ks" and "chained ks h ts" and "distinct ts" and "ts \<noteq> []"
    and "\<And>t. t \<in> set ts \<Longrightarrow> pended_on (threads ks t) = Some q \<and> \<not> z_is_thread_state_set ks t THREAD_DEAD"
  shows "event_wake_loop evs h ks = Some (fold (post_wake evs) ts ks) \<and> system_ok d (fold (post_wake evs) ts ks) \<and>
    waitqs (fold (post_wake evs) ts ks) = (waitqs ks)(q := fold remove1 ts (waitqs ks q)) \<and>
    (\<forall>u. pended_on (threads (fold (post_wake evs) ts ks) u) = (if u \<in> set ts then None else pended_on (threads ks u)) \<and>
      is_linked (fold (post_wake evs) ts ks) (ThreadTO u) = is_linked ks (ThreadTO u))"
  using assms
proof (induction ts arbitrary: ks h)
  case (Cons t ts)
  let ?k = "post_wake evs t ks"
  have t: "pended_on (threads ks t) = Some q" "\<not> z_is_thread_state_set ks t 8" "\<not> z_is_thread_state_set ks t 32"
    using Cons.prems(1,5) by (auto simp: posting_ok_def)
  have k: "posting_ok d (set ts) ?k"
    using post_wake_ok [OF Cons.prems(1), of t evs] t(1) Cons.prems(3) by simp
  have c: "chained ?k h' ts = chained ks h' ts" for h'
    by (intro chained_cong) simp
  note f = post_wake_pended [OF t, of evs] post_wake_linked [OF Cons.prems(1), of evs t]
  show ?case
  proof (cases "ts = []")
    case True
    then show ?thesis
      using Cons.prems(2) k f by (auto simp: event_wake_loop_unfold [of evs t ks] posting_ok_none)
  next
    case False
    then obtain u us where "ts = u # us" by (cases ts) auto
    then have "next_event_link (threads ks t) \<noteq> NULL" "h = t"
      using Cons.prems(2) by auto
    moreover have "pended_on (threads ?k v) = Some q \<and> \<not> z_is_thread_state_set ?k v 8" if "v \<in> set ts" for v
      using that Cons.prems(3,5) f(2) by auto
    ultimately show ?thesis
      using Cons.IH [OF k _ _ False, of "next_event_link (threads ks t)"] Cons.prems(2,3) f
      by (auto simp: event_wake_loop_unfold [of evs t ks] c fun_eq_iff)
  qed
qed simp

lemma wake_chain_fields [simp]:
  "event_options (threads (fold (post_wake evs) ts ks) u) = event_options (threads ks u)"
  "swap_retval (threads (fold (post_wake evs) ts ks) u) = (if u \<in> set ts then ret_ok else swap_retval (threads ks u))"
  "t_events (threads (fold (post_wake evs) ts ks) u) = (if u \<in> set ts then evs else t_events (threads ks u))"
  "z_is_thread_state_set (fold (post_wake evs) ts ks) u 8 = z_is_thread_state_set ks u 8"
  "current (fold (post_wake evs) ts ks) = current ks" "idle_thread (fold (post_wake evs) ts ks) = idle_thread ks"
  "in_isr (fold (post_wake evs) ts ks) = in_isr ks" "mem (fold (post_wake evs) ts ks) = mem ks"
  by (induction ts arbitrary: ks) auto

lemma remove_all: "distinct xs \<Longrightarrow> fold remove1 ts xs = filter (\<lambda>x. x \<notin> set ts) xs"
proof (induction ts arbitrary: xs)
  case (Cons t ts)
  then show ?case by (auto simp: distinct_remove1_removeAll removeAll_filter_not_eq intro: filter_cong)
qed simp


subsection \<open>Posting\<close>

definition post_events :: "u32 \<Rightarrow> u32 \<Rightarrow> k_event \<Rightarrow> u32" where
  "post_events evs msk event = (events event AND NOT msk) OR (evs AND msk)"

text \<open>No thread waits for events that are present; waiting threads are alive and wait for something.\<close>

definition event_inv :: "addr \<Rightarrow> k_event \<Rightarrow> 'a kernel_scheme \<Rightarrow> bool" where
  "event_inv a event ks \<longleftrightarrow> (\<forall>t \<in> set (waitqs ks (ObjQ a)). t \<noteq> NULL \<and> t_events (threads ks t) \<noteq> 0 \<and>
     \<not> z_is_thread_state_set ks t THREAD_DEAD \<and> \<not> satisfied (events event) ks t)"

lemma post_internal_returns:
  fixes ks :: "'a kernel_scheme" and evs msk :: u32
  assumes "system_ok d ks" and "event_inv a event ks"
  defines "sat \<equiv> satisfied (post_events evs msk event) ks" and "ts \<equiv> waitqs ks (ObjQ a)"
  shows "\<exists>ks'. k_event_post_internal a evs msk event ks =
      Some (events event AND msk, event\<lparr>events := post_events evs msk event\<rparr>, z_reschedule ks') \<and> system_ok d ks' \<and>
    waitqs ks' = (waitqs ks)(ObjQ a := filter (\<lambda>t. \<not> sat t) ts) \<and>
    (\<forall>u. event_options (threads ks' u) = event_options (threads ks u) \<and>
      t_events (threads ks' u) = (if u \<in> set ts \<and> sat u then post_events evs msk event else t_events (threads ks u)) \<and>
      swap_retval (threads ks' u) = (if u \<in> set ts \<and> sat u then ret_ok else swap_retval (threads ks u)) \<and>
      pended_on (threads ks' u) = (if u \<in> set ts \<and> sat u then None else pended_on (threads ks u)) \<and>
      (u \<in> set ts \<and> sat u \<longrightarrow> \<not> is_linked ks' (ThreadTO u)) \<and>
      z_is_thread_state_set ks' u THREAD_DEAD = z_is_thread_state_set ks u THREAD_DEAD) \<and>
    current ks' = current ks \<and> in_isr ks' = in_isr ks \<and> idle_thread ks' = idle_thread ks"
proof -
  let ?new = "post_events evs msk event" and ?us = "filter sat ts"
  let ?s = "fold chain_thread ?us (NULL, ks)"
  note q = waitq_pended(1,2) [OF system_ok_parts(3) [OF assms(1)], of "ObjQ a"]
  have ts: "distinct ts" "NULL \<notin> set ts" "\<And>t. t \<in> set ts \<Longrightarrow> pended_on (threads ks t) = Some (ObjQ a) \<and> \<not> z_is_thread_state_set ks t 8"
    using assms(2) q by (auto simp: ts_def event_inv_def)
  have "posting_ok d (set (rev ?us @ [])) (snd ?s) \<and> chained (snd ?s) (fst ?s) (rev ?us @ []) \<and>
      (\<forall>t \<in> set ?us. \<not> is_linked (snd ?s) (ThreadTO t))"
    using assms(1) ts by (intro walk_chains) (auto simp: posting_ok_none)
  then have w: "posting_ok d (set (rev ?us)) (snd ?s)" "chained (snd ?s) (fst ?s) (rev ?us)"
      and l: "\<And>t. t \<in> set ?us \<Longrightarrow> \<not> is_linked (snd ?s) (ThreadTO t)"
    by simp_all
  have walk: "snd (waitq_walk (event_walk_op ?new) (waitqs ks (ObjQ a)) (NULL, ks)) = ?s"
    by (simp add: waitq_walk_eq sat_def ts_def)
  have rem: "fold remove1 (rev ?us) ts = filter (\<lambda>t. \<not> sat t) ts"
    using remove_all [OF ts(1)] by (auto intro: filter_cong)
  let ?k = "fold (post_wake ?new) (rev ?us) (snd ?s)"
  have "(if fst ?s \<noteq> NULL then event_wake_loop ?new (fst ?s) (snd ?s) else Some (snd ?s)) = Some ?k \<and> system_ok d ?k \<and>
      waitqs ?k = (waitqs ks)(ObjQ a := filter (\<lambda>t. \<not> sat t) ts) \<and>
      (\<forall>u. pended_on (threads ?k u) = (if u \<in> set ?us then None else pended_on (threads ks u)) \<and>
        (u \<in> set ?us \<longrightarrow> \<not> is_linked ?k (ThreadTO u)))"
  proof (cases "?us = []")
    case True
    then show ?thesis
      using assms(1) by (auto simp: ts_def filter_empty_conv fun_eq_iff)
  next
    case False
    then have "fst ?s \<noteq> NULL" using w(2) by (cases "rev ?us") auto
    then show ?thesis
      using wake_chain [OF w, of "ObjQ a" ?new] False ts rem l by (auto simp: ts_def)
  qed
  then show ?thesis
    unfolding k_event_post_internal_def Let_def post_events_def [symmetric] walk
    by (intro exI [of _ ?k]) (auto split: prod.split)
qed

subsection \<open>The event object as a kernel object\<close>

lemma satisfied_wait_data:
  "wait_data (threads ks' t) = wait_data (threads ks t) \<Longrightarrow>
   satisfied evs ks' t = satisfied evs ks t \<and> t_events (threads ks' t) = t_events (threads ks t)"
  by (simp add: satisfied_def wait_data_def)

lemma event_inv_same:
  assumes "event_inv a event ks" and "\<And>t. t \<in> set (waitqs ks' (ObjQ a)) \<Longrightarrow> t \<in> set (waitqs ks (ObjQ a)) \<and>
    wait_data (threads ks' t) = wait_data (threads ks t) \<and> z_is_thread_state_set ks' t THREAD_DEAD = z_is_thread_state_set ks t THREAD_DEAD"
  shows "event_inv a event ks'"
  unfolding event_inv_def using assms satisfied_wait_data unfolding event_inv_def by metis

lemma event_inv_undisturbed: "event_inv a event ks \<Longrightarrow> undisturbed (- {ObjQ a}) ks ks' \<Longrightarrow> event_inv a event ks'"
  using shrinks_waiting(1) [of "{ObjQ a}" ks ks' "ObjQ a"] by (elim event_inv_same) (auto simp: undisturbed_def)

lemma post_internal_ok:
  assumes "object_ok d (event_inv a) (event, ks)" and "k_event_post_internal a evs msk event ks = Some (r, s)"
  shows "object_ok d (event_inv a) s"
proof -
  have ok: "system_ok d ks" "event_inv a event ks" using assms(1) by simp_all
  obtain ks' where r: "s = (event\<lparr>events := post_events evs msk event\<rparr>, z_reschedule ks')" "system_ok d ks'"
      and f: "waitqs ks' = (waitqs ks)(ObjQ a := filter (\<lambda>t. \<not> satisfied (post_events evs msk event) ks t) (waitqs ks (ObjQ a)))"
        "\<And>u. event_options (threads ks' u) = event_options (threads ks u)"
        "\<And>u. \<not> satisfied (post_events evs msk event) ks u \<Longrightarrow> t_events (threads ks' u) = t_events (threads ks u)"
        "\<And>u. z_is_thread_state_set ks' u 8 = z_is_thread_state_set ks u 8"
    using post_internal_returns [OF ok, of evs msk] assms(2) by auto
  have "event_inv a (event\<lparr>events := post_events evs msk event\<rparr>) ks'"
    using ok(2) f by (auto simp: event_inv_def satisfied_def)
  then have "event_inv a (event\<lparr>events := post_events evs msk event\<rparr>) (z_reschedule ks')"
    by (elim event_inv_same) auto
  then show ?thesis using r system_ok_reschedule by simp
qed

lemma not_satisfied_none: "t_events (threads ks t) \<noteq> 0 \<Longrightarrow> \<not> satisfied 0 ks t"
  by (simp add: satisfied_def are_wait_conditions_met_def)

lemma wait_internal_ok:
  assumes "object_ok d (event_inv a) (event, ks)" and "timeout = K_NO_WAIT \<or> may_block ks \<and> current ks \<noteq> NULL"
  shows "object_ok d (event_inv a) (snd (k_event_wait_internal a evs options timeout event ks))"
proof -
  define ev where "ev = (if options AND K_EVENT_WAIT_RESET \<noteq> 0 then event\<lparr>events := 0\<rparr> else event)"
  have ok: "system_ok d ks" and inv: "event_inv a ev ks"
    using assms(1) not_satisfied_none by (auto simp: ev_def event_inv_def)
  let ?k = "upd_thread (current ks) (\<lambda>th. th\<lparr>event_options := options\<rparr>) (upd_thread (current ks) (\<lambda>th. th\<lparr>t_events := evs\<rparr>) ks)"
  let ?p = "z_pend_curr (Some (ObjQ a)) timeout ?k"
  have blocks: "system_ok d ?p \<and> event_inv a ev ?p"
    if "may_block ks" "current ks \<noteq> NULL" "evs \<noteq> 0" "\<not> are_wait_conditions_met evs (events ev) (options AND 1)"
  proof -
    have k: "system_ok d ?k" "may_block ?k" "current ?k = current ks" "waitqs ?k = waitqs ks"
      using ok that(1) by (simp_all add: may_block_def system_ok_wait_data)
    note p = pend_curr [OF k(1,2), of "ObjQ a" timeout]
    have w: "wait_data (threads ?p t) = wait_data (threads ?k t)" "z_is_thread_state_set ?p t 8 = z_is_thread_state_set ?k t 8" for t
      using keeps_calls(4) [of "{}" ?k "Some (ObjQ a)" timeout] by (simp_all add: keeps_data_def)
    have "z_is_thread_ready ks (current ks)"
      using current_facts(4) [OF system_ok_parts(1) [OF ok]] that(1) by (simp add: may_block_def)
    then have "\<not> z_is_thread_state_set ks (current ks) 8"
      by (simp add: z_is_thread_ready_bits)
    moreover have "satisfied (events ev) ?p t = satisfied (events ev) ?k t" "t_events (threads ?p t) = t_events (threads ?k t)" for t
      using satisfied_wait_data [OF w(1)] by blast+
    ultimately show ?thesis
      using p(1,2) inv that k(3,4) w(2) by (auto simp: event_inv_def satisfied_def)
  qed
  then show ?thesis
    using assms inv ok by (auto simp: k_event_wait_internal_def Let_def ev_def [symmetric])
qed

lemma wait_internal_records:
  assumes "k_event_wait_internal a evs options timeout event ks = (Blocked, s)"
  shows "t_events (threads (snd s) (current ks)) = evs \<and> event_options (threads (snd s) (current ks)) = options"
proof -
  let ?k = "upd_thread (current ks) (\<lambda>th. th\<lparr>event_options := options\<rparr>) (upd_thread (current ks) (\<lambda>th. th\<lparr>t_events := evs\<rparr>) ks)"
  have "wait_data (threads (z_pend_curr (Some (ObjQ a)) timeout ?k) t) = wait_data (threads ?k t)" for t
    using keeps_calls(4) [of "{}" ?k "Some (ObjQ a)" timeout] by (simp add: keeps_data_def)
  from this [of "current ks"] show ?thesis
    using assms by (auto simp: k_event_wait_internal_def Let_def wait_data_def split: if_splits)
qed

inductive event_calls :: "addr \<Rightarrow> k_event \<times> 'a kernel_scheme \<Rightarrow> k_event \<times> 'a kernel_scheme \<Rightarrow> bool" for a where
  post: "k_event_post a evs event ks = Some (r, s) \<Longrightarrow> event_calls a (event, ks) s"
| set: "k_event_set a evs event ks = Some (r, s) \<Longrightarrow> event_calls a (event, ks) s"
| set_masked: "k_event_set_masked a evs msk event ks = Some (r, s) \<Longrightarrow> event_calls a (event, ks) s"
| clear: "k_event_clear a evs event ks = Some (r, s) \<Longrightarrow> event_calls a (event, ks) s"
| wait: "timeout = K_NO_WAIT \<or> may_block ks \<and> current ks \<noteq> NULL \<Longrightarrow>
    event_calls a (event, ks) (snd (k_event_wait a evs reset timeout event ks))"
| wait_all: "timeout = K_NO_WAIT \<or> may_block ks \<and> current ks \<noteq> NULL \<Longrightarrow>
    event_calls a (event, ks) (snd (k_event_wait_all a evs reset timeout event ks))"

lemmas event_call_defs =
  k_event_post_def k_event_set_def k_event_set_masked_def k_event_clear_def k_event_wait_def k_event_wait_all_def Let_def

interpretation event: kernel_object d "{ObjQ a}" "event_calls a" "event_inv a" for d a
proof
  show "object_ok d (event_inv a) t" if "event_calls a s t" "object_ok d (event_inv a) s" for s t
    using that
    by (induction rule: event_calls.induct)
      (auto simp del: object_ok_simps simp: event_call_defs wait_internal_ok dest: post_internal_ok)
qed (auto intro: event_inv_undisturbed)

text \<open>The main thread waits for events 0 and 1 both.\<close>

definition event_waiting :: "k_event \<times> kernel" where
  "event_waiting = snd (k_event_wait_all 100 3 False K_FOREVER \<lparr>events = 0\<rparr> two_threads)"

lemma event_waiting_state:
  "fst event_waiting = \<lparr>events = 0\<rparr> \<and> waitqs (snd event_waiting) (ObjQ 100) = [2] \<and>
   t_events (threads (snd event_waiting) 2) = 3 \<and> event_options (threads (snd event_waiting) 2) = 1"
  by code_simp

lemma two_threads_event:
  "waitqs two_threads (ObjQ 100) = []" "event_calls 100 (\<lparr>events = 0\<rparr>, two_threads) event_waiting" "system_ok 1 two_threads"
proof -
  show "waitqs two_threads (ObjQ 100) = []" by code_simp
  show "event_calls 100 (\<lparr>events = 0\<rparr>, two_threads) event_waiting"
    unfolding event_waiting_def using two_threads_state by (intro event_calls.wait_all) (simp add: may_block_def)
  show "system_ok 1 two_threads" using two_threads_ok by (simp add: system_ok_def)
qed

lemma event_waiting_ok: "object_ok 1 (event_inv 100) event_waiting"
  using event.calls_ok [OF two_threads_event(2)] two_threads_event(1,3) by (simp add: event_inv_def)

subsection \<open>Properties\<close>

text \<open>C29: No wake-up is lost: from initialisation on, whatever is posted, set, cleared and waited for, and whatever
  threads, interrupts and time-outs do in between, no thread waits for events that are present: none that waits for all
  of its events while each of their bits is set, and none that waits for any of them while one of their bits is set.
  A thread that blocks in \<^verbatim>\<open>k_event_wait\<close> waits for any of the events it named, one that blocks in
  \<^verbatim>\<open>k_event_wait_all\<close> for all of them.\<close>

theorem event_no_lost_wakeup:
  assumes "k_event_init a event ks = s0" and "system_ok d ks" and "waitqs ks (ObjQ a) = []"
    and "interleaved d {ObjQ a} (event_calls a) s0 (event1, ks1)"
  shows "system_ok d ks1 \<and>
    (\<forall>t \<in> set (waitqs ks1 (ObjQ a)). t_events (threads ks1 t) \<noteq> 0 \<and>
      \<not> events_present (bit (event_options (threads ks1 t)) 0) (t_events (threads ks1 t)) (events event1)) \<and>
    (\<forall>evs reset timeout event2 ks2.
      (k_event_wait a evs reset timeout event1 ks1 = (Blocked, event2, ks2) \<longrightarrow>
        t_events (threads ks2 (current ks1)) = evs \<and> \<not> bit (event_options (threads ks2 (current ks1))) 0) \<and>
      (k_event_wait_all a evs reset timeout event1 ks1 = (Blocked, event2, ks2) \<longrightarrow>
        t_events (threads ks2 (current ks1)) = evs \<and> bit (event_options (threads ks2 (current ks1))) 0))"
proof -
  have "object_ok d (event_inv a) s0"
    using assms(1-3) by (auto simp: k_event_init_def z_waitq_init_empty event_inv_def)
  then have "object_ok d (event_inv a) (event1, ks1)"
    using event.interleaved_ok [OF assms(4)] by simp
  moreover have "\<not> bit (2 :: u32) 0" "bit (1 :: u32) 0" "bit (2 OR 1 :: u32) 0"
    by (simp_all add: bit_0)
  ultimately show ?thesis
    by (auto simp: event_inv_def satisfied_def wait_conditions_iff k_event_wait_def k_event_wait_all_def
        dest!: wait_internal_records split: if_splits)
qed

theorem event_no_lost_wakeup_witness:
  "\<not> events_present True (t_events (threads (snd event_waiting) 2)) (events (fst event_waiting))"
proof -
  have "interleaved 1 {ObjQ 100} (event_calls 100) (\<lparr>events = 0\<rparr>, two_threads) (fst event_waiting, snd event_waiting)"
    using two_threads_event(2) by (intro interleaved.call [OF interleaved.start]) simp
  then show ?thesis
    using event_no_lost_wakeup [of 100 "\<lparr>events = 7\<rparr>" two_threads "(\<lparr>events = 0\<rparr>, two_threads)" 1
        "fst event_waiting" "snd event_waiting"] two_threads_event
      event_waiting_state
    by (simp add: k_event_init_def z_waitq_init_empty)
qed

text \<open>C30: Posting events returns, gives the previous values of the masked events, and wakes exactly the waiting threads
  whose condition the new events satisfy, that is those that wait for all of their events and have each of them, and
  those that wait for any and have one: the others keep waiting in their order, and each woken thread is in the run
  queue unless something else stops it, has no time-out left, and returns from its call the events it waited for that
  are present, which are not none.\<close>

theorem event_post_wakes_satisfied:
  assumes "system_ok d ks" and "event_inv a event ks"
    and "new = (events event AND NOT events_mask) OR (evs AND events_mask)"
    and "met = (\<lambda>t. events_present (bit (event_options (threads ks t)) 0) (t_events (threads ks t)) new)"
  shows "\<exists>event' ks'. k_event_set_masked a evs events_mask event ks = Some (events event AND events_mask, event', ks') \<and>
    events event' = new \<and> system_ok d ks' \<and>
    waitqs ks' = (waitqs ks)(ObjQ a := filter (\<lambda>t. \<not> met t) (waitqs ks (ObjQ a))) \<and>
    (\<forall>t \<in> set (waitqs ks (ObjQ a)). met t \<longrightarrow> woken_up ret_ok t ks' \<and>
      k_event_wait_resume t (t_events (threads ks t)) ks' = new AND t_events (threads ks t) \<and>
      new AND t_events (threads ks t) \<noteq> 0)"
proof -
  have new: "new = post_events evs events_mask event" and met: "met = satisfied new ks"
    using assms(3,4) by (simp_all add: post_events_def satisfied_def wait_conditions_iff fun_eq_iff)
  obtain ks' where r: "k_event_post_internal a evs events_mask event ks = Some (events event AND events_mask,
      event\<lparr>events := new\<rparr>, z_reschedule ks')" "system_ok d ks'"
      "waitqs ks' = (waitqs ks)(ObjQ a := filter (\<lambda>t. \<not> met t) (waitqs ks (ObjQ a)))"
      and f: "\<And>t. t \<in> set (waitqs ks (ObjQ a)) \<Longrightarrow> met t \<Longrightarrow> t_events (threads ks' t) = new \<and>
        swap_retval (threads ks' t) = ret_ok \<and> pended_on (threads ks' t) = None \<and> \<not> is_linked ks' (ThreadTO t)"
      and c: "current ks' = current ks" "in_isr ks' = in_isr ks" "idle_thread ks' = idle_thread ks"
    using post_internal_returns [OF assms(1,2), of evs events_mask] unfolding met new by auto
  have "woken_up ret_ok t (z_reschedule ks')" if t: "t \<in> set (waitqs ks (ObjQ a))" "met t" for t
  proof (rule woken_upI [OF r(2)])
    show "t \<noteq> current ks' \<or> in_isr ks'"
      using waiting_not_current [OF assms(1) t(1)] c by auto
    show "t \<noteq> idle_thread ks'"
      using t(1) c(3) waitq_pended(1) [OF system_ok_parts(3) [OF assms(1)]] pended_not_idle [OF system_ok_parts(3) [OF assms(1)]]
      by auto
  qed (use f [OF t] in simp_all)
  moreover have "t_events (threads (z_reschedule ks') t) = t_events (threads ks' t)" for t
    using wait_data_fields(10) [of ks' t] by (simp add: wait_data_def)
  moreover have "new AND t_events (threads ks t) \<noteq> 0" if "t \<in> set (waitqs ks (ObjQ a))" "met t" for t
    using that assms(2)
    by (auto simp: met satisfied_def are_wait_conditions_met_def event_inv_def Let_def split: if_splits)
  ultimately show ?thesis
    using r f by (auto simp: k_event_set_masked_def k_event_wait_resume_def woken_up_def reschedule_fields system_ok_reschedule)
qed

theorem event_post_wakes_satisfied_witness:
  "\<exists>event' ks'. k_event_set_masked 100 7 0xffffffff \<lparr>events = 0\<rparr> (snd event_waiting) = Some (0, event', ks') \<and>
     k_event_wait_resume 2 3 ks' = 3 \<and> waitqs ks' (ObjQ 100) = []"
proof -
  have "system_ok 1 (snd event_waiting)" "event_inv 100 \<lparr>events = 0\<rparr> (snd event_waiting)"
    using event_waiting_ok event_waiting_state by (simp_all add: object_ok_def)
  then show ?thesis
    using event_post_wakes_satisfied [of 1 "snd event_waiting" 100 "\<lparr>events = 0\<rparr>" 7 "0xffffffff" 7, OF _ _ _ refl]
      event_waiting_state wait_conditions_iff [of 3 7 1] by (auto simp: are_wait_conditions_met_def)
qed

end
