(* ===== verification/Stack.thy ===== *)
theory Stack
  imports Kernel_Mem
begin

text \<open>
  Stacks of words (\<^verbatim>\<open>kernel/stack.c\<close>) in a buffer of 32-bit entries.  In every state reached by calls and other
  kernel activity the stack is a last-in first-out sequence, and a pushed word goes to the first waiting thread.
\<close>

subsection \<open>The operations\<close>

record k_stack =
  stk_base :: addr
  stk_next :: addr
  stk_top :: addr
  stk_flags :: u8

abbreviation (input) K_STACK_FLAG_ALLOC :: u8 where "K_STACK_FLAG_ALLOC \<equiv> 1"

text \<open>\<^verbatim>\<open>sizeof(stack_data_t)\<close>.\<close>

abbreviation (input) ENTRY :: nat where "ENTRY \<equiv> 4"

definition k_stack_init :: "addr \<Rightarrow> addr \<Rightarrow> u32 \<Rightarrow> k_stack \<Rightarrow> 'a kernel_scheme \<Rightarrow> k_stack \<times> 'a kernel_scheme" where
  "k_stack_init a buffer num_entries stack ks =
     (let ks = z_waitq_init (ObjQ a) ks;
          stack = stack\<lparr>stk_next := buffer\<rparr>;
          stack = stack\<lparr>stk_base := buffer\<rparr>;
          stack = stack\<lparr>stk_top := stk_base stack + ENTRY * unat num_entries\<rparr>
      in (stack, ks))"

text \<open>The heap of the calling thread is a parameter: \<open>malloc\<close> returns an address, \<open>NULL\<close> if there is no room.  The size
  of the buffer is computed in 32 bits.\<close>

definition k_stack_alloc_init ::
    "(nat \<Rightarrow> 'a kernel_scheme \<Rightarrow> addr \<times> 'a kernel_scheme) \<Rightarrow> addr \<Rightarrow> u32 \<Rightarrow> k_stack \<Rightarrow> 'a kernel_scheme \<Rightarrow>
     retval \<times> k_stack \<times> 'a kernel_scheme" where
  "k_stack_alloc_init malloc a num_entries stack ks =
     (case malloc (unat (num_entries * of_nat ENTRY)) ks of
        (buffer, ks) \<Rightarrow>
          if buffer \<noteq> NULL
          then (let (stack, ks) = k_stack_init a buffer num_entries stack ks
                in (ret_ok, stack\<lparr>stk_flags := K_STACK_FLAG_ALLOC\<rparr>, ks))
          else (Inl ENOMEM, stack, ks))"

definition k_stack_cleanup ::
    "(addr \<Rightarrow> 'a kernel_scheme \<Rightarrow> 'a kernel_scheme) \<Rightarrow> addr \<Rightarrow> k_stack \<Rightarrow> 'a kernel_scheme \<Rightarrow> retval \<times> k_stack \<times> 'a kernel_scheme" where
  "k_stack_cleanup free a stack ks =
     (if z_waitq_head ks (ObjQ a) \<noteq> None then (Inl EAGAIN, stack, ks)
      else if stk_flags stack AND K_STACK_FLAG_ALLOC \<noteq> 0
      then (let ks = free (stk_base stack) ks;
                stack = stack\<lparr>stk_base := NULL\<rparr>;
                stack = stack\<lparr>stk_flags := stk_flags stack AND NOT K_STACK_FLAG_ALLOC\<rparr>
            in (ret_ok, stack, ks))
      else (ret_ok, stack, ks))"

definition k_stack_push :: "addr \<Rightarrow> u32 \<Rightarrow> k_stack \<Rightarrow> 'a kernel_scheme \<Rightarrow> retval \<times> k_stack \<times> 'a kernel_scheme" where
  "k_stack_push a data stack ks =
     (if stk_next stack = stk_top stack then (Inl ENOMEM, stack, ks)
      else
        (case z_unpend_first_thread (ObjQ a) ks of
           (Some first_pending_thread, ks) \<Rightarrow>
             (let ks = z_thread_return_value_set_with_data first_pending_thread ret_ok (unat data) ks;
                  ks = z_ready_thread first_pending_thread ks
              in (ret_ok, stack, z_reschedule ks))
         | (None, ks) \<Rightarrow>
             (let ks = store32 (stk_next stack) data ks;
                  stack = stack\<lparr>stk_next := stk_next stack + ENTRY\<rparr>
              in (ret_ok, stack, ks))))"

text \<open>The word popped is the second result.\<close>

definition k_stack_pop ::
    "addr \<Rightarrow> k_timeout \<Rightarrow> k_stack \<Rightarrow> 'a kernel_scheme \<Rightarrow> (retval \<times> u32 option) outcome \<times> k_stack \<times> 'a kernel_scheme" where
  "k_stack_pop a timeout stack ks =
     (if stk_next stack > stk_base stack
      then (let stack = stack\<lparr>stk_next := stk_next stack - ENTRY\<rparr>
            in (Done (ret_ok, Some (load32 ks (stk_next stack))), stack, ks))
      else if timeout = K_NO_WAIT then (Done (Inl EBUSY, None), stack, ks)
      else (Blocked, stack, z_pend_curr (Some (ObjQ a)) timeout ks))"

definition k_stack_pop_resume :: "tid \<Rightarrow> 'a kernel_scheme \<Rightarrow> retval \<times> u32 option" where
  "k_stack_pop_resume t ks =
     (if swap_retval (threads ks t) = Inl EAGAIN then (Inl EAGAIN, None)
      else (ret_ok, Some (of_nat (swap_data (threads ks t)))))"

subsection \<open>The stack as a sequence\<close>

definition stack_contents :: "k_stack \<Rightarrow> 'a kernel_scheme \<Rightarrow> u32 list" where
  "stack_contents st ks = map (\<lambda>i. load32 ks (stk_base st + ENTRY * i)) [0..<(stk_next st - stk_base st) div ENTRY]"

definition stack_capacity :: "k_stack \<Rightarrow> nat" where
  "stack_capacity st = (stk_top st - stk_base st) div ENTRY"

definition stack_wf :: "k_stack \<Rightarrow> bool" where
  "stack_wf st \<longleftrightarrow> (\<exists>n m. stk_next st = stk_base st + ENTRY * n \<and> stk_top st = stk_base st + ENTRY * m \<and> n \<le> m)"

lemma stack_index:
  assumes "stack_wf st"
  obtains n m where "stk_next st = stk_base st + ENTRY * n" "stk_top st = stk_base st + ENTRY * m" "n \<le> m"
    "\<And>ks. stack_contents st ks = map (\<lambda>i. load32 ks (stk_base st + ENTRY * i)) [0..<n]" "stack_capacity st = m"
  using assms by (auto simp: stack_wf_def stack_contents_def stack_capacity_def)

lemma stack_contents_cong: "mem ks' = mem ks \<Longrightarrow> stack_contents st ks' = stack_contents st ks"
  by (simp add: stack_contents_def load32_cong [of ks' ks])

lemma contents_store:
  assumes "stack_wf st" and "stk_next st \<noteq> stk_top st"
  defines "st' \<equiv> st\<lparr>stk_next := stk_next st + ENTRY\<rparr>"
  shows "stack_wf st'" and "stack_contents st' (store32 (stk_next st) x ks) = stack_contents st ks @ [x]"
    and "length (stack_contents st ks) < stack_capacity st" "stack_capacity st' = stack_capacity st"
proof -
  obtain n m where st: "stk_next st = stk_base st + ENTRY * n" "stk_top st = stk_base st + ENTRY * m" "n \<le> m"
      "\<And>ks. stack_contents st ks = map (\<lambda>i. load32 ks (stk_base st + ENTRY * i)) [0..<n]" "stack_capacity st = m"
    using stack_index [OF assms(1)] by metis
  have nm: "n < m" using st(1-3) assms(2) by (cases "n = m") auto
  have "stk_next st' = stk_base st' + ENTRY * Suc n" "stk_top st' = stk_base st' + ENTRY * m" "stk_base st' = stk_base st"
    using st by (simp_all add: st'_def)
  moreover from this show "stack_wf st'" using nm unfolding stack_wf_def by (intro exI [of _ "Suc n"] exI [of _ m]) simp
  ultimately show "stack_contents st' (store32 (stk_next st) x ks) = stack_contents st ks @ [x]"
      "length (stack_contents st ks) < stack_capacity st" "stack_capacity st' = stack_capacity st"
    using st nm by (auto simp: stack_wf_def stack_contents_def stack_capacity_def load_store_other Suc_le_eq)
qed

lemma contents_drop:
  assumes "stack_wf st" and "stk_base st < stk_next st"
  defines "st' \<equiv> st\<lparr>stk_next := stk_next st - ENTRY\<rparr>"
  shows "stack_wf st'" and "stack_contents st ks = stack_contents st' ks @ [load32 ks (stk_next st')]"
    "stack_capacity st' = stack_capacity st"
proof -
  obtain n m where st: "stk_next st = stk_base st + ENTRY * n" "stk_top st = stk_base st + ENTRY * m" "n \<le> m"
      "\<And>ks. stack_contents st ks = map (\<lambda>i. load32 ks (stk_base st + ENTRY * i)) [0..<n]" "stack_capacity st = m"
    using stack_index [OF assms(1)] by metis
  obtain k where k: "n = Suc k" using st(1) assms(2) by (cases n) auto
  have "stk_next st' = stk_base st' + ENTRY * k" "stk_top st' = stk_base st' + ENTRY * m" "stk_base st' = stk_base st"
    using st k by (simp_all add: st'_def)
  moreover from this show "stack_wf st'" using st(3) k unfolding stack_wf_def by (intro exI [of _ k] exI [of _ m]) simp
  ultimately show "stack_contents st ks = stack_contents st' ks @ [load32 ks (stk_next st')]"
      "stack_capacity st' = stack_capacity st"
    using st k by (auto simp: stack_wf_def stack_contents_def stack_capacity_def)
qed

subsection \<open>The stack as a kernel object\<close>

lemma push_waiter:
  "stk_next st \<noteq> stk_top st \<Longrightarrow> waitqs ks (ObjQ a) = t # ts \<Longrightarrow>
   k_stack_push a x st ks = (ret_ok, st, z_reschedule (wake_thread_data ret_ok (unat x) t ks))"
  by (simp add: k_stack_push_def unpend_first_cases wake_thread_data_def Let_def)

lemma push_store:
  "stk_next st \<noteq> stk_top st \<Longrightarrow> waitqs ks (ObjQ a) = [] \<Longrightarrow>
   k_stack_push a x st ks = (ret_ok, st\<lparr>stk_next := stk_next st + ENTRY\<rparr>, store32 (stk_next st) x ks)"
  by (simp add: k_stack_push_def unpend_first_cases Let_def)

definition stack_inv :: "addr \<Rightarrow> nat \<Rightarrow> k_stack \<Rightarrow> 'a kernel_scheme \<Rightarrow> bool" where
  "stack_inv a n st ks \<longleftrightarrow> stack_wf st \<and> stack_capacity st = n \<and> (waitqs ks (ObjQ a) \<noteq> [] \<longrightarrow> stk_next st = stk_base st)"

inductive stack_calls :: "addr \<Rightarrow> k_stack \<times> 'a kernel_scheme \<Rightarrow> k_stack \<times> 'a kernel_scheme \<Rightarrow> bool" for a where
  push: "stack_calls a (st, ks) (snd (k_stack_push a x st ks))"
| pop: "timeout = K_NO_WAIT \<or> may_block ks \<Longrightarrow> stack_calls a (st, ks) (snd (k_stack_pop a timeout st ks))"

lemma stack_push_ok:
  assumes "object_ok d (stack_inv a n) (st, ks)"
  shows "object_ok d (stack_inv a n) (snd (k_stack_push a x st ks))"
proof (cases "stk_next st = stk_top st")
  case False
  show ?thesis
  proof (cases "waitqs ks (ObjQ a)")
    case Nil
    then show ?thesis
      using assms contents_store(1,4) [OF _ False] by (simp add: push_store [OF False Nil] stack_inv_def system_ok_store)
  next
    case (Cons t ts)
    then show ?thesis
      using assms wake_first_data [OF _ Cons, of d ret_ok "unat x"]
      by (simp add: push_waiter [OF False Cons] stack_inv_def system_ok_reschedule)
  qed
qed (use assms in \<open>simp add: k_stack_push_def\<close>)

lemma stack_pop_ok:
  assumes "object_ok d (stack_inv a n) (st, ks)" and "timeout = K_NO_WAIT \<or> may_block ks"
  shows "object_ok d (stack_inv a n) (snd (k_stack_pop a timeout st ks))"
  using assms pend_curr [of d ks "ObjQ a" timeout] contents_drop(1,3) [of st]
  by (auto simp: k_stack_pop_def stack_inv_def Let_def stack_wf_def)

interpretation stack: kernel_object d "{ObjQ a}" "stack_calls a" "stack_inv a n" for d a n
proof
  show "object_ok d (stack_inv a n) t" if "stack_calls a s t" "object_ok d (stack_inv a n) s" for s t
    using that by (induction rule: stack_calls.induct) (auto simp del: object_ok_simps simp: stack_push_ok stack_pop_ok)
qed (auto simp: stack_inv_def undisturbed_def shrinks_def)

subsection \<open>Properties\<close>

lemma contents_empty: "stack_wf st \<Longrightarrow> stack_contents st ks = [] \<longleftrightarrow> stk_next st \<le> stk_base st"
  by (auto simp: stack_wf_def stack_contents_def)

lemma contents_full: "stack_wf st \<Longrightarrow> stk_next st = stk_top st \<longleftrightarrow> length (stack_contents st ks) = stack_capacity st"
  by (auto simp: stack_wf_def stack_contents_def stack_capacity_def)

lemma contents_bound: "stack_wf st \<Longrightarrow> length (stack_contents st ks) \<le> stack_capacity st"
  by (auto simp: stack_wf_def stack_contents_def stack_capacity_def)

text \<open>C31: In every state that calls and other kernel activity lead to, a stack is a last-in first-out sequence of
  at most the given number of entries: a push onto a full stack fails with \<^verbatim>\<open>-ENOMEM\<close> and changes nothing, a push
  with a thread waiting gives that thread the word, any other push appends it; a pop takes the last word, and
  finds a stack with none either by failing with \<^verbatim>\<open>-EBUSY\<close> or by queueing the caller.\<close>

theorem stack_refines_lifo:
  assumes "k_stack_init a buffer num_entries stack ks0 = s0" and "system_ok d ks0" and "waitqs ks0 (ObjQ a) = []"
    and "interleaved d {ObjQ a} (stack_calls a) s0 (st, ks)" and "timeout = K_NO_WAIT \<or> may_block ks"
  shows "length (stack_contents st ks) \<le> unat num_entries \<and>
    (case k_stack_push a x st ks of (r, st', ks') \<Rightarrow>
       if length (stack_contents st ks) = unat num_entries then r = Inl ENOMEM \<and> st' = st \<and> ks' = ks
       else r = ret_ok \<and>
         (case waitqs ks (ObjQ a) of
            [] \<Rightarrow> stack_contents st' ks' = stack_contents st ks @ [x]
          | t # ts \<Rightarrow> stack_contents st' ks' = [] \<and> k_stack_pop_resume t ks' = (ret_ok, Some x) \<and>
              waitqs ks' = (waitqs ks)(ObjQ a := ts))) \<and>
    (case k_stack_pop a timeout st ks of (r, st', ks') \<Rightarrow>
       if stack_contents st ks \<noteq> []
       then r = Done (ret_ok, Some (last (stack_contents st ks))) \<and> stack_contents st' ks' = butlast (stack_contents st ks)
       else if timeout = K_NO_WAIT then r = Done (Inl EBUSY, None) \<and> st' = st \<and> ks' = ks
       else r = Blocked \<and> st' = st \<and> current ks \<in> set (waitqs ks' (ObjQ a)))"
proof -
  have "object_ok d (stack_inv a (unat num_entries)) s0"
    using assms(1-3) by (auto simp: k_stack_init_def z_waitq_init_empty stack_inv_def stack_wf_def stack_capacity_def)
  then have ok: "system_ok d ks" and inv: "stack_inv a (unat num_entries) st ks"
    using stack.interleaved_ok [OF assms(4)] by simp_all
  then have wf: "stack_wf st" and n: "stack_capacity st = unat num_entries" and e: "waitqs ks (ObjQ a) \<noteq> [] \<Longrightarrow> stk_next st = stk_base st"
    by (simp_all add: stack_inv_def)
  have push: "case k_stack_push a x st ks of (r, st', ks') \<Rightarrow> r = ret_ok \<and>
      (case waitqs ks (ObjQ a) of
         [] \<Rightarrow> stack_contents st' ks' = stack_contents st ks @ [x]
       | t # ts \<Rightarrow> stack_contents st' ks' = [] \<and> k_stack_pop_resume t ks' = (ret_ok, Some x) \<and>
           waitqs ks' = (waitqs ks)(ObjQ a := ts))" if f: "stk_next st \<noteq> stk_top st"
  proof (cases "waitqs ks (ObjQ a)")
    case Nil
    then show ?thesis using contents_store(2) [OF wf f] by (simp add: push_store [OF f])
  next
    case (Cons t ts)
    moreover have "t \<noteq> current ks \<or> in_isr ks"
      using waiting_not_current [OF ok, of t "ObjQ a"] Cons by auto
    ultimately show ?thesis
      using wake_first_data(2) [OF ok Cons] contents_empty [OF wf] e
      by (simp add: push_waiter [OF f] k_stack_pop_resume_def reschedule_fields swap_data_reschedule)
  qed
  have "case k_stack_pop a timeout st ks of (r, st', ks') \<Rightarrow>
       if stack_contents st ks \<noteq> []
       then r = Done (ret_ok, Some (last (stack_contents st ks))) \<and> stack_contents st' ks' = butlast (stack_contents st ks)
       else if timeout = K_NO_WAIT then r = Done (Inl EBUSY, None) \<and> st' = st \<and> ks' = ks
       else r = Blocked \<and> st' = st \<and> current ks \<in> set (waitqs ks' (ObjQ a))"
    using contents_drop(2) [OF wf, of ks] contents_empty [OF wf, of ks] pend_curr(2) [OF ok, of "ObjQ a" timeout] assms(5)
    by (auto simp: k_stack_pop_def Let_def)
  moreover have "k_stack_push a x st ks = (Inl ENOMEM, st, ks)" if "stk_next st = stk_top st"
    using that by (simp add: k_stack_push_def)
  ultimately show ?thesis
    using push contents_full [OF wf, of ks] contents_bound [OF wf, of ks] n by auto
qed

theorem stack_refines_lifo_witness:
  "fst (k_stack_push 100 7 \<lparr>stk_base = 400, stk_next = 400, stk_top = 408, stk_flags = 0\<rparr> two_threads) = ret_ok"
proof -
  let ?st = "\<lparr>stk_base = 400, stk_next = 400, stk_top = 408, stk_flags = 0\<rparr>"
  have q: "waitqs two_threads (ObjQ 100) = []" by code_simp
  have "interleaved 1 {ObjQ 100} (stack_calls 100) (?st, two_threads) (?st, two_threads)"
    by (rule interleaved.start)
  then show ?thesis
    using stack_refines_lifo [of 100 400 2 ?st two_threads "(?st, two_threads)" 1 ?st two_threads 0 7] two_threads_ok q
    by (auto simp: k_stack_init_def z_waitq_init_empty system_ok_def stack_contents_def split: prod.splits)
qed

end
