(* ===== verification/Mem_Slab.thy ===== *)
theory Mem_Slab
  imports Kernel_Mem
begin

text \<open>
  Memory slabs (\<^verbatim>\<open>kernel/mem_slab.c\<close>): equal blocks of a buffer, the free ones chained through their first
  word.  Pointers and sizes are 32-bit words.  Whatever threads write into the blocks they hold, and however allocating,
  freeing, waiting and time-outs interleave, no block is handed out twice and none is lost.
\<close>

subsection \<open>The operations\<close>

record k_mem_slab =
  slab_buffer :: u32
  free_list :: u32
  num_blocks :: u32
  block_size :: u32
  num_used :: u32
  max_used :: u32

record sys_memory_stats =
  free_bytes :: u32
  allocated_bytes :: u32
  max_allocated_bytes :: u32

partial_function (option) free_list_loop ::
    "u32 \<Rightarrow> k_mem_slab \<Rightarrow> 'a kernel_scheme \<Rightarrow> (k_mem_slab \<times> 'a kernel_scheme) option" where
  "free_list_loop p slab ks =
     (if p \<ge> slab_buffer slab
      then (let ks = store32 (unat p) (free_list slab) ks;
                slab = slab\<lparr>free_list := p\<rparr>
            in free_list_loop (p - block_size slab) slab ks)
      else Some (slab, ks))"

definition create_free_list :: "k_mem_slab \<Rightarrow> 'a kernel_scheme \<Rightarrow> (retval \<times> k_mem_slab \<times> 'a kernel_scheme) option" where
  "create_free_list slab ks =
     (if (block_size slab OR slab_buffer slab) AND (4 - 1) \<noteq> 0 then Some (Inl EINVAL, slab, ks)
      else
        (let slab = slab\<lparr>free_list := 0\<rparr>;
             p = slab_buffer slab + block_size slab * (num_blocks slab - 1)
         in map_option (\<lambda>s. (ret_ok, s)) (free_list_loop p slab ks)))"

definition k_mem_slab_init ::
    "addr \<Rightarrow> u32 \<Rightarrow> u32 \<Rightarrow> u32 \<Rightarrow> k_mem_slab \<Rightarrow> 'a kernel_scheme \<Rightarrow> (retval \<times> k_mem_slab \<times> 'a kernel_scheme) option" where
  "k_mem_slab_init a buffer bsize blocks slab ks =
     (let slab = slab\<lparr>num_blocks := blocks\<rparr>;
          slab = slab\<lparr>block_size := bsize\<rparr>;
          slab = slab\<lparr>slab_buffer := buffer\<rparr>;
          slab = slab\<lparr>num_used := 0\<rparr>;
          slab = slab\<lparr>max_used := 0\<rparr>
      in map_option (\<lambda>(rc, slab, ks). if rc = ret_ok then (rc, slab, z_waitq_init (ObjQ a) ks) else (rc, slab, ks))
           (create_free_list slab ks))"

text \<open>The slabs defined at build time.\<close>

fun init_mem_slab_list :: "k_mem_slab list \<Rightarrow> 'a kernel_scheme \<Rightarrow> (retval \<times> k_mem_slab list \<times> 'a kernel_scheme) option" where
  "init_mem_slab_list [] ks = Some (ret_ok, [], ks)"
| "init_mem_slab_list (slab # slabs) ks =
     Option.bind (create_free_list slab ks)
       (\<lambda>(rc, slab, ks). if rc \<noteq> ret_ok then Some (rc, slab # slabs, ks)
          else map_option (\<lambda>(rc, slabs, ks). (rc, slab # slabs, ks)) (init_mem_slab_list slabs ks))"

definition slab_ptr_is_good :: "k_mem_slab \<Rightarrow> u32 \<Rightarrow> bool" where
  "slab_ptr_is_good slab p =
     (let offset = uint p - uint (slab_buffer slab)
      in offset \<ge> 0 \<and> offset < uint (block_size slab * num_blocks slab) \<and> offset mod uint (block_size slab) = 0)"

text \<open>The block is the second result.\<close>

definition k_mem_slab_alloc ::
    "addr \<Rightarrow> k_timeout \<Rightarrow> k_mem_slab \<Rightarrow> 'a kernel_scheme \<Rightarrow> (retval \<times> u32) outcome \<times> k_mem_slab \<times> 'a kernel_scheme" where
  "k_mem_slab_alloc a timeout slab ks =
     (if free_list slab \<noteq> 0
      then (let block = free_list slab;
                slab = slab\<lparr>free_list := load32 ks (unat (free_list slab))\<rparr>;
                slab = slab\<lparr>num_used := num_used slab + 1\<rparr>;
                slab = slab\<lparr>max_used := max (num_used slab) (max_used slab)\<rparr>
            in (Done (ret_ok, block), slab, ks))
      else if timeout = K_NO_WAIT then (Done (Inl ENOMEM, 0), slab, ks)
      else (Blocked, slab, z_pend_curr (Some (ObjQ a)) timeout ks))"

definition k_mem_slab_alloc_resume :: "tid \<Rightarrow> 'a kernel_scheme \<Rightarrow> retval \<times> u32 option" where
  "k_mem_slab_alloc_resume t ks =
     (let result = swap_retval (threads ks t)
      in (result, if result = ret_ok then Some (of_nat (swap_data (threads ks t))) else None))"

definition k_mem_slab_free :: "addr \<Rightarrow> u32 \<Rightarrow> k_mem_slab \<Rightarrow> 'a kernel_scheme \<Rightarrow> k_mem_slab \<times> 'a kernel_scheme" where
  "k_mem_slab_free a block slab ks =
     (case (if free_list slab = 0 then z_unpend_first_thread (ObjQ a) ks else (None, ks)) of
        (Some pending_thread, ks) \<Rightarrow>
          (let ks = z_thread_return_value_set_with_data pending_thread ret_ok (unat block) ks;
               ks = z_ready_thread pending_thread ks
           in (slab, z_reschedule ks))
      | (None, ks) \<Rightarrow>
          (let ks = store32 (unat block) (free_list slab) ks;
               slab = slab\<lparr>free_list := block\<rparr>;
               slab = slab\<lparr>num_used := num_used slab - 1\<rparr>
           in (slab, ks)))"

text \<open>A missing slab or result structure is \<^verbatim>\<open>NULL\<close>.\<close>

definition k_mem_slab_runtime_stats_get :: "k_mem_slab option \<Rightarrow> sys_memory_stats option \<Rightarrow> retval \<times> sys_memory_stats option" where
  "k_mem_slab_runtime_stats_get slab stats =
     (case (slab, stats) of
        (Some slab, Some stats) \<Rightarrow>
          (let stats = stats\<lparr>allocated_bytes := num_used slab * block_size slab\<rparr>;
               stats = stats\<lparr>free_bytes := (num_blocks slab - num_used slab) * block_size slab\<rparr>;
               stats = stats\<lparr>max_allocated_bytes := max_used slab * block_size slab\<rparr>
           in (ret_ok, Some stats))
      | _ \<Rightarrow> (Inl EINVAL, stats))"

definition k_mem_slab_runtime_stats_reset_max :: "k_mem_slab option \<Rightarrow> retval \<times> k_mem_slab option" where
  "k_mem_slab_runtime_stats_reset_max slab =
     (case slab of None \<Rightarrow> (Inl EINVAL, slab) | Some slab \<Rightarrow> (ret_ok, Some (slab\<lparr>max_used := num_used slab\<rparr>)))"

subsection \<open>Blocks\<close>

text \<open>
  The blocks fit in the address space, and there is room for one block below the buffer: the loop that builds the
  free list steps there before it stops.
\<close>

definition slab_wf :: "k_mem_slab \<Rightarrow> bool" where
  "slab_wf slab \<longleftrightarrow> block_size slab \<noteq> 0 \<and> (block_size slab OR slab_buffer slab) AND 3 = 0 \<and>
     unat (block_size slab) \<le> unat (slab_buffer slab) \<and>
     unat (slab_buffer slab) + unat (num_blocks slab) * unat (block_size slab) < 2 ^ 32"

definition block_at :: "k_mem_slab \<Rightarrow> nat \<Rightarrow> nat" where
  "block_at slab i = unat (slab_buffer slab) + i * unat (block_size slab)"

definition slab_block :: "k_mem_slab \<Rightarrow> nat \<Rightarrow> u32" where
  "slab_block slab i = of_nat (block_at slab i)"

definition slab_blocks :: "k_mem_slab \<Rightarrow> u32 list" where
  "slab_blocks slab = map (slab_block slab) [0..<unat (num_blocks slab)]"

lemma slab_wf_size: "slab_wf slab \<Longrightarrow> 4 \<le> unat (block_size slab)"
proof -
  assume "slab_wf slab"
  then have "4 dvd unat (block_size slab)" "unat (block_size slab) \<noteq> 0"
    by (auto simp: slab_wf_def bit.conj_disj_distrib or_eq_0_iff aligned_dvd [symmetric] unat_eq_zero bit.conj_disj_distrib2)
  then show ?thesis by (auto dest: dvd_imp_le)
qed

lemma block_bounds:
  assumes "slab_wf slab" and "i \<le> unat (num_blocks slab)"
  shows "unat (slab_block slab i) = block_at slab i" and "0 < block_at slab i" and "block_at slab i < 2 ^ 32"
proof -
  have "i * unat (block_size slab) \<le> unat (num_blocks slab) * unat (block_size slab)"
    using assms(2) by simp
  then show b: "block_at slab i < 2 ^ 32"
    using assms(1) unfolding slab_wf_def block_at_def by linarith
  then show "unat (slab_block slab i) = block_at slab i"
    by (simp add: slab_block_def take_bit_nat_eq_self unsigned_of_nat)
  show "0 < block_at slab i"
    using slab_wf_size [OF assms(1)] assms(1) by (auto simp: slab_wf_def block_at_def)
qed

lemma blocks_apart:
  assumes "slab_wf slab" and "i \<noteq> j"
  shows "block_at slab i + unat (block_size slab) \<le> block_at slab j \<or> block_at slab j + unat (block_size slab) \<le> block_at slab i"
proof -
  have "Suc i * unat (block_size slab) \<le> j * unat (block_size slab) \<or> Suc j * unat (block_size slab) \<le> i * unat (block_size slab)"
    using assms(2) by (metis Suc_leI linorder_neqE_nat mult_le_mono1)
  then show ?thesis by (auto simp: block_at_def)
qed

text \<open>Free blocks are chained through their first word.\<close>

fun slab_chain :: "'a kernel_scheme \<Rightarrow> u32 \<Rightarrow> u32 list \<Rightarrow> bool" where
  "slab_chain ks p [] \<longleftrightarrow> p = 0"
| "slab_chain ks p (b # bs) \<longleftrightarrow> p = b \<and> b \<noteq> 0 \<and> slab_chain ks (load32 ks (unat b)) bs"

lemma slab_chain_cong:
  "(\<And>b. b \<in> set bs \<Longrightarrow> load32 ks' (unat b) = load32 ks (unat b)) \<Longrightarrow> slab_chain ks' p bs = slab_chain ks p bs"
  by (induction bs arbitrary: p) auto

lemma slab_chain_store:
  assumes "slab_chain ks p bs" and "\<And>b. b \<in> set bs \<Longrightarrow> unat q + 4 \<le> unat b \<or> unat b + 4 \<le> unat q" and "q \<noteq> 0"
  shows "slab_chain (store32 (unat q) p ks) q (q # bs)"
  using assms slab_chain_cong [of bs "store32 (unat q) p ks" ks p] by (auto simp: load_store_other)

lemma free_list_loop_chain:
  assumes "slab_wf slab" and "k \<le> unat (num_blocks slab)"
    and "slab_chain ks p (map (slab_block slab) [k..<unat (num_blocks slab)])"
  shows "\<exists>p' m. free_list_loop (of_nat (block_at slab k - unat (block_size slab))) (slab\<lparr>free_list := p\<rparr>) ks =
      Some (slab\<lparr>free_list := p'\<rparr>, ks\<lparr>mem := m\<rparr>) \<and> slab_chain (ks\<lparr>mem := m\<rparr>) p' (slab_blocks slab)"
  using assms(2,3)
proof (induction k arbitrary: p ks)
  case 0
  have b: "block_at slab 0 = unat (slab_buffer slab)" by (simp add: block_at_def)
  have "unat (slab_buffer slab) - unat (block_size slab) < unat (slab_buffer slab)"
    using assms(1) slab_wf_size [OF assms(1)] by (auto simp: slab_wf_def)
  moreover have "unat (slab_buffer slab) < 2 ^ 32" using unsigned_less [of "slab_buffer slab"] by simp
  ultimately have "(of_nat (block_at slab 0 - unat (block_size slab)) :: u32) < slab_buffer slab"
    by (simp add: b word_less_nat_alt unsigned_of_nat take_bit_nat_eq_self)
  then show ?case
    using 0 by (intro exI [of _ p] exI [of _ "mem ks"], subst free_list_loop.simps) (auto simp: slab_blocks_def)
next
  case (Suc k)
  let ?q = "slab_block slab k" and ?n = "unat (num_blocks slab)"
  have q: "of_nat (block_at slab (Suc k) - unat (block_size slab)) = ?q"
    by (simp add: slab_block_def block_at_def)
  have k: "k \<le> ?n" using Suc.prems by simp
  note bk = block_bounds [OF assms(1) k]
  have ge: "slab_buffer slab \<le> ?q"
    using bk(1) by (simp add: word_le_nat_alt block_at_def)
  have ap: "unat ?q + 4 \<le> unat b \<or> unat b + 4 \<le> unat ?q" if b: "b \<in> set (map (slab_block slab) [Suc k..<?n])" for b
  proof -
    obtain j where j: "b = slab_block slab j" "j \<noteq> k" "j \<le> ?n" using b by auto
    then show ?thesis
      using blocks_apart [OF assms(1) j(2)] bk(1) block_bounds(1) [OF assms(1) j(3)] slab_wf_size [OF assms(1)] by auto
  qed
  have "?q \<noteq> 0" using bk by (metis unat_eq_zero less_irrefl)
  then have "slab_chain (store32 (unat ?q) p ks) ?q (?q # map (slab_block slab) [Suc k..<?n])"
    by (intro slab_chain_store Suc.prems(2) ap)
  then have c: "slab_chain (store32 (unat ?q) p ks) ?q (map (slab_block slab) [k..<?n])"
    using Suc.prems(1) by (simp add: upt_conv_Cons)
  have "?q - block_size slab = of_nat (block_at slab k - unat (block_size slab))"
    using assms(1) by (simp add: slab_block_def block_at_def slab_wf_def of_nat_diff)
  then have "free_list_loop ?q (slab\<lparr>free_list := p\<rparr>) ks =
      free_list_loop (of_nat (block_at slab k - unat (block_size slab))) (slab\<lparr>free_list := ?q\<rparr>) (store32 (unat ?q) p ks)"
    using ge by (subst free_list_loop.simps) (simp add: Let_def)
  then show ?case
    using Suc.IH [OF k c] unfolding q by (auto simp: store32_def)
qed

lemma slab_wf_free_list [simp]:
  "slab_wf (slab\<lparr>free_list := p\<rparr>) = slab_wf slab" "slab_blocks (slab\<lparr>free_list := p\<rparr>) = slab_blocks slab"
  "slab_wf (slab\<lparr>num_used := n\<rparr>) = slab_wf slab" "slab_blocks (slab\<lparr>num_used := n\<rparr>) = slab_blocks slab"
  "slab_wf (slab\<lparr>max_used := n\<rparr>) = slab_wf slab" "slab_blocks (slab\<lparr>max_used := n\<rparr>) = slab_blocks slab"
  by (simp_all add: slab_wf_def slab_blocks_def slab_block_def block_at_def fun_eq_iff)

lemma create_free_list_chain:
  assumes "slab_wf slab"
  shows "\<exists>p m. create_free_list slab ks = Some (ret_ok, slab\<lparr>free_list := p\<rparr>, ks\<lparr>mem := m\<rparr>) \<and>
    slab_chain (ks\<lparr>mem := m\<rparr>) p (slab_blocks slab)"
proof -
  have "unat (block_size slab) \<le> block_at slab (unat (num_blocks slab))"
    using assms by (simp add: slab_wf_def block_at_def)
  then have p: "slab_buffer slab + block_size slab * (num_blocks slab - 1) =
      of_nat (block_at slab (unat (num_blocks slab)) - unat (block_size slab))"
    by (simp add: of_nat_diff) (simp add: block_at_def algebra_simps)
  have "(block_size slab OR slab_buffer slab) AND (4 - 1) = 0"
    using assms by (simp add: slab_wf_def)
  then show ?thesis
    using free_list_loop_chain [OF assms order_refl, of ks 0] by (auto simp: create_free_list_def Let_def p)
qed

lemma block_pair:
  assumes "slab_wf slab" and "b \<in> set (slab_blocks slab)" and "c \<in> set (slab_blocks slab)" and "b \<noteq> c"
  shows "unat b + unat (block_size slab) \<le> unat c \<or> unat c + unat (block_size slab) \<le> unat b"
proof -
  obtain i j where ij: "b = slab_block slab i" "i < unat (num_blocks slab)" "c = slab_block slab j" "j < unat (num_blocks slab)"
    using assms(2,3) by (auto simp: slab_blocks_def)
  then have "i \<noteq> j" using assms(4) by auto
  then show ?thesis
    using blocks_apart [OF assms(1), of i j] block_bounds(1) [OF assms(1)] ij by simp
qed

lemma slab_blocks_good:
  assumes "slab_wf slab" and "b \<in> set (slab_blocks slab)"
  shows "slab_ptr_is_good slab b" and "b \<noteq> 0"
proof -
  obtain i where i: "b = slab_block slab i" "i < unat (num_blocks slab)"
    using assms(2) by (auto simp: slab_blocks_def)
  note b = block_bounds [OF assms(1) less_imp_le [OF i(2)]]
  have s: "0 < unat (block_size slab)" using slab_wf_size [OF assms(1)] by simp
  have n: "unat (block_size slab * num_blocks slab) = unat (block_size slab) * unat (num_blocks slab)"
  proof -
    have "unat (block_size slab) * unat (num_blocks slab) < 2 ^ LENGTH(32)"
      using assms(1) unfolding slab_wf_def by (simp add: mult.commute)
    then show ?thesis by (simp only: unat_mult_lem)
  qed
  have "uint b - uint (slab_buffer slab) = int (i * unat (block_size slab))"
    using b(1) i(1) unfolding uint_nat block_at_def by simp
  moreover have "i * unat (block_size slab) < unat (block_size slab * num_blocks slab)"
    using i(2) s unfolding n by (simp add: mult.commute)
  ultimately show "slab_ptr_is_good slab b"
    unfolding slab_ptr_is_good_def Let_def uint_nat by (simp del: of_nat_unat of_nat_mult add: of_nat_mod [symmetric])
  show "b \<noteq> 0" using b i(1) by (metis unat_eq_zero less_irrefl)
qed

lemma slab_blocks_distinct:
  assumes "slab_wf slab"
  shows "distinct (slab_blocks slab)" and "length (slab_blocks slab) = unat (num_blocks slab)"
proof -
  have "i = j" if "slab_block slab i = slab_block slab j" "i < unat (num_blocks slab)" "j < unat (num_blocks slab)" for i j
    using blocks_apart [OF assms, of i j] block_bounds(1) [OF assms, of i] block_bounds(1) [OF assms, of j] that slab_wf_size [OF assms]
    by auto
  then show "distinct (slab_blocks slab)" by (auto simp: slab_blocks_def distinct_map inj_on_def)
qed (simp add: slab_blocks_def)

subsection \<open>The slab as a kernel object\<close>

text \<open>
  The object is the slab together with the set of blocks that threads hold: what allocating returned, and what the
  first waiting thread gets from \<^verbatim>\<open>k_mem_slab_alloc\<close> when it is woken by a free.  Threads write into the
  blocks they hold as they like.
\<close>

definition handed_over :: "addr \<Rightarrow> 'a kernel_scheme \<Rightarrow> 'a kernel_scheme \<Rightarrow> u32 set" where
  "handed_over a ks ks' =
     (case waitqs ks (ObjQ a) of [] \<Rightarrow> {} | t # ts \<Rightarrow> set_option (snd (k_mem_slab_alloc_resume t ks')))"

inductive slab_calls ::
    "addr \<Rightarrow> (k_mem_slab \<times> u32 set) \<times> 'a kernel_scheme \<Rightarrow> (k_mem_slab \<times> u32 set) \<times> 'a kernel_scheme \<Rightarrow> bool" for a where
  alloc: "k_mem_slab_alloc a timeout slab ks = (Done (ret_ok, b), slab', ks') \<Longrightarrow>
    slab_calls a ((slab, held), ks) ((slab', insert b held), ks')"
| alloc_none: "k_mem_slab_alloc a timeout slab ks = (r, slab', ks') \<Longrightarrow> \<forall>b. r \<noteq> Done (ret_ok, b) \<Longrightarrow>
    timeout = K_NO_WAIT \<or> may_block ks \<Longrightarrow> slab_calls a ((slab, held), ks) ((slab', held), ks')"
| free: "b \<in> held \<Longrightarrow> k_mem_slab_free a b slab ks = (slab', ks') \<Longrightarrow>
    slab_calls a ((slab, held), ks) ((slab', held - {b} \<union> handed_over a ks ks'), ks')"
| use: "b \<in> held \<Longrightarrow> \<forall>x. x < unat b \<or> unat b + unat (block_size slab) \<le> x \<longrightarrow> m x = mem ks x \<Longrightarrow>
    slab_calls a ((slab, held), ks) ((slab, held), ks\<lparr>mem := m\<rparr>)"
| reset_max: "k_mem_slab_runtime_stats_reset_max (Some slab) = (r, Some slab') \<Longrightarrow>
    slab_calls a ((slab, held), ks) ((slab', held), ks)"

definition slab_state :: "addr \<Rightarrow> k_mem_slab \<Rightarrow> u32 set \<Rightarrow> 'a kernel_scheme \<Rightarrow> u32 list \<Rightarrow> bool" where
  "slab_state a slab held ks fs \<longleftrightarrow> slab_wf slab \<and>
     unat (num_used slab) = card held \<and> num_used slab \<le> max_used slab \<and> max_used slab \<le> num_blocks slab \<and>
     slab_chain ks (free_list slab) fs \<and> distinct fs \<and> set fs \<inter> held = {} \<and> set fs \<union> held = set (slab_blocks slab) \<and>
     (waitqs ks (ObjQ a) \<noteq> [] \<longrightarrow> fs = [])"

definition slab_inv :: "addr \<Rightarrow> k_mem_slab \<times> u32 set \<Rightarrow> 'a kernel_scheme \<Rightarrow> bool" where
  "slab_inv a ob ks \<longleftrightarrow> (\<exists>fs. slab_state a (fst ob) (snd ob) ks fs)"

lemma slab_state_card:
  assumes "slab_state a slab held ks fs"
  shows "finite held" and "card held + length fs = unat (num_blocks slab)" and "free_list slab = 0 \<longleftrightarrow> fs = []"
proof -
  show fin: "finite held" using assms unfolding slab_state_def by (metis List.finite_set finite_Un)
  then show "card held + length fs = unat (num_blocks slab)"
    using card_Un_disjoint [of "set fs" held] assms slab_blocks_distinct [of slab]
    by (simp add: slab_state_def distinct_card)
  show "free_list slab = 0 \<longleftrightarrow> fs = []"
    using assms by (cases fs) (auto simp: slab_state_def)
qed

lemma slab_chain_mem: "mem ks' = mem ks \<Longrightarrow> slab_chain ks' p bs = slab_chain ks p bs"
  using slab_chain_cong [of bs ks' ks p] load32_cong [of ks' ks] by blast

lemma slab_state_frame:
  assumes "slab_state a slab held ks fs" and "mem ks' = mem ks"
    and "waitqs ks' (ObjQ a) \<noteq> [] \<Longrightarrow> waitqs ks (ObjQ a) \<noteq> [] \<or> free_list slab = 0"
  shows "slab_state a slab held ks' fs"
  using assms slab_chain_mem [of ks' ks] slab_state_card(3) [OF assms(1)] by (auto simp: slab_state_def)

lemma held_apart:
  assumes "slab_state a slab held ks fs" and "b \<in> held" and "f \<in> set fs"
  shows "unat b + unat (block_size slab) \<le> unat f \<or> unat f + unat (block_size slab) \<le> unat b"
  using assms by (intro block_pair) (auto simp: slab_state_def)

lemma slab_alloc_ok:
  assumes "slab_state a slab held ks fs" and "k_mem_slab_alloc a timeout slab ks = (Done (ret_ok, b), slab', ks')"
  shows "b \<in> set fs" and "slab_state a slab' (insert b held) ks' (tl fs)" and "ks' = ks"
proof -
  have f: "free_list slab \<noteq> 0" and s: "ks' = ks" "b = free_list slab"
      "slab' = slab\<lparr>free_list := load32 ks (unat b), num_used := num_used slab + 1, max_used := max (num_used slab + 1) (max_used slab)\<rparr>"
    using assms(2) by (auto simp: k_mem_slab_alloc_def Let_def split: if_splits)
  obtain fs' where fs: "fs = b # fs'" using f assms(1) s(2) by (cases fs) (auto simp: slab_state_def)
  note c = slab_state_card [OF assms(1)]
  have b: "b \<notin> held" "b \<notin> set fs'" using assms(1) fs by (auto simp: slab_state_def)
  have lt: "unat (num_used slab) < unat (num_blocks slab)" using c fs assms(1) by (simp add: slab_state_def)
  then have u: "unat (num_used slab + 1) = Suc (unat (num_used slab))"
    using unsigned_less [of "num_blocks slab", where 'a = nat] by (simp add: unat_word_ariths)
  then have "num_used slab + 1 \<le> num_blocks slab" using lt by (simp add: word_le_nat_alt)
  then show "slab_state a slab' (insert b held) ks' (tl fs)"
    using assms(1) u b c(1) unfolding fs s by (auto simp: slab_state_def)
  show "b \<in> set fs" "ks' = ks" using fs s by simp_all
qed

lemma slab_free_wakes:
  assumes "slab_state a slab held ks fs" and "system_ok d ks" and "k_mem_slab_free a b slab ks = (slab', ks')"
    and "waitqs ks (ObjQ a) = t # ts"
  shows "slab' = slab" and "ks' = z_reschedule (wake_thread_data ret_ok (unat b) t ks)"
    and "woken_up ret_ok t ks'" and "k_mem_slab_alloc_resume t ks' = (ret_ok, Some b)" and "system_ok d ks'"
    and "waitqs ks' = (waitqs ks)(ObjQ a := ts)"
proof -
  have e: "free_list slab = 0" using assms(1,4) slab_state_card(3) [OF assms(1)] by (auto simp: slab_state_def)
  show s: "slab' = slab" "ks' = z_reschedule (wake_thread_data ret_ok (unat b) t ks)"
    using assms(3,4) e by (simp_all add: k_mem_slab_free_def unpend_first_cases wake_thread_data_def Let_def)
  note w = wake_first_data [OF assms(2,4), of ret_ok "unat b"]
  show "system_ok d ks'" "waitqs ks' = (waitqs ks)(ObjQ a := ts)"
    using w s by (simp_all add: system_ok_reschedule reschedule_fields)
  show "woken_up ret_ok t ks'"
    using wake_data_woken [OF assms(2,4)] s by simp
  have "t \<noteq> current ks \<or> in_isr ks"
    using waiting_not_current [OF assms(2), of t "ObjQ a"] assms(4) by auto
  then show "k_mem_slab_alloc_resume t ks' = (ret_ok, Some b)"
    by (simp add: s k_mem_slab_alloc_resume_def reschedule_fields swap_data_reschedule)
qed

lemma slab_free_ok:
  assumes "slab_state a slab held ks fs" and "system_ok d ks" and "b \<in> held" and "k_mem_slab_free a b slab ks = (slab', ks')"
  shows "\<exists>fs'. slab_state a slab' (held - {b} \<union> handed_over a ks ks') ks' fs'" and "system_ok d ks'"
proof -
  note c = slab_state_card [OF assms(1)]
  have wf: "slab_wf slab" using assms(1) by (simp add: slab_state_def)
  have "(\<exists>fs'. slab_state a slab' (held - {b} \<union> handed_over a ks ks') ks' fs') \<and> system_ok d ks'"
  proof (cases "waitqs ks (ObjQ a)")
    case Nil
    then have s: "ks' = store32 (unat b) (free_list slab) ks" "slab' = slab\<lparr>free_list := b, num_used := num_used slab - 1\<rparr>"
      using assms(4) by (auto simp: k_mem_slab_free_def unpend_first_cases Let_def split: if_splits)
    have bb: "b \<in> set (slab_blocks slab)" using assms(1,3) by (auto simp: slab_state_def)
    have ap: "unat b + 4 \<le> unat f \<or> unat f + 4 \<le> unat b" if "f \<in> set fs" for f
      using held_apart [OF assms(1,3) that] slab_wf_size [OF wf] by auto
    have ch: "slab_chain ks' b (b # fs)"
      using assms(1) ap slab_blocks_good(2) [OF wf bb] unfolding s by (intro slab_chain_store) (auto simp: slab_state_def)
    have "card held \<noteq> 0" using assms(3) c(1) by auto
    then have "num_used slab \<noteq> 0" using assms(1) by (auto simp: slab_state_def)
    then have u: "unat (num_used slab - 1) = unat (num_used slab) - 1" by (rule unat_minus_one)
    then have "num_used slab - 1 \<le> max_used slab"
      using assms(1) by (auto simp: slab_state_def word_le_nat_alt)
    then have "slab_state a slab' (held - {b}) ks' (b # fs) \<and> system_ok d ks'"
      using assms(1-3) ch u c(1) Nil unfolding slab_state_def s by (auto simp: system_ok_store)
    then show ?thesis using Nil by (auto simp: handed_over_def)
  next
    case (Cons t ts)
    note w = slab_free_wakes [OF assms(1,2,4) Cons]
    have "held - {b} \<union> handed_over a ks ks' = held"
      using assms(3) Cons w(4) by (auto simp: handed_over_def)
    moreover have "slab_state a slab held ks' fs"
      using w(2) Cons by (intro slab_state_frame [OF assms(1)]) simp_all
    ultimately show ?thesis using w(1,5) by auto
  qed
  then show "\<exists>fs'. slab_state a slab' (held - {b} \<union> handed_over a ks ks') ks' fs'" "system_ok d ks'" by simp_all
qed

lemma slab_use_ok:
  assumes "slab_state a slab held ks fs" and "b \<in> held"
    and "\<forall>x. x < unat b \<or> unat b + unat (block_size slab) \<le> x \<longrightarrow> m x = mem ks x"
  shows "slab_state a slab held (ks\<lparr>mem := m\<rparr>) fs"
proof -
  have wf: "slab_wf slab" using assms(1) by (simp add: slab_state_def)
  have "load32 (ks\<lparr>mem := m\<rparr>) (unat f) = load32 ks (unat f)" if "f \<in> set fs" for f
    using held_apart [OF assms(1,2) that] assms(3) slab_wf_size [OF wf] by (auto simp: load32_def)
  then show ?thesis
    using assms(1) slab_chain_cong [of fs "ks\<lparr>mem := m\<rparr>" ks "free_list slab"] by (simp add: slab_state_def)
qed

lemma slab_alloc_none_ok:
  assumes "slab_state a slab held ks fs" and "system_ok d ks" and "k_mem_slab_alloc a timeout slab ks = (r, slab', ks')"
    and "\<forall>b. r \<noteq> Done (ret_ok, b)" and "timeout = K_NO_WAIT \<or> may_block ks"
  shows "fs = [] \<and> slab_state a slab' held ks' fs \<and> system_ok d ks'"
proof -
  have "free_list slab = 0" "slab' = slab" "ks' = ks \<or> may_block ks \<and> ks' = z_pend_curr (Some (ObjQ a)) timeout ks"
    using assms(3-5) by (auto simp: k_mem_slab_alloc_def Let_def split: if_splits)
  then show ?thesis
    using slab_state_card(3) [OF assms(1)] slab_state_frame [OF assms(1), of ks'] assms(1,2) pend_curr [OF assms(2), of "ObjQ a" timeout]
    by auto
qed

interpretation slab: kernel_object d "{ObjQ a}" "slab_calls a" "slab_inv a" for d a
proof
  show "object_ok d (slab_inv a) t" if "slab_calls a s t" "object_ok d (slab_inv a) s" for s t
    using that
  proof (induction rule: slab_calls.induct)
    case (alloc timeout slab ks b slab' ks' held)
    then obtain fs where fs: "slab_state a slab held ks fs" "system_ok d ks" by (auto simp: slab_inv_def)
    show ?case using slab_alloc_ok(2,3) [OF fs(1) alloc(1)] fs(2) by (auto simp: slab_inv_def)
  next
    case (alloc_none timeout slab ks r slab' ks' held)
    then obtain fs where fs: "slab_state a slab held ks fs" "system_ok d ks" by (auto simp: slab_inv_def)
    show ?case using slab_alloc_none_ok [OF fs alloc_none(1-3)] by (auto simp: slab_inv_def)
  next
    case (free b held slab ks slab' ks')
    then obtain fs where fs: "slab_state a slab held ks fs" "system_ok d ks" by (auto simp: slab_inv_def)
    show ?case using slab_free_ok [OF fs free(1,2)] by (auto simp: slab_inv_def split: if_splits)
  next
    case (use b held slab m ks)
    then obtain fs where fs: "slab_state a slab held ks fs" "system_ok d ks" by (auto simp: slab_inv_def)
    show ?case using slab_use_ok [OF fs(1) use(1,2)] fs(2) by (auto simp: slab_inv_def system_ok_mem_upd)
  next
    case (reset_max slab r slab' held ks)
    then obtain fs where fs: "slab_state a slab held ks fs" "system_ok d ks" by (auto simp: slab_inv_def)
    then have "slab_state a slab' held ks fs"
      using reset_max(1) by (auto simp: slab_state_def k_mem_slab_runtime_stats_reset_max_def)
    then show ?case using fs(2) by (auto simp: slab_inv_def)
  qed
  show "slab_inv a ob ks'" if "slab_inv a ob ks" "undisturbed (- {ObjQ a}) ks ks'" for ob ks ks'
    using that slab_state_frame [of a "fst ob" "snd ob" ks _ ks'] shrinks_waiting(2,4) [of "{ObjQ a}" ks ks' "ObjQ a"]
    by (auto simp: slab_inv_def undisturbed_def)
qed auto

subsection \<open>Properties\<close>

text \<open>The slab keeps the buffer, the block size and the number of blocks it was given.\<close>

lemma slab_calls_blocks:
  "slab_calls a s t \<Longrightarrow> slab_blocks (fst (fst t)) = slab_blocks (fst (fst s))"
proof (induction rule: slab_calls.induct)
  case (free b held slab ks slab' ks')
  then show ?case
    by (auto simp: k_mem_slab_free_def Let_def split: if_splits prod.splits option.splits)
qed (auto simp: k_mem_slab_alloc_def k_mem_slab_runtime_stats_reset_max_def Let_def split: if_splits)

lemma interleaved_blocks:
  "interleaved d Q (slab_calls a) s t \<Longrightarrow> slab_blocks (fst (fst t)) = slab_blocks (fst (fst s))"
  by (induction rule: interleaved.induct) (auto dest: slab_calls_blocks)

lemma slab_init_ok:
  assumes "slab_wf (slab\<lparr>num_blocks := n, block_size := bsize, slab_buffer := buffer\<rparr>)" and "system_ok d ks" and "waitqs ks (ObjQ a) = []"
  shows "\<exists>slab' ks'. k_mem_slab_init a buffer bsize n slab ks = Some (ret_ok, slab', ks') \<and>
    slab_blocks slab' = map (\<lambda>i. buffer + of_nat i * bsize) [0..<unat n] \<and> object_ok d (slab_inv a) ((slab', {}), ks')"
proof -
  let ?s = "slab\<lparr>num_blocks := n, block_size := bsize, slab_buffer := buffer, num_used := 0, max_used := 0\<rparr>"
  have wf: "slab_wf ?s" using assms(1) by (simp add: slab_wf_def)
  obtain p m where c: "create_free_list ?s ks = Some (ret_ok, ?s\<lparr>free_list := p\<rparr>, ks\<lparr>mem := m\<rparr>)"
      "slab_chain (ks\<lparr>mem := m\<rparr>) p (slab_blocks ?s)"
    using create_free_list_chain [OF wf, of ks] by blast
  have "slab_state a (?s\<lparr>free_list := p\<rparr>) {} (ks\<lparr>mem := m\<rparr>) (slab_blocks ?s)"
    using c(2) wf slab_blocks_distinct(1) [OF wf] assms(3) unfolding slab_state_def by (simp del: slab_chain.simps)
  moreover have "z_waitq_init (ObjQ a) (ks\<lparr>mem := m\<rparr>) = ks\<lparr>mem := m\<rparr>"
    using assms(3) by (simp add: z_waitq_init_empty)
  moreover have "slab_blocks ?s = map (\<lambda>i. buffer + of_nat i * bsize) [0..<unat n]"
    by (simp add: slab_blocks_def slab_block_def block_at_def)
  ultimately show ?thesis
    using c(1) system_ok_mem_upd [OF assms(2)] by (auto simp: k_mem_slab_init_def Let_def slab_inv_def)
qed

text \<open>C32: Initialising a slab of \<open>n\<close> aligned blocks of \<open>bsize\<close> bytes returns, and from then on, whatever is
  allocated, freed, written into held blocks and waited for, no block is handed out twice and none is lost: the count is
  the number of held blocks, which are all among the \<open>n\<close> blocks of the buffer; allocating gives a block of the buffer
  nobody holds, and it fails or waits only if every block is held.  When threads wait and a held block is freed, the
  first of them is woken and returns from its own allocation with exactly the freed block.\<close>

theorem slab_never_double_allocates:
  assumes "system_ok d ks" and "waitqs ks (ObjQ a) = []" and "(bsize OR buffer) AND 3 = 0" and "bsize \<noteq> 0"
    and "unat bsize \<le> unat buffer" and "unat buffer + unat n * unat bsize < 2 ^ 32"
    and "blocks = (\<lambda>i. buffer + of_nat i * bsize) ` {..<unat n}"
  shows "card blocks = unat n \<and> (\<exists>slab0 ks0. k_mem_slab_init a buffer bsize n slab ks = Some (ret_ok, slab0, ks0) \<and>
    (\<forall>slab1 held ks1. interleaved d {ObjQ a} (slab_calls a) ((slab0, {}), ks0) ((slab1, held), ks1) \<longrightarrow>
      unat (num_used slab1) = card held \<and> held \<subseteq> blocks \<and> (\<forall>b \<in> blocks. slab_ptr_is_good slab1 b) \<and>
      (case k_mem_slab_alloc a timeout slab1 ks1 of
         (Done (v, b), _) \<Rightarrow> if v = ret_ok then b \<in> blocks - held else v = Inl ENOMEM \<and> held = blocks
       | (Blocked, _) \<Rightarrow> held = blocks) \<and>
      (\<forall>b \<in> held. \<forall>t ts. waitqs ks1 (ObjQ a) = t # ts \<longrightarrow>
        (case k_mem_slab_free a b slab1 ks1 of
           (slab2, ks2) \<Rightarrow> slab2 = slab1 \<and> waitqs ks2 = (waitqs ks1)(ObjQ a := ts) \<and> woken_up ret_ok t ks2 \<and>
             k_mem_slab_alloc_resume t ks2 = (ret_ok, Some b)))))"
proof -
  obtain slab0 ks0 where init: "k_mem_slab_init a buffer bsize n slab ks = Some (ret_ok, slab0, ks0)"
      "object_ok d (slab_inv a) ((slab0, {}), ks0)" and s0: "slab_blocks slab0 = map (\<lambda>i. buffer + of_nat i * bsize) [0..<unat n]"
    using slab_init_ok [of buffer bsize n slab d ks a] assms by (auto simp: slab_wf_def)
  then have bl: "blocks = set (slab_blocks slab0)" by (auto simp: assms(7))
  have "slab_wf slab0" using init(2) by (auto simp: slab_inv_def slab_state_def)
  then have card: "card blocks = unat n"
    using distinct_card [OF slab_blocks_distinct(1), of slab0] arg_cong [OF s0, of length] by (simp add: bl)
  have "unat (num_used slab1) = card held \<and> held \<subseteq> blocks \<and> (\<forall>b \<in> blocks. slab_ptr_is_good slab1 b) \<and>
      (case k_mem_slab_alloc a timeout slab1 ks1 of
         (Done (v, b), _) \<Rightarrow> if v = ret_ok then b \<in> blocks - held else v = Inl ENOMEM \<and> held = blocks
       | (Blocked, _) \<Rightarrow> held = blocks) \<and>
      (\<forall>b \<in> held. \<forall>t ts. waitqs ks1 (ObjQ a) = t # ts \<longrightarrow>
        (case k_mem_slab_free a b slab1 ks1 of
           (slab2, ks2) \<Rightarrow> slab2 = slab1 \<and> waitqs ks2 = (waitqs ks1)(ObjQ a := ts) \<and> woken_up ret_ok t ks2 \<and>
             k_mem_slab_alloc_resume t ks2 = (ret_ok, Some b)))"
    if i: "interleaved d {ObjQ a} (slab_calls a) ((slab0, {}), ks0) ((slab1, held), ks1)" for slab1 held ks1
  proof -
    have ok: "object_ok d (slab_inv a) ((slab1, held), ks1)" using slab.interleaved_ok [OF i init(2)] .
    then obtain fs where fs: "slab_state a slab1 held ks1 fs" by (auto simp: slab_inv_def)
    have b1: "blocks = set (slab_blocks slab1)" using interleaved_blocks [OF i] bl by simp
    have un: "set fs \<union> held = blocks" "set fs \<inter> held = {}" using fs by (auto simp: slab_state_def b1)
    have al: "b \<in> set fs" if "k_mem_slab_alloc a timeout slab1 ks1 = (Done (ret_ok, b), slab', ks')" for b slab' ks'
      using slab_alloc_ok(1) [OF fs that] .
    have "case k_mem_slab_alloc a timeout slab1 ks1 of
         (Done (v, b), _) \<Rightarrow> if v = ret_ok then b \<in> blocks - held else v = Inl ENOMEM \<and> held = blocks
       | (Blocked, _) \<Rightarrow> held = blocks"
      using al un slab_state_card(3) [OF fs] by (auto simp: k_mem_slab_alloc_def Let_def)
    moreover have "case k_mem_slab_free a b slab1 ks1 of
        (slab2, ks2) \<Rightarrow> slab2 = slab1 \<and> waitqs ks2 = (waitqs ks1)(ObjQ a := ts) \<and> woken_up ret_ok t ks2 \<and>
          k_mem_slab_alloc_resume t ks2 = (ret_ok, Some b)" if "waitqs ks1 (ObjQ a) = t # ts" for b t ts
      using slab_free_wakes [OF fs _ _ that] ok by auto
    moreover have "\<forall>b \<in> blocks. slab_ptr_is_good slab1 b"
      using fs slab_blocks_good(1) [of slab1] by (simp add: b1 slab_state_def)
    ultimately show ?thesis using fs un by (auto simp: slab_state_def)
  qed
  then show ?thesis using init(1) card by blast
qed

theorem slab_never_double_allocates_witness:
  "\<exists>slab0 ks0. k_mem_slab_init 100 0x1000 32 4 \<lparr>slab_buffer = 0, free_list = 0, num_blocks = 0, block_size = 0, num_used = 9, max_used = 9\<rparr>
     two_threads = Some (ret_ok, slab0, ks0) \<and> unat (num_used slab0) = 0"
proof -
  let ?s = "\<lparr>slab_buffer = 0, free_list = 0, num_blocks = 0, block_size = 0, num_used = 9, max_used = 9\<rparr>"
  have q: "waitqs two_threads (ObjQ 100) = []" by code_simp
  have "system_ok 1 two_threads" using two_threads_ok by (simp add: system_ok_def)
  then obtain slab0 ks0 where "k_mem_slab_init 100 0x1000 32 4 ?s two_threads = Some (ret_ok, slab0, ks0)"
      "interleaved 1 {ObjQ 100} (slab_calls 100) ((slab0, {}), ks0) ((slab0, {}), ks0) \<Longrightarrow> unat (num_used slab0) = card ({} :: u32 set)"
    using slab_never_double_allocates [of 1 two_threads 100 32 "0x1000" 4 _ ?s 0, OF _ q _ _ _ _ refl] by (simp del: One_nat_def card.empty) blast
  then show ?thesis using interleaved.start by (metis card.empty)
qed

end
