(* ===== verification/Timer.thy ===== *)
theory Timer
  imports Kernel_Object
begin

text \<open>
  Kernel timers (\<^verbatim>\<open>kernel/timer.c\<close>).  The kernel state is extended by the timers; their timeouts are in the timeout
  queue as \<open>TimerTO a\<close>, and threads wait in \<open>ObjQ a\<close>.  The expiry handler satisfies the contract of \<^verbatim>\<open>Timeout\<close>, so
  that announcing ticks returns also with timers armed.  A periodic timer expires at exact multiples of its period
  however many ticks are announced at once, provided the clock does not run ahead during the announcement.
\<close>

subsection \<open>The operations\<close>

text \<open>Callback functions are numbered; \<open>0\<close> is \<^verbatim>\<open>NULL\<close>.  What a callback does is the parameter \<open>call\<close>.\<close>

record k_timer =
  expiry_fn :: nat
  stop_fn :: nat
  period :: k_timeout
  status :: u32
  user_data :: addr

record timer_kernel = kernel +
  timers :: "addr \<Rightarrow> k_timer"

definition upd_timer :: "addr \<Rightarrow> (k_timer \<Rightarrow> k_timer) \<Rightarrow> 'b timer_kernel_scheme \<Rightarrow> 'b timer_kernel_scheme" where
  "upd_timer a f ks = ks\<lparr>timers := (timers ks)(a := f (timers ks a))\<rparr>"

definition z_timer_expiration_handler ::
    "(nat \<Rightarrow> addr \<Rightarrow> 'b timer_kernel_scheme \<Rightarrow> 'b timer_kernel_scheme) \<Rightarrow> addr \<Rightarrow> 'b timer_kernel_scheme \<Rightarrow> 'b timer_kernel_scheme" where
  "z_timer_expiration_handler call a ks =
     (if is_linked ks (TimerTO a) then ks
      else
        (let ks = (if period (timers ks a) \<noteq> K_NO_WAIT \<and> period (timers ks a) \<noteq> K_FOREVER
                   then (let next = max (period (timers ks a) - 1) 0;
                             next = K_TIMEOUT_ABS_TICKS (sys_clock_tick_get ks + 1 + next)
                         in z_add_timeout (TimerTO a) next ks)
                   else ks);
             ks = upd_timer a (\<lambda>timer. timer\<lparr>status := status timer + 1\<rparr>) ks;
             ks = (if expiry_fn (timers ks a) \<noteq> NULL then call (expiry_fn (timers ks a)) a ks else ks)
         in case z_waitq_head ks (ObjQ a) of
              None \<Rightarrow> ks
            | Some thread \<Rightarrow>
                (let ks = z_unpend_thread_no_timeout thread ks;
                     ks = arch_thread_return_value_set thread ret_ok ks
                 in z_ready_thread thread ks)))"

text \<open>Initialisation is for a timer that is not armed.\<close>

definition k_timer_init :: "addr \<Rightarrow> nat \<Rightarrow> nat \<Rightarrow> 'b timer_kernel_scheme \<Rightarrow> 'b timer_kernel_scheme" where
  "k_timer_init a expiry stop ks =
     (let ks = upd_timer a (\<lambda>timer. timer\<lparr>expiry_fn := expiry, stop_fn := stop, status := 0\<rparr>) ks;
          ks = z_waitq_init (ObjQ a) ks
      in upd_timer a (\<lambda>timer. timer\<lparr>user_data := NULL\<rparr>) ks)"

definition k_timer_start :: "addr \<Rightarrow> k_timeout \<Rightarrow> k_timeout \<Rightarrow> 'b timer_kernel_scheme \<Rightarrow> 'b timer_kernel_scheme" where
  "k_timer_start a duration per ks =
     (if duration = K_FOREVER then ks
      else
        (let duration = (if Z_TICK_ABS duration < 0 then max (duration - 1) 0 else duration);
             ks = snd (z_abort_timeout (TimerTO a) ks);
             ks = upd_timer a (\<lambda>timer. timer\<lparr>period := per, status := 0\<rparr>) ks
         in z_add_timeout (TimerTO a) duration ks))"

definition k_timer_stop ::
    "(nat \<Rightarrow> addr \<Rightarrow> 'b timer_kernel_scheme \<Rightarrow> 'b timer_kernel_scheme) \<Rightarrow> addr \<Rightarrow> 'b timer_kernel_scheme \<Rightarrow> 'b timer_kernel_scheme" where
  "k_timer_stop call a ks =
     (case z_abort_timeout (TimerTO a) ks of
        (r, ks) \<Rightarrow>
          if r \<noteq> ret_ok then ks
          else
            (let ks = (if stop_fn (timers ks a) \<noteq> NULL then call (stop_fn (timers ks a)) a ks else ks)
             in case z_unpend1_no_timeout (ObjQ a) ks of
                  (None, ks) \<Rightarrow> ks
                | (Some pending_thread, ks) \<Rightarrow> z_reschedule_unlocked (z_ready_thread pending_thread ks)))"

definition k_timer_status_get :: "addr \<Rightarrow> 'b timer_kernel_scheme \<Rightarrow> u32 \<times> 'b timer_kernel_scheme" where
  "k_timer_status_get a ks =
     (let result = status (timers ks a) in (result, upd_timer a (\<lambda>timer. timer\<lparr>status := 0\<rparr>) ks))"

definition k_timer_status_sync :: "addr \<Rightarrow> 'b timer_kernel_scheme \<Rightarrow> u32 outcome \<times> 'b timer_kernel_scheme" where
  "k_timer_status_sync a ks =
     (let result = status (timers ks a)
      in if result = 0 \<and> is_linked ks (TimerTO a) then (Blocked, z_pend_curr (Some (ObjQ a)) K_FOREVER ks)
         else (Done result, upd_timer a (\<lambda>timer. timer\<lparr>status := 0\<rparr>) ks))"

text \<open>The rest of the call, when the thread runs again.\<close>

definition k_timer_status_sync_resume :: "addr \<Rightarrow> 'b timer_kernel_scheme \<Rightarrow> u32 \<times> 'b timer_kernel_scheme" where
  "k_timer_status_sync_resume a ks =
     (let result = status (timers ks a) in (result, upd_timer a (\<lambda>timer. timer\<lparr>status := 0\<rparr>) ks))"

definition k_timer_expires_ticks :: "addr \<Rightarrow> 'b timer_kernel_scheme \<Rightarrow> int" where
  "k_timer_expires_ticks a ks = z_timeout_expires (TimerTO a) ks"

definition k_timer_remaining_ticks :: "addr \<Rightarrow> 'b timer_kernel_scheme \<Rightarrow> int" where
  "k_timer_remaining_ticks a ks = z_timeout_remaining (TimerTO a) ks"

definition k_timer_user_data_set :: "addr \<Rightarrow> addr \<Rightarrow> 'b timer_kernel_scheme \<Rightarrow> 'b timer_kernel_scheme" where
  "k_timer_user_data_set a data = upd_timer a (\<lambda>timer. timer\<lparr>user_data := data\<rparr>)"

definition k_timer_user_data_get :: "addr \<Rightarrow> 'b timer_kernel_scheme \<Rightarrow> addr" where
  "k_timer_user_data_get a ks = user_data (timers ks a)"

text \<open>The function each timeout is armed with.\<close>

definition timer_expiry ::
    "(nat \<Rightarrow> addr \<Rightarrow> 'b timer_kernel_scheme \<Rightarrow> 'b timer_kernel_scheme) \<Rightarrow> toid \<Rightarrow> 'b timer_kernel_scheme \<Rightarrow> 'b timer_kernel_scheme" where
  "timer_expiry call to ks = (case to of TimerTO a \<Rightarrow> z_timer_expiration_handler call a ks | _ \<Rightarrow> kernel_expiry to ks)"

subsection \<open>What an expiry may do to the timeouts\<close>

text \<open>Steps that arm timeouts only for later, and keep the timers in \<open>A\<close> and their timeouts.\<close>

definition spares :: "addr set \<Rightarrow> 'b timer_kernel_scheme \<Rightarrow> 'b timer_kernel_scheme \<Rightarrow> bool" where
  "spares A ks ks' \<longleftrightarrow> curr_tick ks' = curr_tick ks \<and> announce_remaining ks' = announce_remaining ks \<and>
     hw_elapsed ks' = hw_elapsed ks \<and> (\<forall>a \<in> A. timers ks' a = timers ks a) \<and>
     (timeouts_ok ks \<longrightarrow> timeouts_ok ks' \<and> (\<forall>x \<in> set (expiries ks'). x \<in> set (expiries ks) \<or> curr_tick ks < snd x) \<and>
       (\<forall>a \<in> A. \<forall>e. (TimerTO a, e) \<in> set (expiries ks) \<longleftrightarrow> (TimerTO a, e) \<in> set (expiries ks')))"

lemma spares_trans:
  assumes "spares A ks ks'" and "spares A ks' ks''"
  shows "spares A ks ks''"
proof -
  have "x \<in> set (expiries ks) \<or> curr_tick ks < snd x" if "timeouts_ok ks" "x \<in> set (expiries ks'')" for x
  proof -
    have "x \<in> set (expiries ks') \<or> curr_tick ks' < snd x"
      using assms that unfolding spares_def by blast
    then show ?thesis
      using assms(1) that(1) unfolding spares_def by metis
  qed
  then show ?thesis
    using assms unfolding spares_def by auto
qed

lemma spares_mono: "spares A ks ks' \<Longrightarrow> B \<subseteq> A \<Longrightarrow> spares B ks ks'"
  unfolding spares_def by blast

lemma spares_same:
  "timeout_list ks' = timeout_list ks \<Longrightarrow> curr_tick ks' = curr_tick ks \<Longrightarrow> announce_remaining ks' = announce_remaining ks \<Longrightarrow>
   hw_elapsed ks' = hw_elapsed ks \<Longrightarrow> (\<And>a. a \<in> A \<Longrightarrow> timers ks' a = timers ks a) \<Longrightarrow> spares A ks ks'"
  by (simp add: spares_def timeouts_ok_def)

lemma spares_slice:
  assumes "slice_only ks ks'" and "hw_elapsed ks' = hw_elapsed ks" and "timers ks' = timers ks"
  shows "spares A ks ks'"
proof -
  have "(TimerTO a, e) \<in> set (expiries ks) \<longleftrightarrow> (TimerTO a, e) \<in> set (expiries ks')" if "timeouts_ok ks" for a e
  proof -
    have "filter (\<lambda>x. fst x \<noteq> SliceTO) (expiries ks') = filter (\<lambda>x. fst x \<noteq> SliceTO) (expiries ks)"
      using assms(1) that unfolding slice_only_def by blast
    then have "set (filter (\<lambda>x. fst x \<noteq> SliceTO) (expiries ks')) = set (filter (\<lambda>x. fst x \<noteq> SliceTO) (expiries ks))"
      by simp
    then show ?thesis by (auto simp: set_eq_iff)
  qed
  then show ?thesis
    using assms unfolding spares_def slice_only_def by (elim conjE) (intro conjI ballI allI impI; simp)
qed

lemma spares_add:
  assumes "\<not> is_linked ks (TimerTO a)"
  shows "spares (- {a}) ks (z_add_timeout (TimerTO a) w ks)"
proof (cases "w = K_FOREVER")
  case False
  have t: "timers (z_add_timeout (TimerTO a) w ks) = timers ks"
    by (simp add: z_add_timeout_def sys_clock_set_timeout_def Let_def)
  have "timeouts_ok (z_add_timeout (TimerTO a) w ks) \<and> 1 \<le> timeout_dticks w ks \<and>
      set (expiries (z_add_timeout (TimerTO a) w ks)) = insert (TimerTO a, curr_tick ks + timeout_dticks w ks) (set (expiries ks))"
    if "timeouts_ok ks"
    using that assms False timeout_dticks_pos [of ks w] expiries_add [OF that False, of "TimerTO a"] timeouts_ok_add [OF that, of w "TimerTO a"]
    by (auto simp: timeouts_ok_def)
  then show ?thesis
    using t by (auto simp del: timeout_list_add simp: spares_def)
qed (simp add: spares_def)

lemma timers_timeouts [simp]:
  "timers (z_add_timeout to w ks) = timers ks" "timers (snd (z_abort_timeout to ks)) = timers ks"
  by (simp_all add: z_add_timeout_def sys_clock_set_timeout_def z_abort_timeout_def Let_def)

lemma timers_fields [simp]:
  "timers (upd_thread t f ks) = timers ks"
  "timers (z_reset_time_slice t ks) = timers ks" "timers (update_cache b ks) = timers ks"
  "timers (ready_thread t ks) = timers ks" "timers (unpend_thread_no_timeout t ks) = timers ks"
  "timers (arch_thread_return_value_set t v ks) = timers ks" "timers (kernel_expiry to ks) = timers ks"
  by (simp_all add: upd_thread_def z_reset_time_slice_def update_cache_def ready_thread_def queue_thread_def runq_add_def
      set_state_bits_def clear_state_bits_def unpend_thread_no_timeout_def waitq_remove_def thread_mark_defs
      arch_thread_return_value_set_def kernel_expiry_def z_thread_timeout_def z_sched_wake_thread_def slice_timeout_def
      Let_def split: toid.split)

lemma hw_elapsed_fields [simp]:
  "hw_elapsed (z_reset_time_slice t ks) = hw_elapsed ks" "hw_elapsed (update_cache b ks) = hw_elapsed ks"
  "hw_elapsed (ready_thread t ks) = hw_elapsed ks" "hw_elapsed (unpend_thread_no_timeout t ks) = hw_elapsed ks"
  "hw_elapsed (arch_thread_return_value_set t v ks) = hw_elapsed ks" "hw_elapsed (kernel_expiry to ks) = hw_elapsed ks"
  by (simp_all add: upd_thread_def z_reset_time_slice_def update_cache_def ready_thread_def queue_thread_def runq_add_def
      set_state_bits_def clear_state_bits_def unpend_thread_no_timeout_def waitq_remove_def thread_mark_defs
      arch_thread_return_value_set_def kernel_expiry_def z_thread_timeout_def z_sched_wake_thread_def slice_timeout_def
      Let_def split: toid.split)

lemma spares_kernel_expiry: "timeouts_ok ks \<Longrightarrow> spares A ks (kernel_expiry to ks)"
  by (intro spares_slice slice_only_expiry) simp_all

lemma spares_ready: "timeouts_ok ks \<Longrightarrow> spares A ks (ready_thread t ks)"
  by (intro spares_slice slice_only_ready_thread) simp_all

text \<open>Readying the thread that waits for a timer.\<close>

lemma spares_wake:
  assumes "timeouts_ok ks"
  shows "spares A ks (z_ready_thread t (arch_thread_return_value_set t v (z_unpend_thread_no_timeout t ks)))"
proof -
  let ?k = "arch_thread_return_value_set t v (z_unpend_thread_no_timeout t ks)"
  have "timeout_list ?k = timeout_list ks \<and> curr_tick ?k = curr_tick ks \<and> announce_remaining ?k = announce_remaining ks \<and>
      hw_elapsed ?k = hw_elapsed ks \<and> timers ?k = timers ks"
    by (simp add: z_unpend_thread_no_timeout_def arch_thread_return_value_set_def)
      (simp add: unpend_thread_no_timeout_def waitq_remove_def thread_mark_defs clear_state_bits_def Let_def)
  then have "spares A ks ?k" "timeouts_ok ?k"
    using assms by (auto intro: spares_same simp: timeouts_ok_def)
  then show ?thesis
    unfolding z_ready_thread_def using spares_trans spares_ready by blast
qed

text \<open>A timer due on the last announced tick: what the rest of the loop does with it, and what it does before it is due.\<close>

definition kept_armed :: "addr \<Rightarrow> 'b timer_kernel_scheme \<Rightarrow> (toid \<times> int) list \<Rightarrow> 'b timer_kernel_scheme \<Rightarrow> (toid \<times> int) list \<Rightarrow> bool" where
  "kept_armed a ks log ks' log' \<longleftrightarrow> (\<forall>e. (TimerTO a, e) \<in> set (expiries ks) \<and> curr_tick ks + announce_remaining ks < e \<longrightarrow>
     (TimerTO a, e) \<in> set (expiries ks') \<and> (\<exists>more. log' = log @ more \<and> TimerTO a \<notin> fst ` set more))"

definition armed_late ::
    "addr \<Rightarrow> int \<Rightarrow> 'b timer_kernel_scheme \<Rightarrow> (toid \<times> int) list \<Rightarrow> 'b timer_kernel_scheme \<Rightarrow> (toid \<times> int) list \<Rightarrow> bool" where
  "armed_late a h ks log ks' log' \<longleftrightarrow> (\<forall>e. (TimerTO a, e) \<in> set (expiries ks) \<and> e = curr_tick ks + announce_remaining ks \<and>
     0 \<le> curr_tick ks \<and> hw_elapsed ks = h \<and> 0 < period (timers ks a) \<and>
     (announce_remaining ks = 0 \<longleftrightarrow> e \<in> snd ` set log) \<longrightarrow>
     (\<exists>more post. log' = log @ more @ (TimerTO a, e) # post \<and> TimerTO a \<notin> fst ` (set more \<union> set post) \<and>
       (TimerTO a, e + (if e \<in> snd ` set (log @ more) then h else 0) + period (timers ks a)) \<in> set (expiries ks')))"

subsection \<open>Callbacks\<close>

text \<open>What the expiry handler relies on of the callback: it keeps the queue in order, arms timeouts only for later, and
  leaves the timers alone.\<close>

locale timer_callback =
  fixes call :: "nat \<Rightarrow> addr \<Rightarrow> 'b timer_kernel_scheme \<Rightarrow> 'b timer_kernel_scheme"
  assumes call_spares: "timeouts_ok ks \<Longrightarrow> spares UNIV ks (call f a ks)"
begin

text \<open>The handler re-arms a periodic timer and counts; other timers are spared.\<close>

lemma handler_effect:
  assumes "timeouts_ok ks" and "\<not> is_linked ks (TimerTO a)"
  defines "p \<equiv> period (timers ks a)"
  defines "ks1 \<equiv> (if p \<noteq> K_NO_WAIT \<and> p \<noteq> K_FOREVER
      then z_add_timeout (TimerTO a) (K_TIMEOUT_ABS_TICKS (sys_clock_tick_get ks + 1 + max (p - 1) 0)) ks else ks)"
  defines "ks2 \<equiv> upd_timer a (\<lambda>timer. timer\<lparr>status := status timer + 1\<rparr>) ks1"
  shows "spares UNIV ks2 (z_timer_expiration_handler call a ks)" and "timeouts_ok ks2" and "spares (- {a}) ks ks2"
proof -
  have "timeouts_ok ks1"
    using assms(1,2) by (simp add: ks1_def timeouts_ok_add)
  then show 2: "timeouts_ok ks2"
    by (simp add: ks2_def upd_timer_def timeouts_ok_def)
  define ks3 where "ks3 = (if expiry_fn (timers ks2 a) \<noteq> NULL then call (expiry_fn (timers ks2 a)) a ks2 else ks2)"
  have refl: "spares UNIV ks2 ks2" by (rule spares_same) simp_all
  have 3: "spares UNIV ks2 ks3"
    unfolding ks3_def using call_spares [OF 2] refl by auto
  then have "timeouts_ok ks3" using 2 by (simp add: spares_def)
  then have "spares UNIV ks3 (z_timer_expiration_handler call a ks)"
    using assms(2) spares_wake [of ks3 UNIV] spares_same [of ks3 ks3 UNIV]
    unfolding z_timer_expiration_handler_def Let_def p_def [symmetric] ks1_def [symmetric] ks2_def [symmetric] ks3_def [symmetric]
    by (auto split: option.split)
  then show "spares UNIV ks2 (z_timer_expiration_handler call a ks)"
    using 3 spares_trans by blast
  show "spares (- {a}) ks ks2"
  proof (rule spares_trans)
    show "spares (- {a}) ks ks1"
      using spares_add [OF assms(2)] spares_same [of ks ks "- {a}"] by (simp add: ks1_def)
    show "spares (- {a}) ks1 ks2"
      by (rule spares_same) (simp_all add: ks2_def upd_timer_def)
  qed
qed

lemma timer_expiry_spares:
  assumes "timeouts_ok ks"
  shows "spares {b. to \<noteq> TimerTO b} ks (timer_expiry call to ks)"
proof (cases to)
  case (TimerTO a)
  show ?thesis
  proof (cases "is_linked ks (TimerTO a)")
    case True
    then show ?thesis by (simp add: timer_expiry_def TimerTO z_timer_expiration_handler_def spares_same)
  next
    case False
    have "{b. to \<noteq> TimerTO b} = - {a}" using TimerTO by auto
    then show ?thesis
      using handler_effect [OF assms False] spares_mono [of UNIV _ _ "- {a}"] spares_trans
      by (simp add: timer_expiry_def TimerTO) blast
  qed
qed (use spares_kernel_expiry [OF assms] in \<open>simp_all add: timer_expiry_def\<close>)

text \<open>A periodic timer is armed again one period after the time that the clock shows at its expiry.\<close>

lemma rearmed:
  assumes "timeouts_ok ks" and "\<not> is_linked ks (TimerTO a)" and "0 \<le> hw_elapsed ks" and "0 \<le> curr_tick ks"
    and "0 < period (timers ks a)"
  defines "ks' \<equiv> z_timer_expiration_handler call a ks"
  shows "(TimerTO a, curr_tick ks + elapsed ks + period (timers ks a)) \<in> set (expiries ks')"
    and "timers ks' a = (timers ks a)\<lparr>status := status (timers ks a) + 1\<rparr>"
proof -
  let ?p = "period (timers ks a)"
  let ?w = "K_TIMEOUT_ABS_TICKS (sys_clock_tick_get ks + 1 + max (?p - 1) 0)"
  let ?u = "upd_timer a (\<lambda>timer. timer\<lparr>status := status timer + 1\<rparr>)"
  have w: "?w \<noteq> K_FOREVER" "timeout_dticks ?w ks = elapsed ks + ?p"
    using assms(3-5) by (simp_all add: K_TIMEOUT_ABS_TICKS_def Z_TICK_ABS_def timeout_dticks_def sys_clock_tick_get_def elapsed_def)
  note h = handler_effect [OF assms(1,2)]
  have p: "?p \<noteq> 0 \<and> ?p \<noteq> - 1" using assms(5) by simp
  have k2: "spares UNIV (?u (z_add_timeout (TimerTO a) ?w ks)) ks'" "timeouts_ok (?u (z_add_timeout (TimerTO a) ?w ks))"
    using h(1,2) p by (simp_all add: ks'_def)
  have "(TimerTO a, curr_tick ks + elapsed ks + ?p) \<in> set (expiries (z_add_timeout (TimerTO a) ?w ks))"
    using expiries_add [OF assms(1) w(1), of "TimerTO a"] w(2) by (simp add: add.assoc)
  then have "(TimerTO a, curr_tick ks + elapsed ks + ?p) \<in> set (expiries (?u (z_add_timeout (TimerTO a) ?w ks)))"
    by (simp add: upd_timer_def)
  then show "(TimerTO a, curr_tick ks + elapsed ks + ?p) \<in> set (expiries ks')"
    using k2 unfolding spares_def by blast
  show "timers ks' a = (timers ks a)\<lparr>status := status (timers ks a) + 1\<rparr>"
    using k2(1) by (simp add: spares_def upd_timer_def)
qed

end

sublocale timer_callback \<subseteq> expiry: timeout_handler "timer_expiry call"
proof
  fix t and ks :: "'b timer_kernel_scheme" and x
  assume ok: "timeouts_ok ks"
  note s = timer_expiry_spares [OF ok, of t]
  show "timeouts_ok (timer_expiry call t ks)" "curr_tick (timer_expiry call t ks) = curr_tick ks"
    "announce_remaining (timer_expiry call t ks) = announce_remaining ks"
    using s ok by (simp_all add: spares_def)
  show "x \<in> set (expiries ks) \<or> curr_tick ks < snd x" if "x \<in> set (expiries (timer_expiry call t ks))"
    using s ok that unfolding spares_def by blast
qed

context timer_callback
begin

lemma timer_handler: "timeout_handler (timer_expiry call)"
  by (rule expiry.timeout_handler_axioms)

lemma distinct_timeouts: "timeouts_ok ks \<Longrightarrow> (t, e) \<in> set (expiries ks) \<Longrightarrow> (t, f) \<in> set (expiries ks) \<Longrightarrow> e = f"
  using map_fst_deadlines [of "curr_tick ks" "timeout_list ks"] eq_key_imp_eq_value [of "expiries ks" t e f]
  by (simp add: timeouts_ok_def wf_timeouts_def)

lemma distinct_fst_expiries: "timeouts_ok ks \<Longrightarrow> distinct (map fst (expiries ks))"
  by (simp add: timeouts_ok_def wf_timeouts_def)

text \<open>The expiries of a periodic timer during an announcement.\<close>

lemma periodic_loop:
  assumes "timeouts_ok ks" and "0 \<le> announce_remaining ks" and "(TimerTO a, e) \<in> set (expiries ks)" and "hw_elapsed ks = 0"
    and "0 \<le> curr_tick ks" and "period (timers ks a) = p" and "0 < p"
  shows "\<exists>ks' log' n. announce_loop (timer_expiry call) ks log = Some (ks', log') \<and>
    filter (\<lambda>x. fst x = TimerTO a) log' = filter (\<lambda>x. fst x = TimerTO a) log @ map (\<lambda>i. (TimerTO a, e + int i * p)) [0..<n] \<and>
    (TimerTO a, e + int n * p) \<in> set (expiries ks') \<and> curr_tick ks + announce_remaining ks < e + int n * p \<and>
    (0 < n \<longrightarrow> e + (int n - 1) * p \<le> curr_tick ks + announce_remaining ks) \<and>
    status (timers ks' a) = status (timers ks a) + of_nat n"
proof -
  define Q where "Q ks log ks' log' \<longleftrightarrow> (\<forall>e. (TimerTO a, e) \<in> set (expiries ks) \<longrightarrow> hw_elapsed ks = 0 \<longrightarrow>
    0 \<le> curr_tick ks \<longrightarrow> period (timers ks a) = p \<longrightarrow>
    (\<exists>n. filter (\<lambda>x. fst x = TimerTO a) log' = filter (\<lambda>x. fst x = TimerTO a) log @ map (\<lambda>i. (TimerTO a, e + int i * p)) [0..<n] \<and>
      (TimerTO a, e + int n * p) \<in> set (expiries ks') \<and> curr_tick ks + announce_remaining ks < e + int n * p \<and>
      (0 < n \<longrightarrow> e + (int n - 1) * p \<le> curr_tick ks + announce_remaining ks) \<and>
      status (timers ks' a) = status (timers ks a) + of_nat n))"
    for ks ks' :: "'b timer_kernel_scheme" and log log' :: "(toid \<times> int) list"
  have "\<exists>ks' log'. announce_loop (timer_expiry call) ks log = Some (ks', log') \<and> Q ks log ks' log'"
  proof (rule expiry.announce_loop_induct [OF assms(1,2)])
    fix ks :: "'b timer_kernel_scheme" and log :: "(toid \<times> int) list"
    assume "\<forall>x \<in> set (expiries ks). curr_tick ks + announce_remaining ks < snd x"
    then show "Q ks log ks log"
      unfolding Q_def by (auto intro!: exI [of _ "0 :: nat"])
  next
    fix ks :: "'b timer_kernel_scheme" and log t d r ks1 ks' log'
    assume ok: "timeouts_ok ks" and l: "timeout_list ks = (t, d) # r" and le: "d \<le> announce_remaining ks"
      and ks1: "ks1 = (timer_expiry call t (expire_first t d ks))\<lparr>announce_remaining :=
          announce_remaining (timer_expiry call t (expire_first t d ks)) - d\<rparr>"
        "curr_tick ks1 = curr_tick ks + d" "announce_remaining ks1 = announce_remaining ks - d"
      and Q: "Q ks1 (log @ [(t, curr_tick ks + d)]) ks' log'"
    let ?k = "expire_first t d ks"
    note x = expire_first [OF ok l]
    have k: "hw_elapsed ?k = hw_elapsed ks" "timers ?k = timers ks" by (simp_all add: expire_first_def)
    note sp = timer_expiry_spares [OF x(1), of t]
    have f: "expiries ks1 = expiries (timer_expiry call t ?k)" "timers ks1 = timers (timer_expiry call t ?k)" "hw_elapsed ks1 = hw_elapsed ks"
      using sp k(1) by (simp_all add: ks1(1) spares_def)
    show "Q ks log ks' log'"
      unfolding Q_def
    proof (intro allI impI)
      fix e assume e: "(TimerTO a, e) \<in> set (expiries ks)" "hw_elapsed ks = 0" "0 \<le> curr_tick ks" "period (timers ks a) = p"
      show "\<exists>n. filter (\<lambda>x. fst x = TimerTO a) log' = filter (\<lambda>x. fst x = TimerTO a) log @ map (\<lambda>i. (TimerTO a, e + int i * p)) [0..<n] \<and>
          (TimerTO a, e + int n * p) \<in> set (expiries ks') \<and> curr_tick ks + announce_remaining ks < e + int n * p \<and>
          (0 < n \<longrightarrow> e + (int n - 1) * p \<le> curr_tick ks + announce_remaining ks) \<and>
          status (timers ks' a) = status (timers ks a) + of_nat n"
      proof (cases "t = TimerTO a")
        case True
        have here: "e = curr_tick ks + d"
          using distinct_timeouts [OF ok e(1)] x(5) True by simp
        have "t \<notin> set (map fst (expiries ?k))"
          using distinct_fst_expiries [OF ok] unfolding x(5) by simp
        then have nl: "\<not> is_linked ?k (TimerTO a)" unfolding map_fst_deadlines by (simp add: is_linked_def True)
        note re = rearmed [OF x(1) nl]
        have p: "period (timers ?k a) = p" "0 \<le> curr_tick ?k" "hw_elapsed ?k = 0" "elapsed ?k = 0"
          using e k x(2,3) by (simp_all add: elapsed_def)
        have "(TimerTO a, e + p) \<in> set (expiries ks1)" "timers ks1 a = (timers ks a)\<lparr>status := status (timers ks a) + 1\<rparr>"
          using re p assms(7) k(2) x(3) unfolding f by (simp_all add: timer_expiry_def True here)
        then obtain n where n: "filter (\<lambda>x. fst x = TimerTO a) log' =
            filter (\<lambda>x. fst x = TimerTO a) (log @ [(t, curr_tick ks + d)]) @ map (\<lambda>i. (TimerTO a, e + p + int i * p)) [0..<n]"
            "(TimerTO a, e + p + int n * p) \<in> set (expiries ks')" "curr_tick ks + announce_remaining ks < e + p + int n * p"
            "0 < n \<longrightarrow> e + p + (int n - 1) * p \<le> curr_tick ks + announce_remaining ks"
            "status (timers ks' a) = status (timers ks a) + 1 + of_nat n"
          using Q e(2-4) f(3) ks1(2,3) x(2) unfolding Q_def by force
        have "map (\<lambda>i. (TimerTO a, e + int i * p)) [0..<Suc n] = (TimerTO a, e) # map (\<lambda>i. (TimerTO a, e + p + int i * p)) [0..<n]"
          by (simp add: upt_conv_Cons map_Suc_upt [symmetric] algebra_simps del: upt_Suc)
        then show ?thesis
          using n here True le by (intro exI [of _ "Suc n"]) (auto simp: algebra_simps del: upt_Suc)
      next
        case False
        then have "(TimerTO a, e) \<in> set (expiries ks1)" "timers ks1 a = timers ks a"
          using e(1) x(1,5) sp k(2) unfolding f by (auto simp: spares_def)
        then show ?thesis
          using Q e(2-4) f(3) ks1(2,3) x(2) False unfolding Q_def by force
      qed
    qed
  qed
  then show ?thesis
    using assms(3-6) unfolding Q_def by blast
qed

text \<open>One pass of the loop, for a timer other than the one that expires and for that one.\<close>

lemma pass_timers:
  assumes ok: "timeouts_ok ks" and l: "timeout_list ks = (t, d) # r"
    and ks1: "ks1 = (timer_expiry call t (expire_first t d ks))\<lparr>announce_remaining :=
          announce_remaining (timer_expiry call t (expire_first t d ks)) - d\<rparr>"
    and e: "(TimerTO a, e) \<in> set (expiries ks)"
  shows "hw_elapsed ks1 = hw_elapsed ks"
    and "t \<noteq> TimerTO a \<Longrightarrow> (TimerTO a, e) \<in> set (expiries ks1) \<and> timers ks1 a = timers ks a"
    and "t = TimerTO a \<Longrightarrow> e = curr_tick ks + d"
    and "t = TimerTO a \<Longrightarrow> 0 \<le> curr_tick ks \<Longrightarrow> 0 \<le> hw_elapsed ks \<Longrightarrow> 0 < period (timers ks a) \<Longrightarrow>
      (TimerTO a, e + elapsed ks + period (timers ks a)) \<in> set (expiries ks1)"
proof -
  let ?k = "expire_first t d ks"
  note x = expire_first [OF ok l]
  note sp = timer_expiry_spares [OF x(1), of t]
  have k: "hw_elapsed ?k = hw_elapsed ks" "timers ?k = timers ks" "elapsed ?k = elapsed ks"
    by (simp_all add: expire_first_def elapsed_def)
  have f: "expiries ks1 = expiries (timer_expiry call t ?k)" "timers ks1 = timers (timer_expiry call t ?k)"
    by (simp_all add: ks1)
  show "hw_elapsed ks1 = hw_elapsed ks"
    using sp k(1) by (simp add: ks1 spares_def)
  show "(TimerTO a, e) \<in> set (expiries ks1) \<and> timers ks1 a = timers ks a" if "t \<noteq> TimerTO a"
    using that e x(1,5) sp k(2) unfolding f by (auto simp: spares_def)
  show here: "e = curr_tick ks + d" if "t = TimerTO a"
    using distinct_timeouts [OF ok e] x(5) that by simp
  show "(TimerTO a, e + elapsed ks + period (timers ks a)) \<in> set (expiries ks1)"
    if "t = TimerTO a" "0 \<le> curr_tick ks" "0 \<le> hw_elapsed ks" "0 < period (timers ks a)"
  proof -
    have "t \<notin> set (map fst (expiries ?k))"
      using distinct_fst_expiries [OF ok] unfolding x(5) by simp
    then have "\<not> is_linked ?k (TimerTO a)" unfolding map_fst_deadlines by (simp add: is_linked_def that(1))
    then show ?thesis
      using rearmed(1) [OF x(1)] that k x(2,3) here unfolding f by (simp add: timer_expiry_def)
  qed
qed

lemma kept_armed_pass:
  assumes "timeouts_ok ks" and "timeout_list ks = (t, d) # r" and "d \<le> announce_remaining ks"
    and "ks1 = (timer_expiry call t (expire_first t d ks))\<lparr>announce_remaining :=
          announce_remaining (timer_expiry call t (expire_first t d ks)) - d\<rparr>"
    and ks1: "curr_tick ks1 = curr_tick ks + d" "announce_remaining ks1 = announce_remaining ks - d"
    and kept: "kept_armed a ks1 (log @ [(t, curr_tick ks + d)]) ks' log'"
  shows "kept_armed a ks log ks' log'"
  unfolding kept_armed_def
proof (intro allI impI)
  fix e assume e: "(TimerTO a, e) \<in> set (expiries ks) \<and> curr_tick ks + announce_remaining ks < e"
  note p = pass_timers [OF assms(1,2,4) conjunct1 [OF e]]
  have "t \<noteq> TimerTO a" using p(3) assms(3) e by auto
  then show "(TimerTO a, e) \<in> set (expiries ks') \<and> (\<exists>more. log' = log @ more \<and> TimerTO a \<notin> fst ` set more)"
    using kept e p(2) ks1 unfolding kept_armed_def by fastforce
qed

lemma armed_late_pass:
  assumes "timeouts_ok ks" and "timeout_list ks = (t, d) # r" and le: "d \<le> announce_remaining ks" and h: "0 \<le> h"
    and "ks1 = (timer_expiry call t (expire_first t d ks))\<lparr>announce_remaining :=
          announce_remaining (timer_expiry call t (expire_first t d ks)) - d\<rparr>"
    and ks1: "curr_tick ks1 = curr_tick ks + d" "announce_remaining ks1 = announce_remaining ks - d"
    and kept: "kept_armed a ks1 (log @ [(t, curr_tick ks + d)]) ks' log'"
    and late: "armed_late a h ks1 (log @ [(t, curr_tick ks + d)]) ks' log'"
  shows "armed_late a h ks log ks' log'"
  unfolding armed_late_def
proof (intro allI impI, elim conjE)
  fix e assume e: "(TimerTO a, e) \<in> set (expiries ks)" "e = curr_tick ks + announce_remaining ks" "0 \<le> curr_tick ks"
    "hw_elapsed ks = h" "0 < period (timers ks a)" "announce_remaining ks = 0 \<longleftrightarrow> e \<in> snd ` set log"
  note p = pass_timers [OF assms(1,2,5) e(1)] and x = expire_first(2) [OF assms(1,2)]
  show "\<exists>more post. log' = log @ more @ (TimerTO a, e) # post \<and> TimerTO a \<notin> fst ` (set more \<union> set post) \<and>
     (TimerTO a, e + (if e \<in> snd ` set (log @ more) then h else 0) + period (timers ks a)) \<in> set (expiries ks')"
  proof (cases "t = TimerTO a")
    case True
    have el: "elapsed ks = (if e \<in> snd ` set log then h else 0)"
      using e(4,6) by (simp add: elapsed_def)
    then have "e < e + elapsed ks + period (timers ks a)" using e(5) h by auto
    then obtain post where "(TimerTO a, e + elapsed ks + period (timers ks a)) \<in> set (expiries ks')"
        "log' = log @ [(t, e)] @ post" "TimerTO a \<notin> fst ` set post"
      using kept p(4) [OF True] p(3) [OF True] e h ks1 unfolding kept_armed_def by fastforce
    then show ?thesis
      using True el by (intro exI [of _ "[]"] exI [of _ post]) simp
  next
    case False
    have "(announce_remaining ks1 = 0) = (e \<in> snd ` set (log @ [(t, curr_tick ks + d)]))"
      using e(2,6) ks1(2) x le by auto
    then have "(TimerTO a, e) \<in> set (expiries ks1) \<and> e = curr_tick ks1 + announce_remaining ks1 \<and> 0 \<le> curr_tick ks1 \<and>
        hw_elapsed ks1 = h \<and> 0 < period (timers ks1 a) \<and>
        (announce_remaining ks1 = 0 \<longleftrightarrow> e \<in> snd ` set (log @ [(t, curr_tick ks + d)]))"
      using e(2-5) p(1) p(2) [OF False] ks1 x by simp
    then obtain more post where "log' = (log @ [(t, curr_tick ks + d)]) @ more @ (TimerTO a, e) # post"
        "TimerTO a \<notin> fst ` (set more \<union> set post)"
        "(TimerTO a, e + (if e \<in> snd ` set ((log @ [(t, curr_tick ks + d)]) @ more) then h else 0) + period (timers ks a)) \<in> set (expiries ks')"
      using late [unfolded armed_late_def, THEN spec, THEN mp, of e] conjunct2 [OF p(2) [OF False]] by metis
    then show ?thesis
      using False by (intro exI [of _ "(t, curr_tick ks + d) # more"] exI [of _ post]) auto
  qed
qed

lemma last_tick_loop:
  assumes "timeouts_ok ks" and "0 \<le> announce_remaining ks" and "0 \<le> h"
  shows "\<exists>ks' log'. announce_loop (timer_expiry call) ks log = Some (ks', log') \<and> armed_late a h ks log ks' log'"
proof -
  have "\<exists>ks' log'. announce_loop (timer_expiry call) ks log = Some (ks', log') \<and>
      (kept_armed a ks log ks' log' \<and> armed_late a h ks log ks' log')"
  proof (rule expiry.announce_loop_induct [OF assms(1,2)], goal_cases)
    case (1 ks log)
    have "\<not> e \<le> curr_tick ks + announce_remaining ks" if "(TimerTO a, e) \<in> set (expiries ks)" for e
      using bspec [OF 1(3) that] by simp
    then show ?case by (auto simp: kept_armed_def armed_late_def)
  next
    case (2 ks log t d r ks1 ks' log')
    then show ?case
      using kept_armed_pass [OF 2(1-4,6,7)] armed_late_pass [OF 2(1-3) assms(3) 2(4,6,7)] by blast
  qed
  then show ?thesis by blast
qed

end

subsection \<open>A callback that wakes a thread\<close>

lemma spares_abort_thread: "timeouts_ok ks \<Longrightarrow> spares UNIV ks (snd (z_abort_thread_timeout t ks))"
  by (auto simp: spares_def z_abort_thread_timeout_def timeouts_ok_abort) (auto simp: timeout_list_abort timeouts_ok_def wf_timeouts_def deadlines_remove)

lemma spares_reschedule:
  assumes "timeouts_ok ks"
  shows "spares UNIV ks (z_reschedule ks)"
proof -
  let ?r = "arch_thread_return_value_set (current ks) (Inl EAGAIN) ks"
  have f: "timeout_list ?r = timeout_list ks" "curr_tick ?r = curr_tick ks" "announce_remaining ?r = announce_remaining ks"
    by (simp_all add: arch_thread_return_value_set_def upd_thread_def)
  have s: "spares UNIV ks ks" "spares UNIV ks ?r" "spares UNIV ks (?r\<lparr>current := c\<rparr>)" for c
    by (rule spares_same; simp add: f)+
  have "timeouts_ok (?r\<lparr>current := c\<rparr>)" for c using assms f(1) by (simp add: timeouts_ok_def)
  then have "spares UNIV (?r\<lparr>current := c\<rparr>) (z_reset_time_slice t (?r\<lparr>current := c\<rparr>))" for c t
    by (intro spares_slice slice_only_reset) simp_all
  then have "spares UNIV ks (z_reset_time_slice t (?r\<lparr>current := c\<rparr>))" for c t
    using spares_trans [OF s(3)] by blast
  then show ?thesis
    using s(1,2) by (simp add: z_reschedule_def z_swap_def do_swap_def Let_def)
qed

definition wakeup_callback :: "nat \<Rightarrow> addr \<Rightarrow> 'b timer_kernel_scheme \<Rightarrow> 'b timer_kernel_scheme" where
  "wakeup_callback f a ks = k_wakeup f ks"

interpretation wakeup: timer_callback wakeup_callback
proof
  fix f a and ks :: "'b timer_kernel_scheme"
  assume ok: "timeouts_ok ks"
  obtain r k where a: "z_abort_thread_timeout f ks = (r, k)" by fastforce
  have k: "spares UNIV ks k" "timeouts_ok k"
    using spares_abort_thread [OF ok, of f] ok a by (simp_all add: spares_def)
  let ?m = "z_mark_thread_as_not_suspended f k"
  have m: "spares UNIV k ?m" "timeouts_ok ?m"
    using k(2) by (auto simp: thread_mark_defs clear_state_bits_def intro!: spares_same)
  have r: "spares UNIV ?m (ready_thread f ?m)" "timeouts_ok (ready_thread f ?m)"
    using spares_ready [OF m(2), of UNIV f] m(2) by (simp_all add: spares_def)
  have "spares UNIV ks (ready_thread f ?m)" "spares UNIV ks (z_reschedule (ready_thread f ?m))"
    using spares_trans [OF k(1) spares_trans [OF m(1) r(1)]] spares_trans spares_reschedule [OF r(2)] by blast+
  moreover have "spares UNIV ks ks" by (rule spares_same) simp_all
  ultimately show "spares UNIV ks (wakeup_callback f a ks)"
    using k(1) by (simp add: wakeup_callback_def k_wakeup_def a Let_def)
qed

subsection \<open>Properties\<close>

text \<open>C33: A periodic timer does not drift: however many ticks are announced at once, and whatever else expires meanwhile,
  announcing returns and the timer expires exactly at the multiples of its period after its first expiry that are due,
  counts each of them, and stays armed for the next multiple.  The callbacks keep to their contract, and the
  hardware clock does not advance during the announcement.\<close>

theorem periodic_timer_exact:
  assumes "timer_callback call" and "timeouts_ok ks" and "0 \<le> ticks" and "(TimerTO a, e) \<in> set (expiries ks)"
    and "hw_elapsed ks = 0" and "0 \<le> curr_tick ks" and "period (timers ks a) = p" and "0 < p"
  shows "\<exists>ks' fired n. sys_clock_announce (timer_expiry call) z_time_slice ticks ks = Some (z_time_slice ks', fired) \<and>
    curr_tick ks' = curr_tick ks + ticks \<and>
    filter (\<lambda>x. fst x = TimerTO a) fired = map (\<lambda>i. (TimerTO a, e + int i * p)) [0..<n] \<and>
    (\<forall>i. i < n \<longleftrightarrow> e + int i * p \<le> curr_tick ks + ticks) \<and>
    (TimerTO a, e + int n * p) \<in> set (expiries ks') \<and> status (timers ks' a) = status (timers ks a) + of_nat n"
proof -
  let ?ks = "ks\<lparr>announce_remaining := ticks\<rparr>"
  have ok: "timeouts_ok ?ks" using assms(2) by (simp add: timeouts_ok_def)
  obtain k fired n where k: "announce_loop (timer_expiry call) ?ks [] = Some (k, fired)"
      "filter (\<lambda>x. fst x = TimerTO a) fired = map (\<lambda>i. (TimerTO a, e + int i * p)) [0..<n]"
      "(TimerTO a, e + int n * p) \<in> set (expiries k)" "curr_tick ks + ticks < e + int n * p"
      "0 < n \<longrightarrow> e + (int n - 1) * p \<le> curr_tick ks + ticks" "status (timers k a) = status (timers ks a) + of_nat n"
    using timer_callback.periodic_loop [OF assms(1) ok, of a e p "[]"] assms(3-8) by auto
  have r: "timeouts_ok k" "curr_tick k + announce_remaining k = curr_tick ks + ticks"
    using timeout_handler.announce_loop_returns [OF timer_callback.timer_handler [OF assms(1)] ok, of "[]"] assms(3) k(1) by auto
  have "i < n \<longleftrightarrow> e + int i * p \<le> curr_tick ks + ticks" for i
  proof
    assume "i < n"
    then have "int i * p \<le> (int n - 1) * p" "0 < n" using assms(8) by (auto intro!: mult_right_mono)
    then show "e + int i * p \<le> curr_tick ks + ticks" using k(5) by auto
  next
    assume "e + int i * p \<le> curr_tick ks + ticks"
    then have "int i * p < int n * p" using k(4) by linarith
    then show "i < n" using assms(8) by simp
  qed
  moreover have "timers (announce_finish k) = timers k"
    by (simp add: announce_finish_def sys_clock_set_timeout_def Let_def split: list.split)
  ultimately show ?thesis
    using k r announce_finish(1,3) [OF r(1)]
    by (intro exI [of _ "announce_finish k"] exI [of _ fired] exI [of _ n]) (simp add: sys_clock_announce_def)
qed

text \<open>A kernel with one timer, or two timers of period 5, armed for tick 5.\<close>

definition timer_boot :: timer_kernel where
  "timer_boot = kernel.extend (bss_kernel 0 0) (timer_kernel.fields (\<lambda>_. \<lparr>expiry_fn = 0, stop_fn = 0, period = 0, status = 0, user_data = 0\<rparr>))"

definition one_timer :: timer_kernel where
  "one_timer = k_timer_start 100 5 5 timer_boot"

definition two_timers :: timer_kernel where
  "two_timers = (k_timer_start 200 5 5 one_timer)\<lparr>hw_elapsed := 1\<rparr>"

lemmas announce_loop_code [code] = announce_loop.simps

lemma one_timer_state:
  "timeout_list one_timer = [(TimerTO 100, 5)]" "curr_tick one_timer = 0" "hw_elapsed one_timer = 0" "period (timers one_timer 100) = 5"
  by code_simp+

theorem periodic_timer_exact_witness:
  "\<exists>ks' fired. sys_clock_announce (timer_expiry wakeup_callback) z_time_slice 12 one_timer = Some (z_time_slice ks', fired) \<and>
     filter (\<lambda>x. fst x = TimerTO 100) fired = [(TimerTO 100, 5), (TimerTO 100, 10)]"
proof -
  have "timeouts_ok one_timer" by (simp add: timeouts_ok_def one_timer_state)
  then obtain ks' fired n where k: "sys_clock_announce (timer_expiry wakeup_callback) z_time_slice 12 one_timer = Some (z_time_slice ks', fired)"
      "filter (\<lambda>x. fst x = TimerTO 100) fired = map (\<lambda>i. (TimerTO 100, 5 + int i * 5)) [0..<n]" "\<forall>i. i < n \<longleftrightarrow> 5 + int i * 5 \<le> 12"
    using periodic_timer_exact [OF wakeup.timer_callback_axioms, of one_timer 12 100 5 5] one_timer_state by auto
  have "n = 2" using k(3) [rule_format, of 1] k(3) [rule_format, of 2] by simp
  then have "[0..<n] = [0, 1]" by (simp add: upt_rec)
  then show ?thesis using k(1,2) by auto
qed

text \<open>C34: A periodic timer due on the last announced tick expires there once, and is armed again exactly one period later if
  no other timeout expired on that tick before it.  Otherwise it drifts: it is armed later by the ticks that the hardware
  clock has counted and not yet announced, since the announcement has no remaining ticks by then.  The callbacks
  keep to their contract.\<close>

theorem timer_on_last_tick:
  assumes "timer_callback call" and "timeouts_ok ks" and "0 < ticks" and "e = curr_tick ks + ticks"
    and "(TimerTO a, e) \<in> set (expiries ks)" and "0 \<le> hw_elapsed ks" and "0 \<le> curr_tick ks"
    and "period (timers ks a) = p" and "0 < p"
  shows "\<exists>ks' pre post. sys_clock_announce (timer_expiry call) z_time_slice ticks ks =
      Some (z_time_slice ks', pre @ (TimerTO a, e) # post) \<and>
    TimerTO a \<notin> fst ` (set pre \<union> set post) \<and> curr_tick ks' = e \<and>
    (TimerTO a, e + p + (if e \<in> snd ` set pre then hw_elapsed ks else 0)) \<in> set (expiries ks')"
proof -
  let ?ks = "ks\<lparr>announce_remaining := ticks\<rparr>"
  have ok: "timeouts_ok ?ks" "0 \<le> announce_remaining ?ks" using assms(2,3) by (simp_all add: timeouts_ok_def)
  obtain k log where k: "announce_loop (timer_expiry call) ?ks [] = Some (k, log)" "armed_late a (hw_elapsed ks) ?ks [] k log"
    using timer_callback.last_tick_loop [OF assms(1) ok assms(6)] by blast
  obtain pre post where l: "log = pre @ (TimerTO a, e) # post" "TimerTO a \<notin> fst ` (set pre \<union> set post)"
      "(TimerTO a, e + (if e \<in> snd ` set pre then hw_elapsed ks else 0) + p) \<in> set (expiries k)"
    using k(2) [unfolded armed_late_def, THEN spec, THEN mp, of e] assms(3-5,7-9) by auto
  have "timeouts_ok k" "curr_tick k + announce_remaining k = e"
    using timeout_handler.announce_loop_returns [OF timer_callback.timer_handler [OF assms(1)] ok, of "[]"] assms(4) k(1) by auto
  then show ?thesis
    using k(1) l announce_finish(1,3) [of k]
    by (intro exI [of _ "announce_finish k"] exI [of _ pre] exI [of _ post])
      (auto simp: sys_clock_announce_def add.assoc add.commute [of p])
qed

lemma two_timers_state:
  "curr_tick two_timers = 0" "hw_elapsed two_timers = 1" "period (timers two_timers 200) = 5"
  "timeout_list two_timers = [(TimerTO 100, 5), (TimerTO 200, 0)]"
  "map_option snd (sys_clock_announce (timer_expiry wakeup_callback) z_time_slice 5 two_timers) =
     Some [(TimerTO 100, 5), (TimerTO 200, 5)]"
  by code_simp+

theorem timer_on_last_tick_witness:
  "\<exists>ks'. sys_clock_announce (timer_expiry wakeup_callback) z_time_slice 5 two_timers =
     Some (z_time_slice ks', [(TimerTO 100, 5), (TimerTO 200, 5)]) \<and> (TimerTO 200, 11) \<in> set (expiries ks')"
proof -
  have "timeouts_ok two_timers" by (simp add: timeouts_ok_def two_timers_state)
  then have "\<exists>ks' pre post. sys_clock_announce (timer_expiry wakeup_callback) z_time_slice 5 two_timers =
        Some (z_time_slice ks', pre @ (TimerTO 200, 5) # post) \<and>
      TimerTO 200 \<notin> fst ` (set pre \<union> set post) \<and> curr_tick ks' = 5 \<and>
      (TimerTO 200, 5 + 5 + (if 5 \<in> snd ` set pre then hw_elapsed two_timers else 0)) \<in> set (expiries ks')"
    by (rule timer_on_last_tick [OF wakeup.timer_callback_axioms]) (simp_all add: two_timers_state)
  then obtain ks' pre post where k: "sys_clock_announce (timer_expiry wakeup_callback) z_time_slice 5 two_timers =
        Some (z_time_slice ks', pre @ (TimerTO 200, 5) # post)"
      "(TimerTO 200, 5 + 5 + (if 5 \<in> snd ` set pre then hw_elapsed two_timers else 0)) \<in> set (expiries ks')"
    by blast
  have e: "pre @ (TimerTO 200, 5) # post = [(TimerTO 100, 5), (TimerTO 200, 5)]"
    using two_timers_state(5) unfolding k(1) by simp
  then have "pre = [(TimerTO 100, 5)]" by (auto simp: append_eq_Cons_conv)
  then show ?thesis using k e two_timers_state(2) by auto
qed

end
