(* ===== verification/Futex.thy ===== *)
theory Futex
  imports Kernel_Object
begin

text \<open>
  Futexes (\<^verbatim>\<open>kernel/futex.c\<close>): a word a thread waits on as long as it has an expected value.  The comparison with the
  expected value comes before the lock is taken, so the model of the call has two steps.  The theory shows which threads
  a wake-up reaches, what it returns and what the woken threads return.
\<close>

subsection \<open>The operations\<close>

text \<open>
  \<^verbatim>\<open>k_object_find\<close> is generated code: a parameter that gives the type and the data of a kernel object.  The wait queue of the
  futex data at \<open>x\<close> is \<open>ObjQ x\<close>.
\<close>

datatype k_object_type = K_OBJ_FUTEX | K_OBJ_OTHER

record k_futex =
  val :: int

definition k_futex_find_data :: "(addr \<Rightarrow> (k_object_type \<times> addr) option) \<Rightarrow> addr \<Rightarrow> addr option" where
  "k_futex_find_data k_object_find futex =
     (case k_object_find futex of
        None \<Rightarrow> None
      | Some (otype, data) \<Rightarrow> if otype \<noteq> K_OBJ_FUTEX then None else Some data)"

partial_function (option) futex_wake_loop :: "addr \<Rightarrow> bool \<Rightarrow> u32 \<Rightarrow> 'a kernel_scheme \<Rightarrow> (u32 \<times> 'a kernel_scheme) option" where
  "futex_wake_loop x wake_all n ks =
     (case z_unpend_first_thread (ObjQ x) ks of
        (None, ks) \<Rightarrow> Some (n, ks)
      | (Some thread, ks) \<Rightarrow>
          (let n = n + 1;
               ks = arch_thread_return_value_set thread ret_ok ks;
               ks = z_ready_thread thread ks
           in if wake_all then futex_wake_loop x wake_all n ks else Some (n, ks)))"

definition k_futex_wake ::
    "(addr \<Rightarrow> (k_object_type \<times> addr) option) \<Rightarrow> addr \<Rightarrow> bool \<Rightarrow> 'a kernel_scheme \<Rightarrow> (retval \<times> 'a kernel_scheme) option" where
  "k_futex_wake k_object_find futex wake_all ks =
     (case k_futex_find_data k_object_find futex of
        None \<Rightarrow> Some (Inl EINVAL, ks)
      | Some x \<Rightarrow> map_option (\<lambda>(n, ks). (Inr (sint n), z_reschedule ks)) (futex_wake_loop x wake_all 0 ks))"

text \<open>Waiting: up to the lock, from the lock to the context switch, and after it.\<close>

definition k_futex_wait_check ::
    "(addr \<Rightarrow> (k_object_type \<times> addr) option) \<Rightarrow> addr \<Rightarrow> int \<Rightarrow> k_futex \<Rightarrow> errno + addr" where
  "k_futex_wait_check k_object_find futex expected f =
     (case k_futex_find_data k_object_find futex of
        None \<Rightarrow> Inl EINVAL
      | Some x \<Rightarrow> if val f \<noteq> expected then Inl EAGAIN else Inr x)"

definition k_futex_wait_pend :: "addr \<Rightarrow> k_timeout \<Rightarrow> 'a kernel_scheme \<Rightarrow> 'a kernel_scheme" where
  "k_futex_wait_pend x timeout ks = z_pend_curr (Some (ObjQ x)) timeout ks"

definition k_futex_wait_resume :: "tid \<Rightarrow> 'a kernel_scheme \<Rightarrow> retval" where
  "k_futex_wait_resume t ks =
     (let ret = swap_retval (threads ks t) in if ret = Inl EAGAIN then Inl ETIMEDOUT else ret)"

subsection \<open>Waking\<close>

lemma futex_wake_loop_unfold:
  "futex_wake_loop x wake_all n ks =
     (case waitqs ks (ObjQ x) of
        [] \<Rightarrow> Some (n, ks)
      | t # _ \<Rightarrow> if wake_all then futex_wake_loop x wake_all (n + 1) (wake_thread ret_ok t ks) else Some (n + 1, wake_thread ret_ok t ks))"
  by (subst futex_wake_loop.simps) (simp add: unpend_first_cases wake_thread_def split: list.split)

lemma futex_wake_loop_returns:
  "system_ok d ks \<Longrightarrow> waitqs ks (ObjQ x) = ts \<Longrightarrow>
   futex_wake_loop x wake_all n ks =
     (let us = (if wake_all then ts else take 1 ts) in Some (n + of_nat (length us), fold (wake_thread ret_ok) us ks))"
proof (induction ts arbitrary: ks n)
  case (Cons t ts)
  then show ?case
    using wake_first(1,2) [of d ks "ObjQ x" t ts ret_ok] Cons.IH [of "wake_thread ret_ok t ks" "n + 1"]
    by (cases wake_all) (simp_all add: futex_wake_loop_unfold [of x _ n ks] Let_def add.assoc)
qed (simp add: futex_wake_loop_unfold)

lemma sint_count: "n < 2 ^ 31 \<Longrightarrow> sint (of_nat n :: u32) = int n"
  by (simp add: signed_of_nat signed_take_bit_int_eq_self)

subsection \<open>Properties\<close>

text \<open>C37: Waking a futex wakes exactly as many threads as it says: all the waiting threads, or the first one if any, in the
  order of the wait queue; the others keep waiting in their order.  Each woken thread has no time-out left, is in the run
  queue unless something else stops it, and returns 0 from its own call.  An address that is not a futex object gives
  \<^verbatim>\<open>-EINVAL\<close> and changes nothing; a thread goes on to wait only if the word has the value it expects, and then it
  waits in the queue that the wake-up serves.\<close>

theorem futex_wake_correct:
  assumes "system_ok d ks" and "waitqs ks (ObjQ x) = ts" and "length ts < 2 ^ 31"
    and "k_object_find futex = Some (K_OBJ_FUTEX, x)" and "n = (if wake_all then length ts else min 1 (length ts))"
  shows "(\<exists>ks'. k_futex_wake k_object_find futex wake_all ks = Some (Inr (int n), ks') \<and> system_ok d ks' \<and>
      waitqs ks' = (waitqs ks)(ObjQ x := drop n ts) \<and>
      (\<forall>t \<in> set (take n ts). woken_up ret_ok t ks' \<and> k_futex_wait_resume t ks' = ret_ok)) \<and>
    k_futex_wait_check k_object_find futex expected f = (if val f = expected then Inr x else Inl EAGAIN) \<and>
    (may_block ks \<longrightarrow>
      waitqs (k_futex_wait_pend x timeout ks) = (waitqs ks)(ObjQ x := z_priq_dumb_add (threads ks) (current ks) ts)) \<and>
    (\<forall>other. (\<forall>y. k_object_find other \<noteq> Some (K_OBJ_FUTEX, y)) \<longrightarrow>
      k_futex_wake k_object_find other wake_all ks = Some (Inl EINVAL, ks) \<and>
      k_futex_wait_check k_object_find other expected f = Inl EINVAL)"
proof -
  let ?w = "fold (wake_thread ret_ok) (take n ts) ks"
  have q: "waitqs ks (ObjQ x) = take n ts @ drop n ts" using assms(2) by simp
  have u: "(if wake_all then ts else take 1 ts) = take n ts" "length (take n ts) = n"
    using assms(5) by (auto simp: min_def)
  have "futex_wake_loop x wake_all 0 ks = Some (of_nat n, ?w)"
    using futex_wake_loop_returns [OF assms(1,2), of wake_all 0] unfolding u(1) Let_def u(2) by simp
  moreover have "n < 2 ^ 31" using assms(3,5) by auto
  ultimately have "k_futex_wake k_object_find futex wake_all ks = Some (Inr (int n), z_reschedule ?w)"
    using assms(4) by (simp add: k_futex_wake_def k_futex_find_data_def sint_count)
  moreover have "waitqs (z_reschedule ?w) = (waitqs ks)(ObjQ x := drop n ts)" "system_ok d (z_reschedule ?w)"
    using wake_some_ok [OF assms(1) q, of ret_ok] by (simp_all add: system_ok_reschedule reschedule_fields)
  moreover have "woken_up ret_ok t (z_reschedule ?w) \<and> k_futex_wait_resume t (z_reschedule ?w) = ret_ok" if "t \<in> set (take n ts)" for t
    using wake_some_woken [OF assms(1) q that, of ret_ok] by (simp add: k_futex_wait_resume_def woken_up_def)
  moreover have "k_futex_find_data k_object_find other = None" if "\<forall>y. k_object_find other \<noteq> Some (K_OBJ_FUTEX, y)" for other
    using that by (auto simp: k_futex_find_data_def split: option.split k_object_type.split)
  ultimately show ?thesis
    using assms(2,4) pend_curr(2) [OF assms(1), of "ObjQ x" timeout]
    by (auto simp: k_futex_wait_check_def k_futex_wake_def k_futex_find_data_def k_futex_wait_pend_def)
qed

text \<open>The main thread waits on the futex at 64, whose data are at 100.\<close>

definition futex_waiting :: kernel where
  "futex_waiting = k_futex_wait_pend 100 K_FOREVER two_threads"

lemma futex_waiting_ok: "system_ok 1 futex_waiting" "waitqs futex_waiting (ObjQ 100) = [2]"
proof -
  show "system_ok 1 futex_waiting"
    using pend_curr(1) [of 1 two_threads] two_threads_ok two_threads_state
    by (simp add: futex_waiting_def k_futex_wait_pend_def system_ok_def may_block_def)
  show "waitqs futex_waiting (ObjQ 100) = [2]" by code_simp
qed

theorem futex_wake_correct_witness:
  "\<exists>ks'. k_futex_wake [64 \<mapsto> (K_OBJ_FUTEX, 100)] 64 True futex_waiting = Some (Inr 1, ks') \<and>
     waitqs ks' (ObjQ 100) = [] \<and> k_futex_wait_resume 2 ks' = ret_ok"
  using futex_wake_correct [of 1 futex_waiting 100 "[2]" "[64 \<mapsto> (K_OBJ_FUTEX, 100)]" 64 1 True 0 "\<lparr>val = 0\<rparr>" 0,
      OF futex_waiting_ok] by auto

end
