(* ===== verification/Ring_Buffer.thy ===== *)
theory Ring_Buffer
  imports Zprelude
begin

text \<open>
  Ring buffers (\<^verbatim>\<open>lib/utils/ring_buffer.c\<close>, \<^verbatim>\<open>include/zephyr/sys/ring_buffer.h\<close>).  The six indices are 32-bit words
  that only ever increase and wrap around (in the code \<^verbatim>\<open>int32_t\<close>, with arithmetic that is expected to wrap); the offset into the buffer is an index minus its base, which trails it by less
  than the size.  The theory shows that, also across the wrap-around of the indices, a ring buffer is a bounded sequence of
  bytes, that claimed regions lie in the buffer, and that items come out as they were put in.
\<close>

subsection \<open>The operations\<close>

record ring_buf =
  rb_buffer :: "u8 list"
  put_head :: u32
  put_tail :: u32
  put_base :: u32
  get_head :: u32
  get_tail :: u32
  get_base :: u32
  rb_size :: u32

text \<open>\<^verbatim>\<open>-EMSGSIZE\<close> and the other results of this component.\<close>

datatype ring_err = RB_EINVAL | RB_EMSGSIZE | RB_EAGAIN

definition ring_buf_internal_reset :: "ring_buf \<Rightarrow> u32 \<Rightarrow> ring_buf" where
  "ring_buf_internal_reset buf value =
     buf\<lparr>put_head := value, put_tail := value, put_base := value, get_head := value, get_tail := value, get_base := value\<rparr>"

definition ring_buf_init :: "ring_buf \<Rightarrow> u32 \<Rightarrow> u8 list \<Rightarrow> ring_buf" where
  "ring_buf_init buf size' data =
     (let buf = buf\<lparr>rb_size := size'\<rparr>; buf = buf\<lparr>rb_buffer := data\<rparr> in ring_buf_internal_reset buf 0)"

definition ring_buf_item_init :: "ring_buf \<Rightarrow> u32 \<Rightarrow> u8 list \<Rightarrow> ring_buf" where
  "ring_buf_item_init buf size' data = ring_buf_init buf (4 * size') data"

definition ring_buf_is_empty :: "ring_buf \<Rightarrow> bool" where
  "ring_buf_is_empty buf \<longleftrightarrow> get_head buf = put_tail buf"

definition ring_buf_reset :: "ring_buf \<Rightarrow> ring_buf" where
  "ring_buf_reset buf = ring_buf_internal_reset buf 0"

definition ring_buf_space_get :: "ring_buf \<Rightarrow> u32" where
  "ring_buf_space_get buf = rb_size buf - (put_head buf - get_tail buf)"

definition ring_buf_item_space_get :: "ring_buf \<Rightarrow> u32" where
  "ring_buf_item_space_get buf = ring_buf_space_get buf div 4"

definition ring_buf_capacity_get :: "ring_buf \<Rightarrow> u32" where
  "ring_buf_capacity_get buf = rb_size buf"

definition ring_buf_size_get :: "ring_buf \<Rightarrow> u32" where
  "ring_buf_size_get buf = put_tail buf - get_head buf"

text \<open>A claim returns the size claimed, the offset of the region in the buffer, and the buffer.\<close>

definition ring_buf_put_claim :: "ring_buf \<Rightarrow> u32 \<Rightarrow> u32 \<times> u32 \<times> ring_buf" where
  "ring_buf_put_claim buf sz =
     (let base = put_base buf;
          wrap_size = put_head buf - base;
          (wrap_size, base) =
            (if wrap_size \<ge> rb_size buf then (wrap_size - rb_size buf, base + rb_size buf) else (wrap_size, base));
          wrap_size = rb_size buf - wrap_size;
          free_space = ring_buf_space_get buf;
          sz = min sz free_space;
          sz = min sz wrap_size;
          data = put_head buf - base
      in (sz, data, buf\<lparr>put_head := put_head buf + sz\<rparr>))"

definition ring_buf_put_finish :: "ring_buf \<Rightarrow> u32 \<Rightarrow> (ring_err + unit) \<times> ring_buf" where
  "ring_buf_put_finish buf sz =
     (let finish_space = put_head buf - put_tail buf
      in if sz > finish_space then (Inl RB_EINVAL, buf)
         else
           (let buf = buf\<lparr>put_tail := put_tail buf + sz\<rparr>;
                buf = buf\<lparr>put_head := put_tail buf\<rparr>;
                wrap_size = put_tail buf - put_base buf;
                buf = (if wrap_size \<ge> rb_size buf then buf\<lparr>put_base := put_base buf + rb_size buf\<rparr> else buf)
            in (Inr (), buf)))"

definition ring_buf_get_claim :: "ring_buf \<Rightarrow> u32 \<Rightarrow> u32 \<times> u32 \<times> ring_buf" where
  "ring_buf_get_claim buf sz =
     (let base = get_base buf;
          wrap_size = get_head buf - base;
          (wrap_size, base) =
            (if wrap_size \<ge> rb_size buf then (wrap_size - rb_size buf, base + rb_size buf) else (wrap_size, base));
          wrap_size = rb_size buf - wrap_size;
          available_size = ring_buf_size_get buf;
          sz = min sz available_size;
          sz = min sz wrap_size;
          data = get_head buf - base
      in (sz, data, buf\<lparr>get_head := get_head buf + sz\<rparr>))"

definition ring_buf_get_finish :: "ring_buf \<Rightarrow> u32 \<Rightarrow> (ring_err + unit) \<times> ring_buf" where
  "ring_buf_get_finish buf sz =
     (let finish_space = get_head buf - get_tail buf
      in if sz > finish_space then (Inl RB_EINVAL, buf)
         else
           (let buf = buf\<lparr>get_tail := get_tail buf + sz\<rparr>;
                buf = buf\<lparr>get_head := get_tail buf\<rparr>;
                wrap_size = get_tail buf - get_base buf;
                buf = (if wrap_size \<ge> rb_size buf then buf\<lparr>get_base := get_base buf + rb_size buf\<rparr> else buf)
            in (Inr (), buf)))"

text \<open>Copying into and out of the buffer.\<close>

definition copy_in :: "nat \<Rightarrow> u8 list \<Rightarrow> ring_buf \<Rightarrow> ring_buf" where
  "copy_in off xs buf = buf\<lparr>rb_buffer := take off (rb_buffer buf) @ xs @ drop (off + length xs) (rb_buffer buf)\<rparr>"

definition copy_out :: "nat \<Rightarrow> nat \<Rightarrow> ring_buf \<Rightarrow> u8 list" where
  "copy_out off n buf = take n (drop off (rb_buffer buf))"

text \<open>The loops; \<open>None\<close> if they do not end.\<close>

partial_function (option) ring_buf_put_loop :: "ring_buf \<Rightarrow> u8 list \<Rightarrow> u32 \<Rightarrow> u32 \<Rightarrow> (u32 \<times> ring_buf) option" where
  "ring_buf_put_loop buf data sz total_size =
     (case ring_buf_put_claim buf sz of
        (partial_size, dst, buf) \<Rightarrow>
          (let buf = copy_in (unat dst) (take (unat partial_size) data) buf;
               total_size = total_size + partial_size;
               sz = sz - partial_size;
               data = drop (unat partial_size) data
           in if sz \<noteq> 0 \<and> partial_size \<noteq> 0 then ring_buf_put_loop buf data sz total_size else Some (total_size, buf)))"

definition ring_buf_put :: "ring_buf \<Rightarrow> u8 list \<Rightarrow> u32 \<Rightarrow> (u32 \<times> ring_buf) option" where
  "ring_buf_put buf data sz =
     map_option (\<lambda>(total_size, buf). (total_size, snd (ring_buf_put_finish buf total_size))) (ring_buf_put_loop buf data sz 0)"

text \<open>The bytes read are the second result.\<close>

partial_function (option) ring_buf_get_loop :: "ring_buf \<Rightarrow> u8 list \<Rightarrow> u32 \<Rightarrow> u32 \<Rightarrow> (u32 \<times> u8 list \<times> ring_buf) option" where
  "ring_buf_get_loop buf data sz total_size =
     (case ring_buf_get_claim buf sz of
        (partial_size, src, buf) \<Rightarrow>
          (let data = data @ copy_out (unat src) (unat partial_size) buf;
               total_size = total_size + partial_size;
               sz = sz - partial_size
           in if sz \<noteq> 0 \<and> partial_size \<noteq> 0 then ring_buf_get_loop buf data sz total_size else Some (total_size, data, buf)))"

definition ring_buf_get :: "ring_buf \<Rightarrow> u32 \<Rightarrow> (u32 \<times> u8 list \<times> ring_buf) option" where
  "ring_buf_get buf sz =
     map_option (\<lambda>(total_size, data, buf). (total_size, data, snd (ring_buf_get_finish buf total_size))) (ring_buf_get_loop buf [] sz 0)"

definition ring_buf_peek :: "ring_buf \<Rightarrow> u32 \<Rightarrow> (u32 \<times> u8 list \<times> ring_buf) option" where
  "ring_buf_peek buf sz =
     (let sz = min sz (ring_buf_size_get buf)
      in map_option (\<lambda>(total_size, data, buf). (total_size, data, snd (ring_buf_get_finish buf 0))) (ring_buf_get_loop buf [] sz 0))"

text \<open>The header of an item: 16 bits type, 8 bits length in words, 8 bits value, the lowest byte first.\<close>

definition ring_element :: "u16 \<Rightarrow> u8 \<Rightarrow> u8 \<Rightarrow> u8 list" where
  "ring_element type length32 value = [ucast type, ucast (drop_bit 8 type), length32, value]"

definition ring_buf_item_put :: "ring_buf \<Rightarrow> u16 \<Rightarrow> u8 \<Rightarrow> u8 list \<Rightarrow> u8 \<Rightarrow> ((ring_err + unit) \<times> ring_buf) option" where
  "ring_buf_item_put buf type value data size32 =
     (let space = ring_buf_space_get buf;
          sz = ucast size32 * 4
      in if sz + 4 > space then Some (Inl RB_EMSGSIZE, buf)
         else
           (case ring_buf_put_claim buf 4 of
              (_, dst, buf) \<Rightarrow>
                (let buf = copy_in (unat dst) (ring_element type size32 value) buf
                 in map_option (\<lambda>(total_size, buf). (Inr (), snd (ring_buf_put_finish buf total_size)))
                      (ring_buf_put_loop buf data sz 4))))"

text \<open>The item: type, value, length in words and data; on a too small buffer only the length.  A missing buffer
  (\<^verbatim>\<open>data32\<close> is \<^verbatim>\<open>NULL\<close>) is \<open>wanted = False\<close>.\<close>

definition ring_buf_item_get ::
    "ring_buf \<Rightarrow> bool \<Rightarrow> u8 \<Rightarrow> ((ring_err + u16 \<times> u8 \<times> u8 list) \<times> u8 \<times> ring_buf) option" where
  "ring_buf_item_get buf wanted size32 =
     (if ring_buf_is_empty buf then Some (Inl RB_EAGAIN, size32, buf)
      else
        (case ring_buf_get_claim buf 4 of
           (_, src, buf) \<Rightarrow>
             (let header = copy_out (unat src) 4 buf
              in if wanted \<and> header ! 2 > size32
                 then Some (Inl RB_EMSGSIZE, header ! 2, snd (ring_buf_get_finish buf 0))
                 else
                   (let size32 = header ! 2;
                        type = ucast (header ! 0) OR push_bit 8 (ucast (header ! 1));
                        value = header ! 3
                    in map_option (\<lambda>(total_size, data, buf).
                           (Inr (type, value, if wanted then data else []), size32, snd (ring_buf_get_finish buf total_size)))
                         (ring_buf_get_loop buf [] (ucast size32 * 4) 4)))))"

subsection \<open>Indices as unbounded numbers\<close>

text \<open>
  The indices stand for numbers that never wrap: \<open>get_base \<le> get_tail \<le> get_head \<le> put_tail \<le> put_head\<close>, with at most
  \<open>s\<close> bytes between the tail of the reader and the head of the writer, and each base the last multiple of the size before
  its tail.
\<close>

definition ring_rep :: "ring_buf \<Rightarrow> nat \<Rightarrow> nat \<Rightarrow> nat \<Rightarrow> nat \<Rightarrow> nat \<Rightarrow> nat \<Rightarrow> nat \<Rightarrow> bool" where
  "ring_rep b s gb gt gh pb pt ph \<longleftrightarrow>
     0 < s \<and> s < 2 ^ 31 \<and> rb_size b = of_nat s \<and> length (rb_buffer b) = s \<and>
     put_head b = of_nat ph \<and> put_tail b = of_nat pt \<and> put_base b = of_nat pb \<and>
     get_head b = of_nat gh \<and> get_tail b = of_nat gt \<and> get_base b = of_nat gb \<and>
     s dvd pb \<and> s dvd gb \<and> pb \<le> pt \<and> pt < pb + s \<and> gb \<le> gt \<and> gt < gb + s \<and>
     gt \<le> gh \<and> gh \<le> pt \<and> pt \<le> ph \<and> ph \<le> gt + s"

text \<open>The bytes with numbers from \<open>i\<close> up to \<open>j\<close>.\<close>

definition ring_data :: "ring_buf \<Rightarrow> nat \<Rightarrow> nat \<Rightarrow> u8 list" where
  "ring_data b i j = map (\<lambda>k. rb_buffer b ! (k mod length (rb_buffer b))) [i..<j]"

lemma ring_data_append: "i \<le> j \<Longrightarrow> j \<le> k \<Longrightarrow> ring_data b i k = ring_data b i j @ ring_data b j k"
  using upt_add_eq_append [of i j "k - j"] by (simp add: ring_data_def flip: map_append)

lemma length_ring_data [simp]: "length (ring_data b i j) = j - i"
  by (simp add: ring_data_def)

lemma ring_data_fields [simp]:
  "ring_data (b\<lparr>put_head := v\<rparr>) i j = ring_data b i j" "ring_data (b\<lparr>put_tail := v\<rparr>) i j = ring_data b i j"
  "ring_data (b\<lparr>put_base := v\<rparr>) i j = ring_data b i j" "ring_data (b\<lparr>get_head := v\<rparr>) i j = ring_data b i j"
  "ring_data (b\<lparr>get_tail := v\<rparr>) i j = ring_data b i j" "ring_data (b\<lparr>get_base := v\<rparr>) i j = ring_data b i j"
  by (simp_all add: ring_data_def)

lemma take_ring_data: "i + n \<le> j \<Longrightarrow> take n (ring_data b i j) = ring_data b i (i + n)"
  by (simp add: ring_data_def take_map)

lemma drop_ring_data: "drop n (ring_data b i j) = ring_data b (i + n) j"
  by (simp add: ring_data_def drop_map)

lemma unat_diff: "y \<le> x \<Longrightarrow> x - y < 2 ^ 32 \<Longrightarrow> unat (of_nat x - of_nat y :: u32) = x - y"
  by (simp flip: of_nat_diff add: unsigned_of_nat take_bit_nat_eq_self)

lemma unat_small: "n < 2 ^ 32 \<Longrightarrow> unat (of_nat n :: u32) = n"
  by (simp add: unsigned_of_nat take_bit_nat_eq_self)

text \<open>The offset of an index that is less than twice the size above its base.\<close>

lemma offset_mod:
  fixes s base x :: nat
  assumes "s dvd base" and "base \<le> x" and "x < base + 2 * s"
  shows "x mod s = (if x - base \<ge> s then x - base - s else x - base)"
proof -
  obtain k where "base = s * k" using assms(1) by blast
  then have "x - base + s * k = x" using assms(2) by simp
  then have "x mod s = (x - base) mod s" using mod_mult_self2 [of "x - base" s k] by simp
  also have "\<dots> = (if x - base \<ge> s then x - base - s else x - base)"
    using assms(3) by (simp add: mod_if le_mod_geq)
  finally show ?thesis .
qed

lemma claim_offset:
  assumes "s dvd base" and "base \<le> x" and "x < base + 2 * s" and "s < 2 ^ 31" and "0 < s"
  defines "w \<equiv> of_nat x - of_nat base :: u32"
  shows "(if w \<ge> of_nat s then w - of_nat s else w) = of_nat (x mod s)"
    and "of_nat x - (if w \<ge> of_nat s then of_nat base + of_nat s else of_nat base) = (of_nat (x mod s) :: u32)"
proof -
  have w: "w = of_nat (x - base)" using assms(2) by (simp add: w_def of_nat_diff)
  have ge: "w \<ge> of_nat s \<longleftrightarrow> x - base \<ge> s"
    using assms(4) unat_diff [of base x, folded w_def] assms(2,3) by (simp add: word_le_nat_alt unat_small)
  have "(of_nat (x - base - s) :: u32) = w - of_nat s" if "x - base \<ge> s"
    unfolding w by (rule of_nat_diff [OF that])
  then show "(if w \<ge> of_nat s then w - of_nat s else w) = of_nat (x mod s)"
    using offset_mod [OF assms(1-3)] ge by (simp add: w)
  then show "of_nat x - (if w \<ge> of_nat s then of_nat base + of_nat s else of_nat base) = (of_nat (x mod s) :: u32)"
    by (simp add: w_def diff_diff_eq split: if_splits)
qed

lemma min_of_nat: "x < 2 ^ 32 \<Longrightarrow> y < 2 ^ 32 \<Longrightarrow> min (of_nat x) (of_nat y) = (of_nat (min x y) :: u32)"
  by (simp add: min_def word_le_nat_alt unat_small)

lemma min3_of_nat:
  "x < 2 ^ 32 \<Longrightarrow> y < 2 ^ 32 \<Longrightarrow> z < 2 ^ 32 \<Longrightarrow>
   min (min (of_nat x) (of_nat y)) (of_nat z) = (of_nat (min (min x y) z) :: u32)"
  by (simp add: min_of_nat)

text \<open>A claim at index \<open>x\<close> of at most \<open>n\<close> bytes, of which \<open>a\<close> are there.\<close>

definition claimed :: "nat \<Rightarrow> nat \<Rightarrow> u32 \<Rightarrow> nat \<Rightarrow> nat" where
  "claimed s x n a = min (min (unat n) a) (s - x mod s)"

lemma claim_eq:
  fixes n :: u32
  assumes "s dvd base" "base \<le> x" "x < base + 2 * s" "s < 2 ^ 31" "0 < s" "a \<le> s"
  defines "w \<equiv> of_nat x - of_nat base :: u32"
  shows "min (min n (of_nat a)) (of_nat s - (if w \<ge> of_nat s then w - of_nat s else w)) = of_nat (claimed s x n a)"
proof -
  have "unat n < 2 ^ 32" "a < 2 ^ 32" "s - x mod s < 2 ^ 32"
    using unsigned_less [of n, where 'a = nat] assms(4,6) by auto
  then have "min (min n (of_nat a)) (of_nat (s - x mod s)) = of_nat (claimed s x n a)"
    using min3_of_nat [of "unat n" a "s - x mod s"] by (simp add: claimed_def del: of_nat_diff)
  moreover have "x mod s \<le> s" using assms(5) by simp
  ultimately show ?thesis
    unfolding w_def claim_offset(1) [OF assms(1-5)] by (simp add: of_nat_diff)
qed

lemma put_claim_unfold:
  "ring_buf_put_claim b n =
     (let w = put_head b - put_base b;
          sz = min (min n (ring_buf_space_get b)) (rb_size b - (if w \<ge> rb_size b then w - rb_size b else w))
      in (sz, put_head b - (if w \<ge> rb_size b then put_base b + rb_size b else put_base b), b\<lparr>put_head := put_head b + sz\<rparr>))"
  by (simp add: ring_buf_put_claim_def Let_def)

lemma get_claim_unfold:
  "ring_buf_get_claim b n =
     (let w = get_head b - get_base b;
          sz = min (min n (ring_buf_size_get b)) (rb_size b - (if w \<ge> rb_size b then w - rb_size b else w))
      in (sz, get_head b - (if w \<ge> rb_size b then get_base b + rb_size b else get_base b), b\<lparr>get_head := get_head b + sz\<rparr>))"
  by (simp add: ring_buf_get_claim_def Let_def)

lemma put_claim_eq:
  assumes "ring_rep b s gb gt gh pb pt ph"
  defines "c n \<equiv> claimed s ph n (s - (ph - gt))"
  shows "ring_buf_put_claim b n = (of_nat (c n), of_nat (ph mod s), b\<lparr>put_head := of_nat (ph + c n)\<rparr>)"
proof -
  have r: "put_head b = of_nat ph" "put_base b = of_nat pb" "rb_size b = of_nat s" "get_tail b = of_nat gt"
      and bounds: "s dvd pb" "pb \<le> ph" "ph < pb + 2 * s" "s < 2 ^ 31" "0 < s" and "ph - gt \<le> s" "gt \<le> ph"
    using assms(1) by (auto simp: ring_rep_def)
  then have space: "ring_buf_space_get b = of_nat (s - (ph - gt))"
    by (simp add: ring_buf_space_get_def of_nat_diff)
  have a: "s - (ph - gt) \<le> s" by simp
  show ?thesis
    unfolding put_claim_unfold Let_def space r claim_offset(2) [OF bounds] claim_eq [OF bounds a] c_def by simp
qed

lemma get_claim_eq:
  assumes "ring_rep b s gb gt gh pb pt ph"
  defines "c n \<equiv> claimed s gh n (pt - gh)"
  shows "ring_buf_get_claim b n = (of_nat (c n), of_nat (gh mod s), b\<lparr>get_head := of_nat (gh + c n)\<rparr>)"
proof -
  have r: "get_head b = of_nat gh" "get_base b = of_nat gb" "rb_size b = of_nat s" "put_tail b = of_nat pt"
      and bounds: "s dvd gb" "gb \<le> gh" "gh < gb + 2 * s" "s < 2 ^ 31" "0 < s" and a: "pt - gh \<le> s" and "gh \<le> pt"
    using assms(1) by (auto simp: ring_rep_def)
  then have avail: "ring_buf_size_get b = of_nat (pt - gh)"
    by (simp add: ring_buf_size_get_def of_nat_diff)
  show ?thesis
    unfolding get_claim_unfold Let_def avail r claim_offset(2) [OF bounds] claim_eq [OF bounds a] c_def by simp
qed

lemma claimed_bounds:
  "claimed s x n a \<le> a" "claimed s x n a \<le> unat n" "claimed s x n a \<le> s - x mod s"
  "0 < s \<Longrightarrow> claimed s x n a = 0 \<longleftrightarrow> n = 0 \<or> a = 0"
proof -
  have "s \<le> x mod s \<Longrightarrow> \<not> 0 < s" by (metis mod_less_divisor not_le)
  then show "claimed s x n a \<le> a" "claimed s x n a \<le> unat n" "claimed s x n a \<le> s - x mod s"
    "0 < s \<Longrightarrow> claimed s x n a = 0 \<longleftrightarrow> n = 0 \<or> a = 0"
    by (auto simp: claimed_def min_def unat_eq_zero)
qed

subsection \<open>Copying\<close>

lemma mod_run: "j < s - x mod s \<Longrightarrow> (x + j) mod s = x mod s + j" for x j s :: nat
proof -
  assume "j < s - x mod s"
  then have "x mod s + j < s" by linarith
  then show ?thesis by (metis mod_add_left_eq mod_less)
qed

text \<open>Bytes less than a whole round before a region are not in it.\<close>

lemma mod_outside:
  fixes x s k c :: nat
  assumes "k < x" and "x + c \<le> k + s" and "c \<le> s - x mod s" and "0 < s"
  shows "k mod s < x mod s \<or> x mod s + c \<le> k mod s"
proof (rule ccontr)
  assume "\<not> ?thesis"
  then obtain j where j: "k mod s = x mod s + j" "j < c" by (metis le_Suc_ex nat_add_left_cancel_less not_le)
  then have "k mod s = (x + j) mod s" using mod_run [of j s x] assms(3) by simp
  then have "s dvd x + j - k" using assms(1) by (metis mod_eq_dvd_iff_nat le_add1 less_imp_le order_trans)
  moreover have "0 < x + j - k" "x + j - k < s" using assms(1,2) j(2) by linarith+
  ultimately show False by (auto dest: dvd_imp_le)
qed

lemma nth_copy_in:
  assumes "off + length xs \<le> length (rb_buffer b)" and "i < length (rb_buffer b)"
  shows "rb_buffer (copy_in off xs b) ! i =
    (if off \<le> i \<and> i < off + length xs then xs ! (i - off) else rb_buffer b ! i)"
  using assms by (auto simp: copy_in_def nth_append)

lemma copy_in_fields [simp]:
  "put_head (copy_in off xs b) = put_head b" "put_tail (copy_in off xs b) = put_tail b" "put_base (copy_in off xs b) = put_base b"
  "get_head (copy_in off xs b) = get_head b" "get_tail (copy_in off xs b) = get_tail b" "get_base (copy_in off xs b) = get_base b"
  "rb_size (copy_in off xs b) = rb_size b"
  "off + length xs \<le> length (rb_buffer b) \<Longrightarrow> length (rb_buffer (copy_in off xs b)) = length (rb_buffer b)"
  by (simp_all add: copy_in_def)

lemma ring_data_copy_in:
  assumes "length (rb_buffer b) = s" and "0 < s" and "length xs \<le> s - x mod s" and "x + length xs \<le> i + s" and "i \<le> x"
  shows "ring_data (copy_in (x mod s) xs b) i (x + length xs) = ring_data b i x @ xs"
proof -
  have m: "x mod s < s" using assms(2) by simp
  then have le: "x mod s + length xs \<le> length (rb_buffer b)" using assms(1,3) by linarith
  have "ring_data (copy_in (x mod s) xs b) i x = ring_data b i x"
  proof -
    have "rb_buffer (copy_in (x mod s) xs b) ! (k mod s) = rb_buffer b ! (k mod s)" if k: "i \<le> k" "k < x" for k
      using mod_outside [of k x "length xs" s] k assms nth_copy_in [OF le, of "k mod s"] by auto
    then show ?thesis using assms(1) le by (simp add: ring_data_def)
  qed
  moreover have "ring_data (copy_in (x mod s) xs b) x (x + length xs) = xs"
  proof (rule nth_equalityI)
    fix j assume j: "j < length (ring_data (copy_in (x mod s) xs b) x (x + length xs))"
    then have "(x + j) mod s = x mod s + j" using mod_run [of j s x] assms(3) by simp
    then show "ring_data (copy_in (x mod s) xs b) x (x + length xs) ! j = xs ! j"
      using j le assms(1) nth_copy_in [OF le, of "x mod s + j"] by (simp add: ring_data_def)
  qed simp
  ultimately show ?thesis
    using ring_data_append [of i x "x + length xs"] assms(5) by simp
qed

lemma copy_out_head [simp]: "copy_out off n (b\<lparr>get_head := v\<rparr>) = copy_out off n b"
  by (simp add: copy_out_def)

lemma copy_out_eq:
  assumes "length (rb_buffer b) = s" and "0 < s" and "n \<le> s - x mod s"
  shows "copy_out (x mod s) n b = ring_data b x (x + n)"
proof (rule nth_equalityI)
  have m: "x mod s < s" using assms(2) by simp
  then show "length (copy_out (x mod s) n b) = length (ring_data b x (x + n))"
    using assms by (simp add: copy_out_def)
  fix j assume "j < length (copy_out (x mod s) n b)"
  then have "j < n" "(x + j) mod s = x mod s + j" using mod_run [of j s x] assms by (auto simp: copy_out_def)
  then show "copy_out (x mod s) n b ! j = ring_data b x (x + n) ! j"
    using assms m by (simp add: copy_out_def ring_data_def)
qed

subsection \<open>Putting and getting\<close>

text \<open>A claim with the copy into it, as one pass of the loop.\<close>

lemma put_pass:
  assumes "ring_rep b s gb gt gh pb pt ph" and "c = claimed s ph n (s - (ph - gt))" and "length xs = c"
  shows "ring_rep (copy_in (ph mod s) xs (b\<lparr>put_head := of_nat (ph + c)\<rparr>)) s gb gt gh pb pt (ph + c)"
    and "ring_data (copy_in (ph mod s) xs (b\<lparr>put_head := of_nat (ph + c)\<rparr>)) gt (ph + c) = ring_data b gt ph @ xs"
proof -
  have r: "length (rb_buffer b) = s" "0 < s" "gt \<le> ph" "ph \<le> gt + s" using assms(1) by (auto simp: ring_rep_def)
  have c: "length xs \<le> s - ph mod s" "ph + c \<le> gt + s"
    using claimed_bounds(1,3) [of s ph n "s - (ph - gt)"] r assms(2,3) by auto
  have "ph mod s < s" using r(2) by simp
  then have "ph mod s + length xs \<le> length (rb_buffer (b\<lparr>put_head := of_nat (ph + c)\<rparr>))" using c(1) r(1) by simp
  then show "ring_rep (copy_in (ph mod s) xs (b\<lparr>put_head := of_nat (ph + c)\<rparr>)) s gb gt gh pb pt (ph + c)"
    using assms(1) c by (simp add: ring_rep_def)
  show "ring_data (copy_in (ph mod s) xs (b\<lparr>put_head := of_nat (ph + c)\<rparr>)) gt (ph + c) = ring_data b gt ph @ xs"
    using ring_data_copy_in [of "b\<lparr>put_head := of_nat (ph + c)\<rparr>" s xs ph gt] r c assms(3) by (simp add: ring_data_def)
qed

lemma put_loop_returns:
  assumes "ring_rep b s gb gt gh pb pt ph" and "length data = unat n" and "m = min (unat n) (s - (ph - gt))"
  shows "\<exists>b'. ring_buf_put_loop b data n tot = Some (tot + of_nat m, b') \<and> ring_rep b' s gb gt gh pb pt (ph + m) \<and>
    ring_data b' gt (ph + m) = ring_data b gt ph @ take m data"
  using assms
proof (induction "unat n" arbitrary: b ph data n m tot rule: less_induct)
  case less
  define c where "c = claimed s ph n (s - (ph - gt))"
  note cb = claimed_bounds [of s ph n "s - (ph - gt)", folded c_def]
  have s: "0 < s" "s < 2 ^ 31" "gt \<le> ph" "ph \<le> gt + s" using less.prems(1) by (auto simp: ring_rep_def)
  let ?b = "copy_in (ph mod s) (take c data) (b\<lparr>put_head := of_nat (ph + c)\<rparr>)"
  have len: "length (take c data) = c" using less.prems(2) cb(2) by simp
  note pass = put_pass [OF less.prems(1) c_def len]
  have "ph mod s < s" using s(1) by simp
  then have u: "unat (of_nat c :: u32) = c" "unat (of_nat (ph mod s) :: u32) = ph mod s"
    using cb(1) s(2) by (auto intro!: unat_small)
  have "of_nat c \<le> n" using cb(2) u(1) by (simp add: word_le_nat_alt)
  then have n: "unat (n - of_nat c) = unat n - c" using u(1) by (simp add: unat_sub)
  have step: "ring_buf_put_loop b data n tot =
      (if n - of_nat c \<noteq> 0 \<and> of_nat c \<noteq> (0 :: u32) then ring_buf_put_loop ?b (drop c data) (n - of_nat c) (tot + of_nat c)
       else Some (tot + of_nat c, ?b))"
    by (subst ring_buf_put_loop.simps) (simp add: put_claim_eq [OF less.prems(1), of n, folded c_def] u)
  have zero: "of_nat c = (0 :: u32) \<longleftrightarrow> c = 0" "n - of_nat c = 0 \<longleftrightarrow> unat n = c"
    using u(1) n cb(2) by (auto simp: unat_eq_zero [symmetric])
  show ?case
  proof (cases "unat n \<noteq> c \<and> c \<noteq> 0")
    case True
    let ?m = "min (unat (n - of_nat c)) (s - (ph + c - gt))"
    have "c + ?m = m" using less.prems(3) n cb(1,2) s by (auto simp: min_def)
    moreover have "unat (n - of_nat c) < unat n" "length (drop c data) = unat (n - of_nat c)"
      using True n cb(2) less.prems(2) by auto
    ultimately show ?thesis
      using less.hyps [OF _ pass(1) _ refl, of "n - of_nat c" "drop c data" "tot + of_nat c"] step zero True pass(2) s(3)
      by (auto simp: add.assoc take_add simp flip: of_nat_add)
  next
    case False
    then have "m = c" using less.prems(3) cb(1,2,4) s by (auto simp: min_def unat_eq_zero)
    then show ?thesis using step zero False pass by auto
  qed
qed

lemma get_loop_returns:
  assumes "ring_rep b s gb gt gh pb pt ph" and "m = min (unat n) (pt - gh)"
  shows "ring_buf_get_loop b acc n tot = Some (tot + of_nat m, acc @ ring_data b gh (gh + m), b\<lparr>get_head := of_nat (gh + m)\<rparr>) \<and>
    ring_rep (b\<lparr>get_head := of_nat (gh + m)\<rparr>) s gb gt (gh + m) pb pt ph"
  using assms
proof (induction "unat n" arbitrary: b gh n m acc tot rule: less_induct)
  case less
  define c where "c = claimed s gh n (pt - gh)"
  note cb = claimed_bounds [of s gh n "pt - gh", folded c_def]
  have s: "0 < s" "s < 2 ^ 31" "length (rb_buffer b) = s" "gh \<le> pt" "pt - gh \<le> s" using less.prems(1) by (auto simp: ring_rep_def)
  let ?b = "b\<lparr>get_head := of_nat (gh + c)\<rparr>"
  have r: "ring_rep ?b s gb gt (gh + c) pb pt ph" using less.prems(1) cb(1) s(4) by (auto simp: ring_rep_def)
  have "gh mod s < s" using s(1) by simp
  then have u: "unat (of_nat c :: u32) = c" "unat (of_nat (gh mod s) :: u32) = gh mod s"
    using cb(1) s(2,5) by (auto intro!: unat_small)
  have "of_nat c \<le> n" using cb(2) u(1) by (simp add: word_le_nat_alt)
  then have n: "unat (n - of_nat c) = unat n - c" using u(1) by (simp add: unat_sub)
  have out: "copy_out (gh mod s) c b = ring_data b gh (gh + c)"
    using copy_out_eq [of b s c gh] cb(3) s by simp
  have step: "ring_buf_get_loop b acc n tot =
      (if n - of_nat c \<noteq> 0 \<and> of_nat c \<noteq> (0 :: u32) then ring_buf_get_loop ?b (acc @ ring_data b gh (gh + c)) (n - of_nat c) (tot + of_nat c)
       else Some (tot + of_nat c, acc @ ring_data b gh (gh + c), ?b))"
    by (subst ring_buf_get_loop.simps) (simp add: get_claim_eq [OF less.prems(1), of n, folded c_def] u out)
  have zero: "of_nat c = (0 :: u32) \<longleftrightarrow> c = 0" "n - of_nat c = 0 \<longleftrightarrow> unat n = c"
    using u(1) n cb(2) by (auto simp: unat_eq_zero [symmetric])
  show ?case
  proof (cases "unat n \<noteq> c \<and> c \<noteq> 0")
    case True
    let ?m = "min (unat (n - of_nat c)) (pt - (gh + c))"
    have m: "m = c + ?m" using less.prems(2) n cb(1,2) s by (auto simp: min_def)
    moreover have "unat (n - of_nat c) < unat n" using True n cb(2) by auto
    moreover have "ring_data b gh (gh + m) = ring_data b gh (gh + c) @ ring_data b (gh + c) (gh + m)"
      using m by (intro ring_data_append) auto
    ultimately show ?thesis
      using less.hyps [OF _ r refl, of "n - of_nat c" "acc @ ring_data b gh (gh + c)" "tot + of_nat c"] step zero True
      by (simp add: add.assoc flip: of_nat_add)
  next
    case False
    then have "m = c" using less.prems(2) cb(1,2,4) s by (auto simp: min_def unat_eq_zero)
    then show ?thesis using step zero False r by auto
  qed
qed

text \<open>Advancing a base by the size once the tail has passed it.\<close>

lemma base_step:
  assumes "s dvd base" and "base \<le> x" and "x < base + 2 * s" and "s < 2 ^ 31"
  defines "base' \<equiv> (if base + s \<le> x then base + s else base)"
  shows "s dvd base'" and "base' \<le> x" and "x < base' + s"
    and "(if (of_nat x - of_nat base :: u32) \<ge> of_nat s then of_nat base + of_nat s else of_nat base) = (of_nat base' :: u32)"
proof -
  show "s dvd base'" "base' \<le> x" "x < base' + s" using assms(1-3) by (auto simp: base'_def)
  have "(of_nat x - of_nat base :: u32) \<ge> of_nat s \<longleftrightarrow> base + s \<le> x"
    using assms(2-4) unat_diff [of base x] by (simp add: word_le_nat_alt unat_small le_diff_conv2 add.commute)
  then show "(if (of_nat x - of_nat base :: u32) \<ge> of_nat s then of_nat base + of_nat s else of_nat base) = (of_nat base' :: u32)"
    by (simp add: base'_def)
qed

lemma finish_space: "y \<le> x \<Longrightarrow> x - y < 2 ^ 32 \<Longrightarrow> k \<le> x - y \<Longrightarrow> \<not> of_nat k > (of_nat x - of_nat y :: u32)"
  using unat_diff [of y x] unat_small [of k] by (simp add: word_less_nat_alt)

lemma put_finish_ok:
  assumes "ring_rep b s gb gt gh pb pt ph" and "k \<le> ph - pt"
  shows "\<exists>b' pb'. ring_buf_put_finish b (of_nat k) = (Inr (), b') \<and> ring_rep b' s gb gt gh pb' (pt + k) (pt + k) \<and>
    rb_buffer b' = rb_buffer b"
proof -
  note r = assms(1) [unfolded ring_rep_def]
  have bounds: "s dvd pb" "pb \<le> pt + k" "pt + k < pb + 2 * s" "s < 2 ^ 31" using r assms(2) by auto
  note st = base_step [OF bounds]
  have "\<not> of_nat k > (of_nat ph - of_nat pt :: u32)"
    using r assms(2) by (intro finish_space) auto
  then have "ring_buf_put_finish b (of_nat k) = (Inr (), b\<lparr>put_tail := of_nat (pt + k), put_head := of_nat (pt + k),
      put_base := (if (of_nat (pt + k) - of_nat pb :: u32) \<ge> of_nat s then of_nat pb + of_nat s else of_nat pb)\<rparr>)"
    using r by (simp add: ring_buf_put_finish_def Let_def)
  then show ?thesis
    using st(1-3) r assms(2) unfolding st(4)
    by (intro exI [of _ "b\<lparr>put_tail := of_nat (pt + k), put_head := of_nat (pt + k), put_base := of_nat (if pb + s \<le> pt + k then pb + s else pb)\<rparr>"]
        exI [of _ "if pb + s \<le> pt + k then pb + s else pb"]) (auto simp: ring_rep_def)
qed

lemma get_finish_ok:
  assumes "ring_rep b s gb gt gh pb pt ph" and "k \<le> gh - gt"
  shows "\<exists>b' gb'. ring_buf_get_finish b (of_nat k) = (Inr (), b') \<and> ring_rep b' s gb' (gt + k) (gt + k) pb pt ph \<and>
    rb_buffer b' = rb_buffer b"
proof -
  note r = assms(1) [unfolded ring_rep_def]
  have bounds: "s dvd gb" "gb \<le> gt + k" "gt + k < gb + 2 * s" "s < 2 ^ 31" using r assms(2) by auto
  note st = base_step [OF bounds]
  have "\<not> of_nat k > (of_nat gh - of_nat gt :: u32)"
    using r assms(2) by (intro finish_space) auto
  then have "ring_buf_get_finish b (of_nat k) = (Inr (), b\<lparr>get_tail := of_nat (gt + k), get_head := of_nat (gt + k),
      get_base := (if (of_nat (gt + k) - of_nat gb :: u32) \<ge> of_nat s then of_nat gb + of_nat s else of_nat gb)\<rparr>)"
    using r by (simp add: ring_buf_get_finish_def Let_def)
  then show ?thesis
    using st(1-3) r assms(2) unfolding st(4)
    by (intro exI [of _ "b\<lparr>get_tail := of_nat (gt + k), get_head := of_nat (gt + k), get_base := of_nat (if gb + s \<le> gt + k then gb + s else gb)\<rparr>"]
        exI [of _ "if gb + s \<le> gt + k then gb + s else gb"]) (auto simp: ring_rep_def)
qed

subsection \<open>Sequences of bytes\<close>

text \<open>A ring buffer without open claims that holds \<open>xs\<close>; its tails are multiples of \<open>al\<close>.\<close>

definition ring_holds :: "nat \<Rightarrow> ring_buf \<Rightarrow> u8 list \<Rightarrow> bool" where
  "ring_holds al b xs \<longleftrightarrow> (\<exists>gb gt pb pt. ring_rep b (length (rb_buffer b)) gb gt gt pb pt pt \<and> xs = ring_data b gt pt \<and>
     al dvd length (rb_buffer b) \<and> al dvd gt \<and> al dvd pt)"

lemma ring_data_buffer: "rb_buffer b' = rb_buffer b \<Longrightarrow> ring_data b' i j = ring_data b i j"
  by (simp add: ring_data_def)

lemma ring_put:
  assumes "ring_holds al b xs" and "length data = unat n" and "m = min (unat n) (length (rb_buffer b) - length xs)" and "al dvd m"
  shows "\<exists>b'. ring_buf_put b data n = Some (of_nat m, b') \<and> ring_holds al b' (xs @ take m data) \<and>
    length (rb_buffer b') = length (rb_buffer b)"
proof -
  obtain gb gt pb pt where r: "ring_rep b (length (rb_buffer b)) gb gt gt pb pt pt" "xs = ring_data b gt pt"
      "al dvd length (rb_buffer b)" "al dvd gt" "al dvd pt"
    using assms(1) by (auto simp: ring_holds_def)
  obtain b1 where b1: "ring_buf_put_loop b data n 0 = Some (of_nat m, b1)"
      "ring_rep b1 (length (rb_buffer b)) gb gt gt pb pt (pt + m)" "ring_data b1 gt (pt + m) = xs @ take m data"
    using put_loop_returns [OF r(1) assms(2), of m 0] assms(3) r(2) by auto
  obtain b2 pb' where b2: "ring_buf_put_finish b1 (of_nat m) = (Inr (), b2)"
      "ring_rep b2 (length (rb_buffer b)) gb gt gt pb' (pt + m) (pt + m)" "rb_buffer b2 = rb_buffer b1"
    using put_finish_ok [OF b1(2), of m] by auto
  have "length (rb_buffer b2) = length (rb_buffer b)" using b2(2) by (simp add: ring_rep_def)
  moreover from this have "ring_holds al b2 (xs @ take m data)"
    using b2(2) b1(3) ring_data_buffer [OF b2(3)] r(3-5) assms(4) unfolding ring_holds_def
    by (intro exI [of _ gb] exI [of _ gt] exI [of _ pb'] exI [of _ "pt + m"]) simp
  ultimately show ?thesis using b1(1) b2(1) by (simp add: ring_buf_put_def)
qed

lemma ring_get:
  assumes "ring_holds al b xs" and "m = min (unat n) (length xs)" and "al dvd m"
  shows "\<exists>b'. ring_buf_get b n = Some (of_nat m, take m xs, b') \<and> ring_holds al b' (drop m xs) \<and>
    length (rb_buffer b') = length (rb_buffer b)"
proof -
  obtain gb gt pb pt where r: "ring_rep b (length (rb_buffer b)) gb gt gt pb pt pt" "xs = ring_data b gt pt"
      "al dvd length (rb_buffer b)" "al dvd gt" "al dvd pt"
    using assms(1) by (auto simp: ring_holds_def)
  have le: "gt + m \<le> pt" using r assms(2) by (auto simp: ring_rep_def)
  note l = get_loop_returns [OF r(1), of m n "[]" 0]
  obtain b2 gb' where b2: "ring_buf_get_finish (b\<lparr>get_head := of_nat (gt + m)\<rparr>) (of_nat m) = (Inr (), b2)"
      "ring_rep b2 (length (rb_buffer b)) gb' (gt + m) (gt + m) pb pt pt" "rb_buffer b2 = rb_buffer b"
    using get_finish_ok [of "b\<lparr>get_head := of_nat (gt + m)\<rparr>" _ _ _ "gt + m" _ _ _ m] l assms(2) r(2) by fastforce
  have "ring_holds al b2 (drop m xs)"
    using b2(2) ring_data_buffer [OF b2(3)] r assms(3) le unfolding ring_holds_def b2(3)
    by (intro exI [of _ gb'] exI [of _ "gt + m"] exI [of _ pb] exI [of _ pt]) (simp add: drop_ring_data)
  then show ?thesis
    using l assms(2) r(2) b2(1,3) take_ring_data [OF le, of b] by (simp add: ring_buf_get_def)
qed

lemma ring_sizes:
  assumes "ring_holds al b xs"
  shows "unat (ring_buf_size_get b) = length xs" and "unat (ring_buf_space_get b) = length (rb_buffer b) - length xs"
    and "length xs \<le> length (rb_buffer b)" and "ring_buf_is_empty b \<longleftrightarrow> xs = []"
proof -
  obtain gb gt pb pt where r: "ring_rep b (length (rb_buffer b)) gb gt gt pb pt pt" "xs = ring_data b gt pt"
    using assms by (auto simp: ring_holds_def)
  then have f: "get_head b = of_nat gt" "get_tail b = of_nat gt" "put_tail b = of_nat pt" "put_head b = of_nat pt"
      "rb_size b = of_nat (length (rb_buffer b))" and le: "gt \<le> pt" "pt \<le> gt + length (rb_buffer b)" "length (rb_buffer b) < 2 ^ 31"
    by (auto simp: ring_rep_def)
  have d: "(of_nat pt - of_nat gt :: u32) = of_nat (pt - gt)" using le(1) by (simp add: of_nat_diff)
  show size: "unat (ring_buf_size_get b) = length xs"
    using le r(2) unfolding ring_buf_size_get_def f d by (simp add: unat_small del: of_nat_diff)
  have "ring_buf_space_get b = of_nat (length (rb_buffer b) - (pt - gt))"
    using le unfolding ring_buf_space_get_def f d by (simp add: of_nat_diff)
  then show "unat (ring_buf_space_get b) = length (rb_buffer b) - length xs"
    using le r(2) by (simp add: unat_small del: of_nat_diff)
  show "length xs \<le> length (rb_buffer b)" using le r(2) by simp
  show "ring_buf_is_empty b \<longleftrightarrow> xs = []"
    using size unat_eq_zero [of "put_tail b - get_head b"] by (auto simp: ring_buf_is_empty_def ring_buf_size_get_def)
qed

lemma ring_peek:
  assumes "ring_holds al b xs" and "m = min (unat n) (length xs)"
  shows "\<exists>b'. ring_buf_peek b n = Some (of_nat m, take m xs, b') \<and> ring_holds al b' xs \<and> length (rb_buffer b') = length (rb_buffer b)"
proof -
  obtain gb gt pb pt where r: "ring_rep b (length (rb_buffer b)) gb gt gt pb pt pt" "xs = ring_data b gt pt"
      "al dvd length (rb_buffer b)" "al dvd gt" "al dvd pt"
    using assms(1) by (auto simp: ring_holds_def)
  let ?n = "min n (ring_buf_size_get b)"
  have m: "m = min (unat ?n) (pt - gt)"
    using assms(2) ring_sizes(1) [OF assms(1)] r(2) by (simp add: min_def word_le_nat_alt)
  have le: "gt + m \<le> pt" using m r by (auto simp: ring_rep_def)
  note l = get_loop_returns [OF r(1) m, of "[]" 0]
  obtain b2 gb' where b2: "ring_buf_get_finish (b\<lparr>get_head := of_nat (gt + m)\<rparr>) 0 = (Inr (), b2)"
      "ring_rep b2 (length (rb_buffer b)) gb' gt gt pb pt pt" "rb_buffer b2 = rb_buffer b"
    using get_finish_ok [of "b\<lparr>get_head := of_nat (gt + m)\<rparr>" _ _ _ "gt + m" _ _ _ 0] l by fastforce
  have "ring_holds al b2 xs"
    using b2(2) ring_data_buffer [OF b2(3)] r unfolding ring_holds_def b2(3)
    by (intro exI [of _ gb'] exI [of _ gt] exI [of _ pb] exI [of _ pt]) simp
  then show ?thesis
    using l r(2) b2(1,3) take_ring_data [OF le, of b] by (simp add: ring_buf_peek_def Let_def)
qed

lemma ring_init:
  assumes "length data = unat n" and "0 < n" and "n < 2 ^ 31" and "al dvd unat n"
  shows "ring_holds al (ring_buf_init b n data) []" and "rb_buffer (ring_buf_init b n data) = data"
proof -
  show b: "rb_buffer (ring_buf_init b n data) = data" by (simp add: ring_buf_init_def ring_buf_internal_reset_def)
  have "0 < unat n" "unat n < 2 ^ 31" using assms(2,3) by (simp_all add: word_less_nat_alt unat_gt_0)
  then have "ring_rep (ring_buf_init b n data) (length data) 0 0 0 0 0 0"
    using assms(1) by (simp add: ring_rep_def ring_buf_init_def ring_buf_internal_reset_def)
  then show "ring_holds al (ring_buf_init b n data) []"
    using assms(1,4) b unfolding ring_holds_def
    by (intro exI [of _ 0]) (simp add: ring_data_def)
qed

subsection \<open>Items\<close>

text \<open>In a ring of whole words a word never wraps.\<close>

lemma claimed_word:
  assumes "4 dvd s" and "4 dvd x" and "0 < s" and "4 \<le> a"
  shows "claimed s x 4 a = 4"
proof -
  have "4 dvd s - x mod s" using assms(1,2) by (simp add: dvd_mod)
  moreover have "x mod s < s" using assms(3) by simp
  ultimately have "4 \<le> s - x mod s" by (auto dest: dvd_imp_le)
  then show ?thesis using assms(4) by (simp add: claimed_def)
qed

lemma item_put_ok:
  assumes "ring_holds 4 b xs" and "length data = 4 * unat size32"
  shows "if length data + 4 > length (rb_buffer b) - length xs
    then ring_buf_item_put b ty v data size32 = Some (Inl RB_EMSGSIZE, b)
    else \<exists>b'. ring_buf_item_put b ty v data size32 = Some (Inr (), b') \<and> ring_holds 4 b' (xs @ ring_element ty size32 v @ data)"
proof -
  obtain gb gt pb pt where r: "ring_rep b (length (rb_buffer b)) gb gt gt pb pt pt" "xs = ring_data b gt pt"
      "4 dvd length (rb_buffer b)" "4 dvd gt" "4 dvd pt"
    using assms(1) by (auto simp: ring_holds_def)
  let ?s = "length (rb_buffer b)" and ?sz = "ucast size32 * 4 :: u32"
  have s: "0 < ?s" "?s < 2 ^ 31" "gt \<le> pt" "pt \<le> gt + ?s" using r(1) by (auto simp: ring_rep_def)
  have l8: "unat size32 < 256" using unsigned_less [of size32, where 'a = nat] by simp
  then have sz: "unat ?sz = length data" "unat (?sz + 4) = length data + 4"
    using assms(2) by (simp_all add: unat_word_ariths unsigned_ucast_eq take_bit_nat_eq_self)
  note sp = ring_sizes(2) [OF assms(1)]
  show ?thesis
  proof (cases "length data + 4 > ?s - length xs")
    case True
    then show ?thesis using sp sz by (simp add: ring_buf_item_put_def word_less_nat_alt)
  next
    case False
    have a: "4 \<le> ?s - (pt - gt)" using False r(2) s by simp
    note c = claimed_word [OF r(3,5) s(1) a]
    have "length (ring_element ty size32 v) = claimed ?s pt 4 (?s - (pt - gt))" by (simp add: c ring_element_def)
    note pass = put_pass [OF r(1) refl this, unfolded c]
    let ?b1 = "copy_in (pt mod ?s) (ring_element ty size32 v) (b\<lparr>put_head := of_nat (pt + 4)\<rparr>)"
    have m: "length data = min (unat ?sz) (?s - (pt + 4 - gt))" 
    proof -
      have "length xs = pt - gt" using r(2) by simp
      then have "length data \<le> ?s - (pt + 4 - gt)" using False s by linarith
      then show ?thesis by (simp add: sz min_absorb1)
    qed
    obtain b2 where b2: "ring_buf_put_loop ?b1 data ?sz 4 = Some (of_nat (4 + length data), b2)"
        "ring_rep b2 ?s gb gt gt pb pt (pt + (4 + length data))"
        "ring_data b2 gt (pt + (4 + length data)) = xs @ ring_element ty size32 v @ data"
      using put_loop_returns [OF pass(1) sz(1) [symmetric] m, of 4] pass(2) r(2) by (auto simp: add.assoc)
    obtain b3 pb' where b3: "ring_buf_put_finish b2 (of_nat (4 + length data)) = (Inr (), b3)"
        "ring_rep b3 ?s gb gt gt pb' (pt + (4 + length data)) (pt + (4 + length data))" "rb_buffer b3 = rb_buffer b2"
      using put_finish_ok [OF b2(2), of "4 + length data"] by auto
    have "pt mod ?s < 2 ^ 32" using order.strict_trans [OF mod_less_divisor [OF s(1), of pt], of "2 ^ 32"] s(2) by simp
    then have u: "unat (of_nat (pt mod ?s) :: u32) = pt mod ?s" by (rule unat_small)
    have "length (rb_buffer b3) = ?s" using b3(2) by (simp add: ring_rep_def)
    then have "ring_holds 4 b3 (xs @ ring_element ty size32 v @ data)"
      using b3(2) b2(3) ring_data_buffer [OF b3(3)] r(3-5) assms(2) unfolding ring_holds_def
      by (intro exI [of _ gb] exI [of _ gt] exI [of _ pb'] exI [of _ "pt + (4 + length data)"]) simp
    moreover have "ring_buf_item_put b ty v data size32 = Some (Inr (), b3)"
      using False sp sz b2(1) b3(1) put_claim_eq [OF r(1), of 4] c u
      by (simp add: ring_buf_item_put_def word_less_nat_alt)
    ultimately show ?thesis using False by auto
  qed
qed

lemma item_header:
  "ring_element ty l v ! 2 = l" "ring_element ty l v ! 3 = v" "length (ring_element ty l v) = 4"
  "ucast (ring_element ty l v ! 0) OR push_bit 8 (ucast (ring_element ty l v ! Suc 0)) = ty"
proof -
  show "ucast (ring_element ty l v ! 0) OR push_bit 8 (ucast (ring_element ty l v ! Suc 0)) = ty"
    by (rule bit_word_eqI) (auto simp: ring_element_def bit_simps)
qed (simp_all add: ring_element_def)

lemma item_get_ok:
  assumes "ring_holds 4 b (ring_element ty l v @ data @ ys)" and "length data = 4 * unat l"
  shows "if wanted \<and> l > size32
    then \<exists>b'. ring_buf_item_get b wanted size32 = Some (Inl RB_EMSGSIZE, l, b') \<and> ring_holds 4 b' (ring_element ty l v @ data @ ys)
    else \<exists>b'. ring_buf_item_get b wanted size32 = Some (Inr (ty, v, if wanted then data else []), l, b') \<and> ring_holds 4 b' ys"
proof -
  let ?xs = "ring_element ty l v @ data @ ys"
  obtain gb gt pb pt where r: "ring_rep b (length (rb_buffer b)) gb gt gt pb pt pt" "?xs = ring_data b gt pt"
      "4 dvd length (rb_buffer b)" "4 dvd gt" "4 dvd pt"
    using assms(1) by (auto simp: ring_holds_def)
  let ?s = "length (rb_buffer b)" and ?b1 = "b\<lparr>get_head := of_nat (gt + 4)\<rparr>"
  have s: "0 < ?s" "?s < 2 ^ 31" "gt \<le> pt" using r(1) by (auto simp: ring_rep_def)
  have len: "4 + length data + length ys = pt - gt"
    using arg_cong [OF r(2), of length] by (simp add: item_header)
  then have a: "4 \<le> pt - gt" by simp
  note c = claimed_word [OF r(3,4) s(1) a]
  have b1: "ring_rep ?b1 ?s gb gt (gt + 4) pb pt pt" using r(1) a s(3) by (auto simp: ring_rep_def)
  have "gt mod ?s < 2 ^ 32" using order.strict_trans [OF mod_less_divisor [OF s(1), of gt], of "2 ^ 32"] s(2) by simp
  then have u: "unat (of_nat (gt mod ?s) :: u32) = gt mod ?s" by (rule unat_small)
  have "copy_out (gt mod ?s) 4 b = ring_data b gt (gt + 4)"
    using copy_out_eq [of b ?s 4 gt] s(1) c claimed_bounds(3) [of ?s gt 4 "pt - gt"] by simp
  also have "\<dots> = ring_element ty l v"
  proof -
    have "take 4 ?xs = ring_element ty l v" by (simp add: item_header)
    then show ?thesis using take_ring_data [of gt 4 pt b] a s(3) unfolding r(2) by simp
  qed
  finally have h: "copy_out (gt mod ?s) 4 b = ring_element ty l v" .
  have ne: "\<not> ring_buf_is_empty b" using ring_sizes(4) [OF assms(1)] by (auto simp: ring_element_def)
  note start = get_claim_eq [OF r(1), of 4, unfolded c]
  show ?thesis
  proof (cases "wanted \<and> l > size32")
    case True
    obtain b2 gb' where b2: "ring_buf_get_finish ?b1 0 = (Inr (), b2)" "ring_rep b2 ?s gb' gt gt pb pt pt" "rb_buffer b2 = rb_buffer b"
      using get_finish_ok [OF b1, of 0] by auto
    have "ring_holds 4 b2 ?xs"
      using b2(2) ring_data_buffer [OF b2(3)] r unfolding ring_holds_def b2(3)
      by (intro exI [of _ gb'] exI [of _ gt] exI [of _ pb] exI [of _ pt]) simp
    moreover have "ring_buf_item_get b wanted size32 = Some (Inl RB_EMSGSIZE, l, b2)"
      using True ne start u h b2(1) by (simp add: ring_buf_item_get_def item_header)
    ultimately show ?thesis using True by auto
  next
    case False
    let ?k = "4 + length data"
    have "unat l < 256" using unsigned_less [of l, where 'a = nat] by simp
    then have sz: "unat (ucast l * 4 :: u32) = length data"
      using assms(2) by (simp add: unat_word_ariths unsigned_ucast_eq take_bit_nat_eq_self)
    then have m: "length data = min (unat (ucast l * 4 :: u32)) (pt - (gt + 4))" using len by simp
    note loop = get_loop_returns [OF b1 m, of "[]" 4]
    obtain b2 gb' where b2: "ring_buf_get_finish (b\<lparr>get_head := of_nat (gt + ?k)\<rparr>) (of_nat ?k) = (Inr (), b2)"
        "ring_rep b2 ?s gb' (gt + ?k) (gt + ?k) pb pt pt" "rb_buffer b2 = rb_buffer b"
      using get_finish_ok [OF conjunct2 [OF loop], of ?k] by (auto simp: add.assoc)
    have "drop 4 ?xs = data @ ys" "drop ?k ?xs = ys" by (simp_all add: item_header)
    then have parts: "data @ ys = ring_data b (gt + 4) pt" "ys = ring_data b (gt + ?k) pt"
      unfolding r(2) drop_ring_data by simp_all
    have "data = ring_data b (gt + 4) (gt + 4 + length data)"
      using arg_cong [OF parts(1), of "take (length data)"] take_ring_data [of "gt + 4" "length data" pt b] len by simp
    then have "ring_buf_item_get b wanted size32 = Some (Inr (ty, v, if wanted then data else []), l, b2)"
      using False ne start u h b2(1) loop by (simp add: ring_buf_item_get_def item_header add.assoc Let_def)
    moreover have "ring_holds 4 b2 ys"
      using b2(2) ring_data_buffer [OF b2(3)] r(3-5) parts(2) assms(2) unfolding ring_holds_def b2(3)
      by (intro exI [of _ gb'] exI [of _ "gt + ?k"] exI [of _ pb] exI [of _ pt]) simp
    ultimately show ?thesis using False by auto
  qed
qed

subsection \<open>Properties\<close>

text \<open>Sequences of calls, and what they give on a bounded queue of bytes.\<close>

datatype ring_op = Put "u8 list" | Get u32 | Peek u32

fun ring_exec :: "ring_buf \<Rightarrow> ring_op list \<Rightarrow> (u32 \<times> u8 list) list option" where
  "ring_exec b [] = Some []"
| "ring_exec b (Put data # ops) =
     Option.bind (ring_buf_put b data (of_nat (length data))) (\<lambda>(n, b). map_option ((#) (n, [])) (ring_exec b ops))"
| "ring_exec b (Get n # ops) =
     Option.bind (ring_buf_get b n) (\<lambda>(n, data, b). map_option ((#) (n, data)) (ring_exec b ops))"
| "ring_exec b (Peek n # ops) =
     Option.bind (ring_buf_peek b n) (\<lambda>(n, data, b). map_option ((#) (n, data)) (ring_exec b ops))"

fun queue_exec :: "nat \<Rightarrow> u8 list \<Rightarrow> ring_op list \<Rightarrow> (u32 \<times> u8 list) list" where
  "queue_exec cap xs [] = []"
| "queue_exec cap xs (Put data # ops) =
     (let m = min (length data) (cap - length xs) in (of_nat m, []) # queue_exec cap (xs @ take m data) ops)"
| "queue_exec cap xs (Get n # ops) =
     (let m = min (unat n) (length xs) in (of_nat m, take m xs) # queue_exec cap (drop m xs) ops)"
| "queue_exec cap xs (Peek n # ops) =
     (let m = min (unat n) (length xs) in (of_nat m, take m xs) # queue_exec cap xs ops)"

lemma ring_exec_queue:
  assumes "ring_holds 1 b xs" and "length (rb_buffer b) = cap" and "\<forall>data. Put data \<in> set ops \<longrightarrow> length data < 2 ^ 32"
  shows "ring_exec b ops = Some (queue_exec cap xs ops)"
  using assms
proof (induction ops arbitrary: b xs)
  case (Cons op ops)
  show ?case
  proof (cases op)
    case (Put data)
    then have "length data = unat (of_nat (length data) :: u32)" using Cons.prems(3) by (simp add: unat_small)
    then show ?thesis
      using ring_put [OF Cons.prems(1), of data "of_nat (length data)"] Cons Put by (auto simp: Let_def)
  next
    case (Get n)
    then show ?thesis using ring_get [OF Cons.prems(1) refl, of n] Cons by (auto simp: Let_def)
  next
    case (Peek n)
    then show ?thesis using ring_peek [OF Cons.prems(1) refl, of n] Cons by (auto simp: Let_def)
  qed
qed simp

text \<open>C35: From initialisation on, any sequence of puts, gets and peeks returns, and gives exactly what a queue of at most
  the given number of bytes gives: a put takes what there is room for, a get removes and a peek copies the oldest bytes.
  This holds for sequences of any length, also when the 32-bit indices wrap around.\<close>

theorem ring_buffer_is_queue:
  assumes "length buffer = unat n" and "0 < n" and "n < 2 ^ 31" and "\<forall>data. Put data \<in> set ops \<longrightarrow> length data < 2 ^ 32"
  shows "ring_exec (ring_buf_init b n buffer) ops = Some (queue_exec (unat n) [] ops)"
  using ring_exec_queue [OF ring_init(1) [OF assms(1-3)] _ assms(4)] ring_init(2) [OF assms(1-3), of 1 b] assms(1) by simp

theorem ring_buffer_is_queue_witness:
  "ring_exec (ring_buf_init \<lparr>rb_buffer = [], put_head = 5, put_tail = 6, put_base = 7, get_head = 8, get_tail = 9, get_base = 10, rb_size = 11\<rparr>
       3 [0, 0, 0]) [Put [1, 2, 3, 4], Get 2, Put [5], Get 9] =
     Some [(3, []), (2, [1, 2]), (1, []), (2, [3, 5])]"
  using ring_buffer_is_queue [of "[0, 0, 0]" 3 "[Put [1, 2, 3, 4], Get 2, Put [5], Get 9]"
      "\<lparr>rb_buffer = [], put_head = 5, put_tail = 6, put_base = 7, get_head = 8, get_tail = 9, get_base = 10, rb_size = 11\<rparr>"]
  by auto

text \<open>Items: type, value, length in words, data.\<close>

fun item_bytes :: "u16 \<times> u8 \<times> u8 \<times> u8 list \<Rightarrow> u8 list" where
  "item_bytes (ty, v, l, data) = ring_element ty l v @ data"

fun item_ok :: "u16 \<times> u8 \<times> u8 \<times> u8 list \<Rightarrow> bool" where
  "item_ok (ty, v, l, data) \<longleftrightarrow> length data = 4 * unat l"

text \<open>C36: A ring buffer in item mode is a queue of items: putting an item appends it with its type and value, or fails with
  \<^verbatim>\<open>-EMSGSIZE\<close> and changes nothing when there is no room; getting one returns the oldest item, or fails with \<^verbatim>\<open>-EAGAIN\<close> when
  there is none and with \<^verbatim>\<open>-EMSGSIZE\<close> and the length it needs, keeping the item, when the given buffer is too small.\<close>

theorem ring_items_queue:
  assumes "ring_holds 4 b (concat (map item_bytes its))" and "list_all item_ok its" and "length data = 4 * unat size32"
  shows "(if length data + 4 > length (rb_buffer b) - length (concat (map item_bytes its))
      then ring_buf_item_put b ty v data size32 = Some (Inl RB_EMSGSIZE, b)
      else \<exists>b'. ring_buf_item_put b ty v data size32 = Some (Inr (), b') \<and>
        ring_holds 4 b' (concat (map item_bytes (its @ [(ty, v, size32, data)])))) \<and>
    (case its of
       [] \<Rightarrow> ring_buf_item_get b True room = Some (Inl RB_EAGAIN, room, b)
     | (ty', v', l, d) # its' \<Rightarrow>
         if l > room
         then \<exists>b'. ring_buf_item_get b True room = Some (Inl RB_EMSGSIZE, l, b') \<and> ring_holds 4 b' (concat (map item_bytes its))
         else \<exists>b'. ring_buf_item_get b True room = Some (Inr (ty', v', d), l, b') \<and> ring_holds 4 b' (concat (map item_bytes its')))"
proof -
  have "case its of
       [] \<Rightarrow> ring_buf_item_get b True room = Some (Inl RB_EAGAIN, room, b)
     | (ty', v', l, d) # its' \<Rightarrow>
         if l > room
         then \<exists>b'. ring_buf_item_get b True room = Some (Inl RB_EMSGSIZE, l, b') \<and> ring_holds 4 b' (concat (map item_bytes its))
         else \<exists>b'. ring_buf_item_get b True room = Some (Inr (ty', v', d), l, b') \<and> ring_holds 4 b' (concat (map item_bytes its'))"
  proof (cases its)
    case Nil
    then show ?thesis using ring_sizes(4) [OF assms(1)] by (simp add: ring_buf_item_get_def)
  next
    case (Cons it its')
    obtain ty' v' l d where "it = (ty', v', l, d)" by (metis prod_cases4)
    then show ?thesis
      using Cons assms(1,2) item_get_ok [of b ty' l v' d "concat (map item_bytes its')" True room] by (cases "room < l") simp_all
  qed
  then show ?thesis using item_put_ok [OF assms(1,3), of ty v] by simp
qed

theorem ring_items_queue_witness:
  "\<exists>b'. ring_buf_item_put (ring_buf_init \<lparr>rb_buffer = [], put_head = 5, put_tail = 6, put_base = 7, get_head = 8, get_tail = 9, get_base = 10,
       rb_size = 11\<rparr> 16 (replicate 16 0)) 0x1234 9 [1, 2, 3, 4] 1 = Some (Inr (), b') \<and>
     ring_holds 4 b' [0x34, 0x12, 1, 9, 1, 2, 3, 4]"
proof -
  let ?b = "ring_buf_init \<lparr>rb_buffer = [], put_head = 5, put_tail = 6, put_base = 7, get_head = 8, get_tail = 9, get_base = 10, rb_size = 11\<rparr>
    16 (replicate 16 0)"
  have b: "ring_holds 4 ?b []" "rb_buffer ?b = replicate 16 0" by (rule ring_init [where al = 4]; simp)+
  have e: "ring_element 0x1234 1 9 = [0x34, 0x12, 1, 9]" by code_simp
  show ?thesis
    using ring_items_queue [of ?b "[]" "[1, 2, 3, 4]" 1 "0x1234" 9] b e by simp
qed

end
