(* ===== verification/Device.thy ===== *)
theory Device
  imports Zprelude
begin

text \<open>
  Devices and the init levels (\<^verbatim>\<open>kernel/device.c\<close>, \<^verbatim>\<open>kernel/init.c\<close>, \<^verbatim>\<open>include/zephyr/device.h\<close>).  The static devices are numbered in
  the order of their linker section, and \<^verbatim>\<open>None\<close> is the null pointer.  The init functions of drivers and of the system
  are parameters: they see the state of the devices and change a state of their own.  The theory shows which devices
  are ready after the start, and what a further attempt to initialise a device does.
\<close>

subsection \<open>Initialisation\<close>

type_synonym dev = nat

record device_state =
  init_res :: u8
  initialized :: bool

type_synonym dev_states = "dev \<Rightarrow> device_state"

record init_entry =
  init_fn :: addr
  entry_dev :: "dev option"

text \<open>The functions of the entries: the device, the states of all devices and the state of the drivers give the result.\<close>

type_synonym 's dev_fns = "addr \<Rightarrow> dev \<Rightarrow> dev_states \<Rightarrow> 's \<Rightarrow> int \<times> 's"
type_synonym 's sys_fns = "addr \<Rightarrow> dev_states \<Rightarrow> 's \<Rightarrow> int \<times> 's"

definition do_device_init :: "'s dev_fns \<Rightarrow> addr \<Rightarrow> dev \<Rightarrow> dev_states \<times> 's \<Rightarrow> int \<times> dev_states \<times> 's" where
  "do_device_init dev_fn fn dev s =
     (let (rc, states, st) =
        (if fn \<noteq> NULL
         then (let (rc, st) = dev_fn fn dev (fst s) (snd s)
               in if rc \<noteq> 0
                  then (let rc = (if rc < 0 then - rc else rc);
                            rc = (if rc > 255 then 255 else rc)
                        in (rc, (fst s)(dev := (fst s dev)\<lparr>init_res := of_int rc\<rparr>), st))
                  else (rc, fst s, st))
         else (0, fst s, snd s))
      in (rc, states(dev := (states dev)\<lparr>initialized := True\<rparr>), st))"

definition run_entry :: "'s dev_fns \<Rightarrow> 's sys_fns \<Rightarrow> init_entry \<Rightarrow> dev_states \<times> 's \<Rightarrow> dev_states \<times> 's" where
  "run_entry dev_fn sys_fn entry s =
     (case entry_dev entry of
        Some dev \<Rightarrow> snd (do_device_init dev_fn (init_fn entry) dev s)
      | None \<Rightarrow> (fst s, snd (sys_fn (init_fn entry) (fst s) (snd s))))"

text \<open>The entries of all levels are one array; the linker gives the start of each level, and the end.\<close>

datatype init_level =
  INIT_LEVEL_EARLY | INIT_LEVEL_PRE_KERNEL_1 | INIT_LEVEL_PRE_KERNEL_2 | INIT_LEVEL_POST_KERNEL | INIT_LEVEL_APPLICATION

fun level_index :: "init_level \<Rightarrow> nat" where
  "level_index INIT_LEVEL_EARLY = 0"
| "level_index INIT_LEVEL_PRE_KERNEL_1 = 1"
| "level_index INIT_LEVEL_PRE_KERNEL_2 = 2"
| "level_index INIT_LEVEL_POST_KERNEL = 3"
| "level_index INIT_LEVEL_APPLICATION = 4"

definition z_sys_init_run_level ::
    "'s dev_fns \<Rightarrow> 's sys_fns \<Rightarrow> init_entry list \<Rightarrow> nat list \<Rightarrow> init_level \<Rightarrow> dev_states \<times> 's \<Rightarrow> dev_states \<times> 's" where
  "z_sys_init_run_level dev_fn sys_fn entries levels level s =
     (let first = levels ! level_index level; end = levels ! (level_index level + 1)
      in fold (run_entry dev_fn sys_fn) (take (end - first) (drop first entries)) s)"

text \<open>The levels before the first thread runs, and those the main thread runs.\<close>

definition z_cstart_levels ::
    "'s dev_fns \<Rightarrow> 's sys_fns \<Rightarrow> init_entry list \<Rightarrow> nat list \<Rightarrow> dev_states \<times> 's \<Rightarrow> dev_states \<times> 's" where
  "z_cstart_levels dev_fn sys_fn entries levels s =
     (let s = z_sys_init_run_level dev_fn sys_fn entries levels INIT_LEVEL_EARLY s;
          s = z_sys_init_run_level dev_fn sys_fn entries levels INIT_LEVEL_PRE_KERNEL_1 s
      in z_sys_init_run_level dev_fn sys_fn entries levels INIT_LEVEL_PRE_KERNEL_2 s)"

definition bg_thread_main_levels ::
    "'s dev_fns \<Rightarrow> 's sys_fns \<Rightarrow> init_entry list \<Rightarrow> nat list \<Rightarrow> dev_states \<times> 's \<Rightarrow> dev_states \<times> 's" where
  "bg_thread_main_levels dev_fn sys_fn entries levels s =
     (let s = z_sys_init_run_level dev_fn sys_fn entries levels INIT_LEVEL_POST_KERNEL s
      in z_sys_init_run_level dev_fn sys_fn entries levels INIT_LEVEL_APPLICATION s)"

text \<open>\<^verbatim>\<open>device_init\<close>, with the array of entries whose initialisation is deferred.\<close>

definition device_init :: "'s dev_fns \<Rightarrow> init_entry list \<Rightarrow> dev option \<Rightarrow> dev_states \<times> 's \<Rightarrow> retval \<times> dev_states \<times> 's" where
  "device_init dev_fn deferred dev s =
     (case dev of
        None \<Rightarrow> (Inl ENOENT, s)
      | Some d \<Rightarrow>
          (case find (\<lambda>entry. entry_dev entry = dev) deferred of
             Some entry \<Rightarrow> (let (rc, s) = do_device_init dev_fn (init_fn entry) d s in (Inr rc, s))
           | None \<Rightarrow> (Inl ENOENT, s)))"

subsection \<open>Looking up devices\<close>

definition device_is_ready :: "dev_states \<Rightarrow> dev option \<Rightarrow> bool" where
  "device_is_ready states dev = (case dev of None \<Rightarrow> False | Some d \<Rightarrow> initialized (states d) \<and> init_res (states d) = 0)"

text \<open>\<open>names\<close> are the addresses of the names of the devices, and \<open>str\<close> gives the string at an address.\<close>

definition device_get_binding :: "addr list \<Rightarrow> (addr \<Rightarrow> string) \<Rightarrow> dev_states \<Rightarrow> addr \<Rightarrow> dev option" where
  "device_get_binding names str states name =
     (if name = NULL \<or> str name = [] then None
      else case find (\<lambda>d. device_is_ready states (Some d) \<and> names ! d = name) [0..<length names] of
             Some d \<Rightarrow> Some d
           | None \<Rightarrow> find (\<lambda>d. device_is_ready states (Some d) \<and> str name = str (names ! d)) [0..<length names])"

text \<open>\<open>labels\<close> are the node labels of each device.\<close>

definition device_get_by_dt_nodelabel :: "string list list \<Rightarrow> dev_states \<Rightarrow> string option \<Rightarrow> dev option" where
  "device_get_by_dt_nodelabel labels states nodelabel =
     (case nodelabel of
        None \<Rightarrow> None
      | Some l \<Rightarrow>
          if l = [] then None
          else find (\<lambda>d. device_is_ready states (Some d) \<and> l \<in> set (labels ! d)) [0..<length labels])"

subsection \<open>Dependencies\<close>

text \<open>A handle is a 16-bit number; \<open>numdev\<close> is the number of devices.\<close>

abbreviation (input) DEVICE_HANDLE_NULL :: int where "DEVICE_HANDLE_NULL \<equiv> 0"
abbreviation (input) Z_DEVICE_DEPS_SEP :: int where "Z_DEVICE_DEPS_SEP \<equiv> - 32768"
abbreviation (input) Z_DEVICE_DEPS_ENDS :: int where "Z_DEVICE_DEPS_ENDS \<equiv> 32767"

definition to_int16 :: "int \<Rightarrow> int" where
  "to_int16 n = signed_take_bit 15 n"

definition device_handle_get :: "dev option \<Rightarrow> int" where
  "device_handle_get dev = (case dev of None \<Rightarrow> DEVICE_HANDLE_NULL | Some d \<Rightarrow> to_int16 (1 + to_int16 (int d)))"

definition device_from_handle :: "nat \<Rightarrow> int \<Rightarrow> dev option" where
  "device_from_handle numdev dev_handle =
     (if dev_handle > 0 \<and> nat dev_handle \<le> numdev then Some (nat dev_handle - 1) else None)"

text \<open>
  The handles of a device are the list from the pointer on; the loops over them are \<open>None\<close> when they leave it.
\<close>

fun deps_count :: "(int \<Rightarrow> bool) \<Rightarrow> int list \<Rightarrow> nat option" where
  "deps_count stop [] = None"
| "deps_count stop (h # hs) = (if stop h then Some 0 else map_option Suc (deps_count stop hs))"

fun deps_skip :: "nat \<Rightarrow> int list \<Rightarrow> int list option" where
  "deps_skip 0 hs = Some hs"
| "deps_skip (Suc n) [] = None"
| "deps_skip (Suc n) (h # hs) = deps_skip (if h = Z_DEVICE_DEPS_SEP then n else Suc n) hs"

definition deps_region :: "nat \<Rightarrow> (int \<Rightarrow> bool) \<Rightarrow> int list \<Rightarrow> int list option" where
  "deps_region n stop deps = Option.bind (deps_skip n deps) (\<lambda>rv. map_option (\<lambda>i. take i rv) (deps_count stop rv))"

definition device_required_handles_get :: "int list option \<Rightarrow> int list option" where
  "device_required_handles_get deps =
     (case deps of None \<Rightarrow> Some [] | Some rv \<Rightarrow> deps_region 0 (\<lambda>h. h = Z_DEVICE_DEPS_ENDS \<or> h = Z_DEVICE_DEPS_SEP) rv)"

definition device_injected_handles_get :: "int list option \<Rightarrow> int list option" where
  "device_injected_handles_get deps =
     (case deps of None \<Rightarrow> Some [] | Some rv \<Rightarrow> deps_region 1 (\<lambda>h. h = Z_DEVICE_DEPS_ENDS \<or> h = Z_DEVICE_DEPS_SEP) rv)"

definition device_supported_handles_get :: "int list option \<Rightarrow> int list option" where
  "device_supported_handles_get deps =
     (case deps of None \<Rightarrow> Some [] | Some rv \<Rightarrow> deps_region 2 (\<lambda>h. h = Z_DEVICE_DEPS_ENDS \<or> h = DEVICE_HANDLE_NULL) rv)"

text \<open>The visitor gets the device of each handle and a state; a negative result ends the walk.\<close>

fun visit_loop :: "nat \<Rightarrow> (dev option \<Rightarrow> 'c \<Rightarrow> int \<times> 'c) \<Rightarrow> int list \<Rightarrow> int \<Rightarrow> 'c \<Rightarrow> int \<times> 'c" where
  "visit_loop numdev visitor_cb [] n context = (n, context)"
| "visit_loop numdev visitor_cb (dh # handles) n context =
     (let (rc, context) = visitor_cb (device_from_handle numdev dh) context
      in if rc < 0 then (rc, context) else visit_loop numdev visitor_cb handles n context)"

definition device_visitor :: "nat \<Rightarrow> int list \<Rightarrow> (dev option \<Rightarrow> 'c \<Rightarrow> int \<times> 'c) \<Rightarrow> 'c \<Rightarrow> int \<times> 'c" where
  "device_visitor numdev handles visitor_cb context = visit_loop numdev visitor_cb handles (int (length handles)) context"

definition device_required_foreach ::
    "nat \<Rightarrow> int list option \<Rightarrow> (dev option \<Rightarrow> 'c \<Rightarrow> int \<times> 'c) \<Rightarrow> 'c \<Rightarrow> (int \<times> 'c) option" where
  "device_required_foreach numdev deps visitor_cb context =
     map_option (\<lambda>handles. device_visitor numdev handles visitor_cb context) (device_required_handles_get deps)"

definition device_supported_foreach ::
    "nat \<Rightarrow> int list option \<Rightarrow> (dev option \<Rightarrow> 'c \<Rightarrow> int \<times> 'c) \<Rightarrow> 'c \<Rightarrow> (int \<times> 'c) option" where
  "device_supported_foreach numdev deps visitor_cb context =
     map_option (\<lambda>handles. device_visitor numdev handles visitor_cb context) (device_supported_handles_get deps)"

subsection \<open>The init levels run every entry once, in order\<close>

lemma run_level_fold:
  assumes "levels ! level_index level \<le> levels ! (level_index level + 1)"
  shows "z_sys_init_run_level dev_fn sys_fn entries levels level
      (fold (run_entry dev_fn sys_fn) (take (levels ! level_index level) entries) s) =
    fold (run_entry dev_fn sys_fn) (take (levels ! (level_index level + 1)) entries) s"
proof -
  have "take (levels ! (level_index level + 1)) entries = take (levels ! level_index level) entries @
      take (levels ! (level_index level + 1) - levels ! level_index level) (drop (levels ! level_index level) entries)"
    using assms by (metis le_add_diff_inverse take_add)
  then show ?thesis
    by (simp add: z_sys_init_run_level_def Let_def)
qed

lemma levels_run_all:
  assumes "length levels = 6" and "sorted levels" and "levels ! 0 = 0" and "levels ! 5 = length entries"
  shows "bg_thread_main_levels dev_fn sys_fn entries levels (z_cstart_levels dev_fn sys_fn entries levels s) =
    fold (run_entry dev_fn sys_fn) entries s"
proof -
  have "levels ! level_index level \<le> levels ! (level_index level + 1)" for level
    using assms(1,2) by (cases level) (simp_all add: sorted_nth_mono)
  then have run: "z_sys_init_run_level dev_fn sys_fn entries levels level
        (fold (run_entry dev_fn sys_fn) (take (levels ! level_index level) entries) s) =
      fold (run_entry dev_fn sys_fn) (take (levels ! (level_index level + 1)) entries) s" for level
    by (rule run_level_fold)
  show ?thesis
    using run [of INIT_LEVEL_EARLY] run [of INIT_LEVEL_PRE_KERNEL_1] run [of INIT_LEVEL_PRE_KERNEL_2]
      run [of INIT_LEVEL_POST_KERNEL] run [of INIT_LEVEL_APPLICATION] assms(3,4)
    by (simp add: bg_thread_main_levels_def z_cstart_levels_def numeral_eq_Suc)
qed

subsection \<open>What the init functions return\<close>

text \<open>The devices in the order of their initialisation, with what their init functions return there.\<close>

fun init_results :: "'s dev_fns \<Rightarrow> 's sys_fns \<Rightarrow> init_entry list \<Rightarrow> dev_states \<times> 's \<Rightarrow> (dev \<times> int) list" where
  "init_results dev_fn sys_fn [] s = []"
| "init_results dev_fn sys_fn (entry # entries) s =
     (case entry_dev entry of
        Some dev \<Rightarrow> [(dev, if init_fn entry \<noteq> NULL then fst (dev_fn (init_fn entry) dev (fst s) (snd s)) else 0)]
      | None \<Rightarrow> []) @ init_results dev_fn sys_fn entries (run_entry dev_fn sys_fn entry s)"

definition recorded :: "int \<Rightarrow> device_state \<Rightarrow> device_state" where
  "recorded rc st = st\<lparr>init_res := if rc = 0 then init_res st else of_int (min 255 \<bar>rc\<bar>), initialized := True\<rparr>"

lemma do_device_init_state:
  "fst (snd (do_device_init dev_fn fn dev s)) =
     (fst s)(dev := recorded (if fn \<noteq> NULL then fst (dev_fn fn dev (fst s) (snd s)) else 0) (fst s dev))"
  by (auto simp: do_device_init_def recorded_def Let_def min_def split: prod.split)

lemma do_device_init_result:
  "fst (do_device_init dev_fn fn dev s) = min 255 \<bar>if fn \<noteq> NULL then fst (dev_fn fn dev (fst s) (snd s)) else 0\<bar>"
  by (auto simp: do_device_init_def Let_def min_def split: prod.split)

lemma recorded_ready:
  "device_is_ready (states(d := recorded rc st)) (Some d) \<longleftrightarrow> rc = 0 \<and> init_res st = 0"
proof -
  have "(of_int (min 255 \<bar>rc\<bar>) :: u8) \<noteq> 0" if "rc \<noteq> 0"
    using that by (simp add: word_of_int_eq_0_iff zdvd_not_zless)
  then show ?thesis
    by (simp add: device_is_ready_def recorded_def)
qed

lemma init_results_devices: "map fst (init_results dev_fn sys_fn entries s) = List.map_filter entry_dev entries"
  by (induction entries arbitrary: s) (auto simp: List.map_filter_simps split: option.split)

lemma run_entries_state:
  "distinct (List.map_filter entry_dev entries) \<Longrightarrow>
   fst (fold (run_entry dev_fn sys_fn) entries s) d =
     (case map_of (init_results dev_fn sys_fn entries s) d of None \<Rightarrow> fst s d | Some rc \<Rightarrow> recorded rc (fst s d))"
proof (induction entries arbitrary: s)
  case (Cons entry entries)
  show ?case
  proof (cases "entry_dev entry")
    case (Some dev)
    have "map_of (init_results dev_fn sys_fn entries (run_entry dev_fn sys_fn entry s)) dev = None"
      using Cons.prems Some by (simp add: map_of_eq_None_iff init_results_devices flip: set_map)
    then show ?thesis
      using Cons Some by (auto simp: List.map_filter_simps run_entry_def do_device_init_state split: option.split)
  qed (use Cons in \<open>simp add: List.map_filter_simps run_entry_def split: option.split\<close>)
qed simp

subsection \<open>Looking up\<close>

lemma get_binding_correct:
  assumes "name \<noteq> NULL" and "str name \<noteq> []"
  shows "device_get_binding names str states name = Some d \<Longrightarrow>
      d < length names \<and> device_is_ready states (Some d) \<and> str (names ! d) = str name"
    and "device_get_binding names str states name = None \<longleftrightarrow>
      (\<forall>d < length names. device_is_ready states (Some d) \<longrightarrow> str (names ! d) \<noteq> str name)"
  using assms by (auto simp: device_get_binding_def find_None_iff find_Some_iff split: option.splits)

lemma handle_roundtrip: "d < 32766 \<Longrightarrow> d < numdev \<Longrightarrow> device_from_handle numdev (device_handle_get (Some d)) = Some d"
  by (simp add: device_from_handle_def device_handle_get_def to_int16_def signed_take_bit_int_eq_self nat_add_distrib)

subsection \<open>Properties\<close>

text \<open>C39: The init levels run every entry once, in the order of the section; a device is ready after the start exactly when it has
  an entry whose init function returned 0 there, and otherwise the state keeps its error, as a positive number
  limited to 255.\<close>

theorem device_ready_after_start:
  assumes "length levels = 6" and "sorted levels" and "levels ! 0 = 0" and "levels ! 5 = length entries"
    and "distinct (List.map_filter entry_dev entries)" and "\<And>d. states d = \<lparr>init_res = 0, initialized = False\<rparr>"
  shows "bg_thread_main_levels dev_fn sys_fn entries levels (z_cstart_levels dev_fn sys_fn entries levels (states, st)) =
      fold (run_entry dev_fn sys_fn) entries (states, st) \<and>
    (device_is_ready (fst (fold (run_entry dev_fn sys_fn) entries (states, st))) (Some d) \<longleftrightarrow>
      (d, 0) \<in> set (init_results dev_fn sys_fn entries (states, st))) \<and>
    (\<forall>rc. (d, rc) \<in> set (init_results dev_fn sys_fn entries (states, st)) \<longrightarrow>
      init_res (fst (fold (run_entry dev_fn sys_fn) entries (states, st)) d) = of_int (min 255 \<bar>rc\<bar>))"
proof -
  let ?r = "init_results dev_fn sys_fn entries (states, st)"
  let ?f = "fst (fold (run_entry dev_fn sys_fn) entries (states, st))"
  have "distinct (map fst ?r)"
    using assms(5) by (simp add: init_results_devices)
  then have m: "(d, rc) \<in> set ?r \<longleftrightarrow> map_of ?r d = Some rc" for rc
    by simp
  have d: "?f d = (case map_of ?r d of None \<Rightarrow> states d | Some rc \<Rightarrow> recorded rc (states d))"
    using run_entries_state [OF assms(5), of dev_fn sys_fn "(states, st)" d] unfolding fst_conv .
  have "device_is_ready ?f (Some d) \<longleftrightarrow> map_of ?r d = Some 0"
    using d recorded_ready [of states d _ "states d"] assms(6)
    by (cases "map_of ?r d") (auto simp: device_is_ready_def)
  moreover have "init_res (?f d) = of_int (min 255 \<bar>rc\<bar>)" if "map_of ?r d = Some rc" for rc
    using that d assms(6) by (simp add: recorded_def)
  ultimately show ?thesis
    using levels_run_all [OF assms(1-4)] m by simp
qed

theorem device_ready_after_start_witness:
  "\<not> device_is_ready (fst (fold (run_entry (\<lambda>f d states n. (if d = 1 then - 5 else 0, n + f)) (\<lambda>f states n. (0, n)))
     [\<lparr>init_fn = 8, entry_dev = Some 0\<rparr>, \<lparr>init_fn = 16, entry_dev = None\<rparr>, \<lparr>init_fn = 24, entry_dev = Some 1\<rparr>]
     (\<lambda>d. \<lparr>init_res = 0, initialized = False\<rparr>, 0))) (Some 1)"
proof -
  let ?e = "[\<lparr>init_fn = 8, entry_dev = Some 0\<rparr>, \<lparr>init_fn = 16, entry_dev = None\<rparr>, \<lparr>init_fn = 24, entry_dev = Some 1\<rparr>]"
  let ?f = "\<lambda>f d (states :: dev_states) (n :: nat). (if d = (1 :: dev) then - 5 else 0 :: int, n + f)"
  let ?g = "\<lambda>(f :: nat) (states :: dev_states) (n :: nat). (0 :: int, n)"
  let ?s = "(\<lambda>d. \<lparr>init_res = 0, initialized = False\<rparr>) :: dev_states"
  have h: "length [0, 0, 1, 2, 3, 3 :: nat] = 6" "sorted [0, 0, 1, 2, 3, 3 :: nat]" "[0, 0, 1, 2, 3, 3] ! 0 = (0 :: nat)"
      "[0, 0, 1, 2, 3, 3] ! 5 = length ?e" "distinct (List.map_filter entry_dev ?e)" "?s d = \<lparr>init_res = 0, initialized = False\<rparr>" for d
    by (simp_all add: List.map_filter_simps)
  have r: "(1, 0) \<notin> set (init_results ?f ?g ?e (?s, 0))"
    by code_simp
  show ?thesis
    unfolding conjunct1 [OF conjunct2 [OF device_ready_after_start [OF h, of ?f ?g 0 1]]] by (rule r)
qed

text \<open>C40: A deferred initialisation runs the init function of the first entry of the device and returns its result as a positive
  number limited to 255, 0 for success or if there is no function.  It marks the device initialised and records the
  error, but a success leaves the recorded result as it was: the device is ready exactly if the call succeeded and no
  earlier attempt had failed, so a device that failed once is never ready again.  No other device changes.\<close>

theorem device_init_deferred:
  assumes "deferred = before @ entry # after" and "entry_dev entry = Some d" and "\<forall>e \<in> set before. entry_dev e \<noteq> Some d"
    and "(r, st') = (if init_fn entry \<noteq> NULL then dev_fn (init_fn entry) d (fst s) (snd s) else (0, snd s))"
  shows "\<exists>states'. device_init dev_fn deferred (Some d) s = (Inr (min 255 \<bar>r\<bar>), states', st') \<and>
    initialized (states' d) \<and> init_res (states' d) = (if r = 0 then init_res (fst s d) else of_int (min 255 \<bar>r\<bar>)) \<and>
    (device_is_ready states' (Some d) \<longleftrightarrow> r = 0 \<and> init_res (fst s d) = 0) \<and>
    (\<forall>d'. d' \<noteq> d \<longrightarrow> states' d' = fst s d')"
proof -
  have e: "find (\<lambda>entry. entry_dev entry = Some d) deferred = Some entry"
    using assms(2,3) unfolding assms(1) by (induction before) auto
  have "r = (if init_fn entry \<noteq> NULL then fst (dev_fn (init_fn entry) d (fst s) (snd s)) else 0)"
    using arg_cong [OF assms(4), of fst] by (simp split: if_splits)
  moreover have "snd (snd (do_device_init dev_fn (init_fn entry) d s)) = st'"
    using arg_cong [OF assms(4), of snd] by (auto simp: do_device_init_def Let_def split: prod.split if_splits)
  ultimately have "do_device_init dev_fn (init_fn entry) d s = (min 255 \<bar>r\<bar>, (fst s)(d := recorded r (fst s d)), st')"
    using do_device_init_state [of dev_fn "init_fn entry" d s] do_device_init_result [of dev_fn "init_fn entry" d s]
    by (simp add: prod_eq_iff)
  then show ?thesis
    by (simp add: device_init_def e recorded_ready) (simp add: recorded_def)
qed

theorem device_init_deferred_witness:
  "\<exists>states'. device_init (\<lambda>f d states n. (0, n + f)) [\<lparr>init_fn = 8, entry_dev = Some 0\<rparr>] (Some 0)
     (\<lambda>d. \<lparr>init_res = 5, initialized = True\<rparr>, 1) = (Inr 0, states', 9) \<and> \<not> device_is_ready states' (Some 0) \<and>
     init_res (states' 0) = 5"
  using device_init_deferred [of "[\<lparr>init_fn = 8, entry_dev = Some 0\<rparr>]" "[]" "\<lparr>init_fn = 8, entry_dev = Some 0\<rparr>" "[]" 0 0 9
      "\<lambda>f d states n. (0, n + f)" "(\<lambda>d. \<lparr>init_res = 5, initialized = True\<rparr>, 1)"]
  by auto

end
