(* ===== verification/Timeutil.thy ===== *)
theory Timeutil
  imports Zprelude
begin

text \<open>
  Calendar time (\<^verbatim>\<open>lib/utils/timeutil.c\<close>): the conversion of a broken-down time to the seconds since the epoch.  The
  reference is the calendar itself: the rule for leap years and the day after a day.  The theory shows that the
  conversion is 0 for the epoch and grows by exactly a day's seconds from each day of the Gregorian calendar to the next.
\<close>

subsection \<open>The operations\<close>

text \<open>
  The 64-bit values are far from their bounds for every 32-bit \<^verbatim>\<open>tm_year\<close>, so they are integers; the unsigned ones are
  words.  \<^verbatim>\<open>/\<close> of the source truncates; its dividends are made non-negative multiples first, or are non-negative.
\<close>

record tm =
  tm_sec :: int
  tm_min :: int
  tm_hour :: int
  tm_mday :: int
  tm_mon :: int
  tm_year :: int

definition c_div :: "int \<Rightarrow> int \<Rightarrow> int" where
  "c_div a b = sgn a * sgn b * (\<bar>a\<bar> div \<bar>b\<bar>)"

definition time_days_from_civil :: "int \<Rightarrow> u32 \<Rightarrow> u32 \<Rightarrow> int" where
  "time_days_from_civil y m d =
     (let y = y - (if m \<le> 2 then 1 else 0);
          era = c_div (if 0 \<le> y then y else y - 399) 400;
          yoe = word_of_int (y - era * 400) :: u32;
          doy = (153 * (m + (if 2 < m then word_of_int (- 3) else 9)) + 2) div 5 + d;
          doe = yoe * 365 + yoe div 4 - yoe div 100 + doy
      in era * 146097 + uint doe - 719468)"

definition timeutil_timegm64 :: "tm \<Rightarrow> int" where
  "timeutil_timegm64 tm =
     (let y = 1900 + tm_year tm;
          m = word_of_int (tm_mon tm + 1);
          d = word_of_int (tm_mday tm - 1);
          ndays = time_days_from_civil y m d;
          time = tm_sec tm;
          time = time + 60 * (tm_min tm + 60 * tm_hour tm);
          time = time + 86400 * ndays
      in time)"

text \<open>The result and the value of \<^verbatim>\<open>errno\<close>, for a \<^verbatim>\<open>time_t\<close> of the given number of bytes, 4 or 8.\<close>

definition timeutil_timegm :: "nat \<Rightarrow> tm \<Rightarrow> int \<times> errno option" where
  "timeutil_timegm sizeof_time_t tm =
     (let time = timeutil_timegm64 tm
      in if sizeof_time_t = 4 \<and> (time < - (2 ^ 31) \<or> time > 2 ^ 31 - 1) then (- 1, Some ERANGE) else (time, None))"

subsection \<open>The calendar\<close>

definition leap_year :: "int \<Rightarrow> bool" where
  "leap_year y \<longleftrightarrow> 4 dvd y \<and> (\<not> 100 dvd y \<or> 400 dvd y)"

definition days_in_month :: "int \<Rightarrow> int \<Rightarrow> int" where
  "days_in_month y m = (if m = 2 then (if leap_year y then 29 else 28) else if m \<in> {4, 6, 9, 11} then 30 else 31)"

definition valid_tm :: "tm \<Rightarrow> bool" where
  "valid_tm tm \<longleftrightarrow> 0 \<le> tm_mon tm \<and> tm_mon tm < 12 \<and> 1 \<le> tm_mday tm \<and>
     tm_mday tm \<le> days_in_month (1900 + tm_year tm) (tm_mon tm + 1)"

definition next_day :: "tm \<Rightarrow> tm" where
  "next_day tm =
     (if tm_mday tm < days_in_month (1900 + tm_year tm) (tm_mon tm + 1) then tm\<lparr>tm_mday := tm_mday tm + 1\<rparr>
      else if tm_mon tm < 11 then tm\<lparr>tm_mon := tm_mon tm + 1, tm_mday := 1\<rparr>
      else tm\<lparr>tm_year := tm_year tm + 1, tm_mon := 0, tm_mday := 1\<rparr>)"

subsection \<open>The days before a year that starts in March\<close>

definition march_days :: "int \<Rightarrow> int" where
  "march_days y = 365 * y + y div 4 - y div 100 + y div 400"

lemma div_pred: "0 < k \<Longrightarrow> y div k - (y - 1) div k = (if k dvd y then 1 else 0)" for k y :: int
proof -
  assume k: "0 < k"
  have y: "y = k * (y div k) + y mod k" "0 \<le> y mod k" "y mod k < k"
    using k by simp_all
  show ?thesis
  proof (cases "y mod k = 0")
    case True
    have "(y - 1) div k = y div k - 1"
      using y True k by (intro int_div_pos_eq [of _ _ _ "k - 1"]) (simp_all add: algebra_simps)
    then show ?thesis using True by (simp add: dvd_eq_mod_eq_0)
  next
    case False
    then have "(y - 1) div k = y div k"
      using y by (intro int_div_pos_eq [of _ _ _ "y mod k - 1"]) linarith+
    then show ?thesis using False by (simp add: dvd_eq_mod_eq_0)
  qed
qed

lemma leap_count:
  "(B \<Longrightarrow> A) \<Longrightarrow> (C \<Longrightarrow> B) \<Longrightarrow>
   365 + (if A then 1 else 0) - (if B then 1 else 0) + (if C then 1 else 0) = (if A \<and> (\<not> B \<or> C) then 366 else 365 :: int)"
  by (cases A; cases B; cases C) simp_all

lemma march_days_next: "march_days y - march_days (y - 1) = (if leap_year y then 366 else 365)"
proof -
  have d: "4 dvd (100 :: int)" "100 dvd (400 :: int)"
    by simp_all
  have sum: "365 * y + a - b + c - (365 * (y - 1) + a' - b' + c') = 365 + (a - a') - (b - b') + (c - c')" for a b c a' b' c' :: int
    by simp
  have "march_days y - march_days (y - 1) =
      365 + (y div 4 - (y - 1) div 4) - (y div 100 - (y - 1) div 100) + (y div 400 - (y - 1) div 400)"
    unfolding march_days_def by (rule sum)
  also have "\<dots> = 365 + (if 4 dvd y then 1 else 0) - (if 100 dvd y then 1 else 0) + (if 400 dvd y then 1 else 0)"
    by (subst (1 2 3) div_pred) (rule zero_less_numeral refl)+
  also have "\<dots> = (if leap_year y then 366 else 365)"
    unfolding leap_year_def by (rule leap_count; erule dvd_trans [OF d(1)] dvd_trans [OF d(2)])
  finally show ?thesis .
qed

lemma era_floor: "c_div (if 0 \<le> y then y else y - 399) 400 = y div 400"
proof (cases "0 \<le> y")
  case False
  have "(399 - y) div 400 = - (y div 400)"
    using div_mult_mod_eq [of y 400] pos_mod_bound [of 400 y] pos_mod_sign [of 400 y]
    by (intro int_div_pos_eq [of _ _ _ "399 - y mod 400"]) linarith+
  then show ?thesis using False by (simp add: c_div_def)
qed (simp add: c_div_def sgn_if)

lemma march_days_era: "march_days y = y div 400 * 146097 + (y mod 400 * 365 + y mod 400 div 4 - y mod 400 div 100)"
proof -
  have "march_days (r + 400 * e) = e * 146097 + (r * 365 + r div 4 - r div 100) + r div 400" for e r
    using div_mult_self2 [of 4 r "100 * e"] div_mult_self2 [of 100 r "4 * e"] div_mult_self2 [of 400 r e]
    by (simp add: march_days_def)
  from this [of "y mod 400" "y div 400"] show ?thesis
    by simp
qed

definition month_start :: "int \<Rightarrow> int" where
  "month_start m = (153 * (m + (if 2 < m then - 3 else 9)) + 2) div 5"

lemma months: "1 \<le> m \<Longrightarrow> m \<le> 12 \<Longrightarrow> m \<in> {1, 2, 3, 4, 5, 6, 7, 8, 9, 10, 11, 12 :: int}"
  by (simp; presburger)

lemma month_start_word:
  assumes "1 \<le> m" and "m \<le> 12"
  shows "(153 * (word_of_int m + (if 2 < (word_of_int m :: u32) then word_of_int (- 3) else 9)) + 2) div 5 =
      (word_of_int (month_start m) :: u32)"
    and "(word_of_int m :: u32) \<le> 2 \<longleftrightarrow> m \<le> 2" and "0 \<le> month_start m" and "month_start m \<le> 337"
  using months [OF assms] by (auto simp: month_start_def)

lemma word_of_int_div:
  fixes r k :: int
  assumes "0 \<le> r" and "r < 2 ^ 32" and "0 < k" and "k < 2 ^ 32"
  shows "(word_of_int r :: u32) div word_of_int k = word_of_int (r div k)"
proof -
  have "r div k < 2 ^ 32"
    using assms(1-3) zdiv_mono2 [of r 1 k] by simp
  then show ?thesis
    using assms by (simp add: word_uint_eq_iff uint_div uint_word_of_int_eq take_bit_int_eq_self pos_imp_zdiv_nonneg_iff)
qed

lemma days_from_civil:
  assumes "1 \<le> m" and "m \<le> 12" and "0 \<le> d" and "d < 31"
  shows "time_days_from_civil y (word_of_int m) (word_of_int d) =
    march_days (if m \<le> 2 then y - 1 else y) + month_start m + d - 719468"
proof -
  note m = month_start_word [OF assms(1,2)]
  define z r where "z = (if m \<le> 2 then y - 1 else y)" and "r = z mod 400"
  have r: "0 \<le> r" "r < 400" "z - z div 400 * 400 = r"
    by (simp_all add: r_def minus_div_mult_eq_mod)
  have s: "y - (if m \<le> 2 then 1 else 0) = z"
    by (simp add: z_def)
  have q: "0 \<le> r div 4" "r div 4 < 100" "0 \<le> r div 100" "r div 100 < 4"
    using r(1,2) by auto
  have w: "(word_of_int r :: u32) * 365 + word_of_int r div 4 - word_of_int r div 100 + (word_of_int (month_start m) + word_of_int d) =
      word_of_int (r * 365 + r div 4 - r div 100 + (month_start m + d))"
    using word_of_int_div [of r 4] word_of_int_div [of r 100] r by simp
  have "uint (word_of_int (r * 365 + r div 4 - r div 100 + (month_start m + d)) :: u32) =
      r * 365 + r div 4 - r div 100 + (month_start m + d)"
    using r q m(3,4) assms(3,4) by (subst uint_word_of_int_eq, intro take_bit_int_eq_self) simp_all
  then show ?thesis
    unfolding time_days_from_civil_def Let_def m(1,2) s era_floor r(3) w z_def [symmetric]
    by (simp add: march_days_era [of z] r_def)
qed

subsection \<open>The day after a day\<close>

definition civil_days :: "int \<Rightarrow> int \<Rightarrow> int \<Rightarrow> int" where
  "civil_days y m d = march_days (if m \<le> 2 then y - 1 else y) + month_start m + (d - 1) - 719468"

lemma timegm64_civil:
  assumes "valid_tm tm"
  shows "timeutil_timegm64 tm =
    tm_sec tm + 60 * tm_min tm + 3600 * tm_hour tm + 86400 * civil_days (1900 + tm_year tm) (tm_mon tm + 1) (tm_mday tm)"
proof -
  have "tm_mday tm - 1 < 31"
    using assms by (simp add: valid_tm_def days_in_month_def split: if_splits)
  then show ?thesis
    using assms days_from_civil [of "tm_mon tm + 1" "tm_mday tm - 1" "1900 + tm_year tm"]
    by (simp add: timeutil_timegm64_def civil_days_def valid_tm_def Let_def del: of_int_add of_int_diff)
qed

lemma next_month:
  assumes "1 \<le> m" and "m < 12"
  shows "civil_days y (m + 1) 1 = civil_days y m (days_in_month y m) + 1"
  using months [of m] assms march_days_next [of y]
  by (auto simp: civil_days_def month_start_def days_in_month_def)

lemma next_year: "civil_days (y + 1) 1 1 = civil_days y 12 31 + 1"
  by (simp add: civil_days_def month_start_def)

lemma next_day_valid: "valid_tm tm \<Longrightarrow> valid_tm (next_day tm)"
  by (auto simp: valid_tm_def next_day_def days_in_month_def)

subsection \<open>Properties\<close>

text \<open>C38: The conversion follows the Gregorian calendar: the epoch is 0, and for every date the next day of the calendar, over
  the ends of months, leap years and centuries, is exactly 86400 seconds later, the time of day counting its seconds.\<close>

theorem timegm_follows_calendar:
  assumes "valid_tm tm"
  shows "timeutil_timegm64 \<lparr>tm_sec = 0, tm_min = 0, tm_hour = 0, tm_mday = 1, tm_mon = 0, tm_year = 70\<rparr> = 0 \<and>
    valid_tm (next_day tm) \<and> timeutil_timegm64 (next_day tm) = timeutil_timegm64 tm + 86400 \<and>
    timeutil_timegm64 tm = timeutil_timegm64 (tm\<lparr>tm_sec := 0, tm_min := 0, tm_hour := 0\<rparr>) +
      tm_sec tm + 60 * tm_min tm + 3600 * tm_hour tm"
proof (intro conjI)
  show "timeutil_timegm64 \<lparr>tm_sec = 0, tm_min = 0, tm_hour = 0, tm_mday = 1, tm_mon = 0, tm_year = 70\<rparr> = 0"
    by code_simp
  show "timeutil_timegm64 tm = timeutil_timegm64 (tm\<lparr>tm_sec := 0, tm_min := 0, tm_hour := 0\<rparr>) +
      tm_sec tm + 60 * tm_min tm + 3600 * tm_hour tm"
    by (simp add: timeutil_timegm64_def Let_def)
  show n: "valid_tm (next_day tm)"
    using assms by (rule next_day_valid)
  let ?y = "1900 + tm_year tm" and ?m = "tm_mon tm + 1"
  have "tm_mday tm = days_in_month ?y ?m \<or> tm_mday tm < days_in_month ?y ?m" "1 \<le> ?m" "?m \<le> 12"
    using assms by (auto simp: valid_tm_def)
  moreover have "?m < 12 \<or> ?m = 12"
    using \<open>?m \<le> 12\<close> by auto
  ultimately show "timeutil_timegm64 (next_day tm) = timeutil_timegm64 tm + 86400"
    unfolding timegm64_civil [OF assms] timegm64_civil [OF n]
    using next_month [of ?m ?y] next_year [of ?y]
    by (auto simp: next_day_def days_in_month_def civil_days_def algebra_simps)
qed

theorem timegm_follows_calendar_witness:
  "timeutil_timegm64 \<lparr>tm_sec = 5, tm_min = 0, tm_hour = 12, tm_mday = 1, tm_mon = 2, tm_year = 100\<rparr> =
   timeutil_timegm64 \<lparr>tm_sec = 5, tm_min = 0, tm_hour = 12, tm_mday = 29, tm_mon = 1, tm_year = 100\<rparr> + 86400"
proof -
  let ?d = "\<lparr>tm_sec = 5, tm_min = 0, tm_hour = 12, tm_mday = 29, tm_mon = 1, tm_year = 100\<rparr>"
  have "valid_tm ?d" "next_day ?d = \<lparr>tm_sec = 5, tm_min = 0, tm_hour = 12, tm_mday = 1, tm_mon = 2, tm_year = 100\<rparr>"
    by code_simp+
  then show ?thesis
    using timegm_follows_calendar [of ?d] by simp
qed

end
