(* ===== verification/Encoding.thy ===== *)
theory Encoding
  imports Zprelude
begin

text \<open>
  Text encodings of \<^verbatim>\<open>lib/utils\<close>: hexadecimal (\<^verbatim>\<open>hex.c\<close>), decimal (\<^verbatim>\<open>dec.c\<close>), base64 (\<^verbatim>\<open>base64.c\<close>) and
  the truncation of UTF-8 strings (\<^verbatim>\<open>utf8.c\<close>).  Buffers are lists of bytes: an input buffer with its
  length, the bytes written to an output buffer as a result.  The encoders and decoders are shown to be
  inverse to each other.
\<close>

subsection \<open>Hexadecimal\<close>

definition char2hex :: "u8 \<Rightarrow> errno + u8" where
  "char2hex c =
     (if c \<ge> 0x30 \<and> c \<le> 0x39 then Inr (c - 0x30)
      else if c \<ge> 0x61 \<and> c \<le> 0x66 then Inr (c - 0x61 + 10)
      else if c \<ge> 0x41 \<and> c \<le> 0x46 then Inr (c - 0x41 + 10)
      else Inl EINVAL)"

definition hex2char :: "u8 \<Rightarrow> errno + u8" where
  "hex2char x =
     (if x \<le> 9 then Inr (x + 0x30)
      else if x \<le> 15 then Inr (x - 10 + 0x61)
      else Inl EINVAL)"

text \<open>The loops yield whether they ran to the end and the bytes they wrote before they left.\<close>

fun bin2hex_loop :: "u8 list \<Rightarrow> bool \<times> u8 list" where
  "bin2hex_loop [] = (True, [])"
| "bin2hex_loop (b # buf) =
     (case hex2char (drop_bit 4 b) of
        Inl _ \<Rightarrow> (False, [])
      | Inr hi \<Rightarrow>
          (case hex2char (b AND 0xf) of
             Inl _ \<Rightarrow> (False, [hi])
           | Inr lo \<Rightarrow> (let (done, hex) = bin2hex_loop buf in (done, hi # lo # hex))))"

text \<open>The returned length and the characters written; \<^verbatim>\<open>size_t\<close> has 32 bits.\<close>

definition bin2hex :: "u8 list \<Rightarrow> nat \<Rightarrow> nat \<times> u8 list" where
  "bin2hex buf hexlen =
     (if hexlen < (length buf * 2 + 1) mod 2 ^ 32 then (0, [])
      else let (done, hex) = bin2hex_loop buf
           in if done then (2 * length buf, hex @ [0]) else (0, hex))"

fun hex2bin_loop :: "u8 list \<Rightarrow> bool \<times> u8 list" where
  "hex2bin_loop (h # l # hex) =
     (case char2hex h of
        Inl _ \<Rightarrow> (False, [])
      | Inr hi \<Rightarrow>
          (case char2hex l of
             Inl _ \<Rightarrow> (False, [push_bit 4 hi])
           | Inr lo \<Rightarrow> (let (done, buf) = hex2bin_loop hex in (done, (push_bit 4 hi + lo) # buf))))"
| "hex2bin_loop _ = (True, [])"

definition hex2bin :: "u8 list \<Rightarrow> nat \<Rightarrow> nat \<times> u8 list" where
  "hex2bin hex buflen =
     (let hexlen = length hex; n = hexlen div 2 + hexlen mod 2
      in if buflen < n then (0, [])
         else if hexlen mod 2 \<noteq> 0
         then (case char2hex (hd hex) of
                 Inl _ \<Rightarrow> (0, [])
               | Inr dec \<Rightarrow>
                   (let (done, buf) = hex2bin_loop (tl hex) in (if done then n else 0, dec # buf)))
         else (let (done, buf) = hex2bin_loop hex in (if done then n else 0, buf)))"

subsection \<open>Decimal\<close>

text \<open>\<^verbatim>\<open>u8_to_dec\<close>: the loop yields the room left and the digits written.\<close>

function u8_to_dec_loop :: "u8 \<Rightarrow> u8 \<Rightarrow> u8 \<Rightarrow> u8 list \<Rightarrow> u8 \<times> u8 list" where
  "u8_to_dec_loop buflen divisor v buf =
     (if buflen > 0 \<and> divisor > 0
      then let digit = v div divisor;
               put = digit \<noteq> 0 \<or> divisor = 1 \<or> buf \<noteq> []
           in u8_to_dec_loop (if put then buflen - 1 else buflen) (divisor div 10) (v - digit * divisor)
                (if put then buf @ [digit + 0x30] else buf)
      else (buflen, buf))"
  by auto

termination
proof (relation "measure (\<lambda>(_, divisor, _, _). unat divisor)", goal_cases)
  case (2 buflen divisor v buf digit put)
  then have "0 < unat divisor" by (simp add: word_less_nat_alt)
  then show ?case by (simp add: unat_div)
qed simp

declare u8_to_dec_loop.simps [simp del]

definition u8_to_dec :: "u8 \<Rightarrow> u8 \<Rightarrow> nat \<times> u8 list" where
  "u8_to_dec buflen v =
     (let (left, buf) = u8_to_dec_loop buflen 100 v []
      in (length buf, if left \<noteq> 0 then buf @ [0] else buf))"

subsection \<open>Hexadecimal text read back\<close>

lemma hex_digit_inverse:
  "x < 16 \<Longrightarrow> case hex2char x of Inr c \<Rightarrow> char2hex c = Inr x | Inl _ \<Rightarrow> False" for x :: u8
proof -
  assume "x < 16"
  then have "0 \<le> uint x" "uint x \<le> 15" by (simp_all add: word_less_def)
  moreover have "list_all (\<lambda>k. case hex2char (word_of_int k) of Inr c \<Rightarrow> char2hex c = Inr (word_of_int k)
                               | Inl _ \<Rightarrow> False) [0..15]"
    by code_simp
  ultimately have "case hex2char (word_of_int (uint x)) of Inr c \<Rightarrow> char2hex c = Inr (word_of_int (uint x)) | Inl _ \<Rightarrow> False"
    by (auto simp only: list_all_iff set_upto atLeastAtMost_iff)
  then show ?thesis by (simp only: word_of_int_uint)
qed

lemma u8_nibbles: "push_bit 4 (drop_bit 4 b) + (b AND 0xf) = b" for b :: u8
proof -
  have "b AND 0xf = take_bit 4 b" by (simp add: take_bit_eq_mask mask_eq_exp_minus_1)
  then show ?thesis by (simp add: bits_ident)
qed

lemma u8_nibbles_less: "drop_bit 4 b < 16" "b AND 0xf < 16" for b :: u8
proof -
  show "drop_bit 4 b < 16"
    using unsigned_less [of b, where 'a = nat] by (simp add: word_less_nat_alt drop_bit_eq_div unat_div)
  show "b AND 0xf < 16"
    using word_and_le1 [of b "0xf"] by (simp add: order_le_less_trans)
qed

lemma bin2hex_loop_inverse:
  "\<exists>hex. bin2hex_loop buf = (True, hex) \<and> length hex = 2 * length buf \<and> hex2bin_loop hex = (True, buf)"
proof (induction buf)
  case (Cons b buf)
  then show ?case
    using hex_digit_inverse [OF u8_nibbles_less(1) [of b]] hex_digit_inverse [OF u8_nibbles_less(2) [of b]]
    by (auto simp: u8_nibbles split: sum.splits)
qed simp

text \<open>The values of hexadecimal digits, and of a text or a buffer read as one number.\<close>

definition hex_value :: "u8 \<Rightarrow> nat option" where
  "hex_value c = map_of (zip (map of_char ''0123456789abcdefABCDEF'') ([0..<16] @ [10..<16])) c"

definition number_of :: "nat \<Rightarrow> nat list \<Rightarrow> nat" where
  "number_of base ds = foldl (\<lambda>n d. base * n + d) 0 ds"

lemma hex_value_table:
  "list_all (\<lambda>i. case hex_value (of_nat i) of None \<Rightarrow> char2hex (of_nat i) = Inl EINVAL
     | Some v \<Rightarrow> char2hex (of_nat i) = Inr (of_nat v) \<and> v < 16) [0..<256]"
  by code_simp

lemma char2hex_value:
  "case hex_value c of None \<Rightarrow> char2hex c = Inl EINVAL | Some v \<Rightarrow> char2hex c = Inr (of_nat v) \<and> v < 16"
proof -
  have "unat c \<in> set [0..<256]"
    using unsigned_less [of c, where 'a = nat] by simp
  then show ?thesis
    using hex_value_table unfolding list_all_iff by (elim ballE [of _ _ "unat c"]) (simp_all split: option.splits)
qed

lemma nibbles_value: "hi < 16 \<Longrightarrow> lo < 16 \<Longrightarrow> unat (push_bit 4 (of_nat hi) + of_nat lo :: u8) = 16 * hi + lo"
proof -
  assume "hi < 16" "lo < 16"
  moreover have "push_bit 4 (of_nat hi) + of_nat lo = (of_nat (16 * hi + lo) :: u8)"
    by (simp add: push_bit_eq_mult)
  ultimately show ?thesis
    by (simp add: unsigned_of_nat take_bit_nat_eq_self del: of_nat_add of_nat_mult)
qed

lemma hex2bin_loop_value:
  "hex2bin_loop hex = (ok, buf) \<Longrightarrow> even (length hex) \<Longrightarrow>
     ok = (\<forall>c \<in> set hex. hex_value c \<noteq> None) \<and> length buf \<le> length hex div 2
     \<and> (ok \<longrightarrow> length buf = length hex div 2 \<and>
        (\<forall>x. foldl (\<lambda>n b. 256 * n + unat b) x buf = foldl (\<lambda>n c. 16 * n + the (hex_value c)) x hex))"
proof (induction hex arbitrary: buf ok rule: hex2bin_loop.induct)
  case (1 h l hex)
  obtain ok' buf' where r: "hex2bin_loop hex = (ok', buf')" by fastforce
  show ?case
  proof (cases "hex_value h")
    case None
    then show ?thesis using 1 char2hex_value [of h] by auto
  next
    case h: (Some vh)
    then have ch: "char2hex h = Inr (of_nat vh)" "vh < 16" using char2hex_value [of h] by auto
    show ?thesis
    proof (cases "hex_value l")
      case None
      then show ?thesis using 1(2) ch char2hex_value [of l] by auto
    next
      case (Some vl)
      then have cl: "char2hex l = Inr (of_nat vl)" "vl < 16" using char2hex_value [of l] by auto
      show ?thesis
        using 1(1) [OF ch(1) cl(1) r] 1(2,3) h Some ch cl r nibbles_value [OF ch(2) cl(2)] by (auto simp: algebra_simps)
    qed
  qed
qed simp_all

text \<open>C18: A buffer converted to hexadecimal text by \<^verbatim>\<open>bin2hex\<close>, with room for the text and its NUL, is
  recovered from that text by \<^verbatim>\<open>hex2bin\<close>: both report the full length, and the bytes are the original
  ones.\<close>

theorem hex_roundtrip:
  assumes "length buf < 2 ^ 31" "2 * length buf < hexlen" "length buf \<le> buflen"
  shows "\<exists>hex. bin2hex buf hexlen = (2 * length buf, hex @ [0]) \<and> length hex = 2 * length buf
           \<and> hex2bin hex buflen = (length buf, buf)"
proof -
  obtain hex where h: "bin2hex_loop buf = (True, hex)" "length hex = 2 * length buf"
      "hex2bin_loop hex = (True, buf)"
    using bin2hex_loop_inverse by blast
  have "(length buf * 2 + 1) mod 2 ^ 32 = length buf * 2 + 1" using assms(1) by simp
  then show ?thesis using h assms by (auto simp: bin2hex_def hex2bin_def Let_def)
qed

theorem hex_roundtrip_witness:
  "\<exists>hex. bin2hex [0xde] 3 = (2, hex @ [0]) \<and> length hex = 2 \<and> hex2bin hex 1 = (1, [0xde])"
  using hex_roundtrip [of "[0xde]" 3 1] by simp

text \<open>C19: \<^verbatim>\<open>hex2bin\<close> accepts exactly the texts whose every character is one of the digits 0 to 9, a to f and A to F, and
  that fit the buffer; it then reports half the length, rounded up, and has written that many bytes, which are the
  number the text denotes.  In every other case it reports 0.  In no case it writes more bytes than the buffer has.\<close>

theorem hex2bin_accepts:
  assumes "hex2bin hex buflen = (n, buf)"
  shows "length buf \<le> buflen
    \<and> n = (if (\<forall>c \<in> set hex. hex_value c \<noteq> None) \<and> (length hex + 1) div 2 \<le> buflen then (length hex + 1) div 2 else 0)
    \<and> (n \<noteq> 0 \<longrightarrow> length buf = n \<and> number_of 256 (map unat buf) = number_of 16 (map (the \<circ> hex_value) hex))"
proof (cases "even (length hex)")
  case True
  obtain ok b where l: "hex2bin_loop hex = (ok, b)" by fastforce
  have "(length hex + 1) div 2 = length hex div 2" using True by presburger
  then show ?thesis using assms True l hex2bin_loop_value [OF l True]
    by (auto simp: hex2bin_def Let_def number_of_def foldl_map split: if_splits)
next
  case False
  then obtain c cs where c: "hex = c # cs" "even (length cs)" by (cases hex) auto
  obtain ok b where l: "hex2bin_loop cs = (ok, b)" by fastforce
  have n: "(length hex + 1) div 2 = Suc (length cs div 2)" "length hex div 2 + length hex mod 2 = Suc (length cs div 2)"
    using False c by simp_all presburger+
  show ?thesis
  proof (cases "hex_value c")
    case None
    then show ?thesis using assms False c char2hex_value [of c] by (auto simp: hex2bin_def Let_def split: if_splits)
  next
    case (Some v)
    then have "char2hex c = Inr (of_nat v)" "v < 16" "unat (of_nat v :: u8) = v"
      using char2hex_value [of c] by (auto simp: unsigned_of_nat take_bit_nat_eq_self)
    then show ?thesis using assms False c l n Some hex2bin_loop_value [OF l c(2)]
      by (auto simp: hex2bin_def Let_def number_of_def foldl_map split: if_splits)
  qed
qed

theorem hex2bin_accepts_witness:
  "hex2bin [0x46, 0x30, 0x62] 2 = (2, [0xf, 0xb]) \<and> number_of 256 (map unat [0xf, 0xb :: u8]) = number_of 16 [15, 0, 11]"
proof -
  have h: "hex2bin [0x46, 0x30, 0x62] 2 = (2, [0xf, 0xb])" and v: "map (the \<circ> hex_value) [0x46, 0x30, 0x62] = [15, 0, 11]"
    by code_simp+
  show ?thesis using hex2bin_accepts [OF h] h v by simp
qed

subsection \<open>Decimal text\<close>


text \<open>Three rounds of the loop never run out of three or more bytes.\<close>

definition dec_digits :: "u8 \<Rightarrow> u8 list" where
  "dec_digits v =
     (let c = v div 100; r = v - c * 100; d = r div 10
      in (if c \<noteq> 0 then [c + 0x30] else []) @ (if c \<noteq> 0 \<or> d \<noteq> 0 then [d + 0x30] else []) @ [r - d * 10 + 0x30])"

lemma u8_to_dec_loop_digits:
  assumes "3 \<le> unat b"
  shows "u8_to_dec_loop b 100 v [] = (b - word_of_nat (length (dec_digits v)), dec_digits v)"
proof -
  have p: "0 < b" "0 < b - 1" "0 < b - 2"
    using assms by (auto simp: word_less_nat_alt unat_sub_if')
  show ?thesis
    apply (subst u8_to_dec_loop.simps)
    apply (subst u8_to_dec_loop.simps)
    apply (subst u8_to_dec_loop.simps)
    apply (subst u8_to_dec_loop.simps)
    apply (simp add: p dec_digits_def Let_def)
    done
qed

lemma u8_div_mod: "v div k = word_of_nat (unat v div unat k)" "v mod k = word_of_nat (unat v mod unat k)"
  "v - v div k * k = v mod k" for v k :: u8
  by (rule word_arith_nat_div word_arith_nat_mod minus_div_mult_eq_mod)+

lemma u8_of_nat_zero: "k < 256 \<Longrightarrow> (word_of_nat k = (0 :: u8)) = (k = 0)"
  by (auto simp: word_of_nat_eq_0_iff dest: nat_dvd_not_less)

lemma dec_digits_nat:
  fixes v :: u8
  defines "n \<equiv> unat v"
  shows "dec_digits v = map (\<lambda>d. word_of_nat d + 0x30)
     ((if n div 100 \<noteq> 0 then [n div 100] else []) @ (if n div 10 \<noteq> 0 then [n div 10 mod 10] else []) @ [n mod 10])"
proof -
  have n: "n < 256" using unsigned_less [of v, where 'a = nat] by (simp add: n_def)
  have u: "unat (v mod 100) = n mod 100" by (simp add: n_def unat_mod)
  have r: "(v mod 100) div 10 = word_of_nat (n div 10 mod 10)" "(v mod 100) mod 10 = word_of_nat (n mod 10)"
    using mod_mult2_eq [of n 10 10] by (simp_all add: u8_div_mod(1,2) [of "v mod 100"] u mod_mod_cancel)
  have z: "(v div 100 = 0) = (n div 100 = 0)" "((v mod 100) div 10 = 0) = (n div 10 mod 10 = 0)"
    using n u8_of_nat_zero [of "n div 100"] u8_of_nat_zero [of "n div 10 mod 10"] by (simp_all add: r u8_div_mod(1) [of v] n_def)
  have d: "(n div 100 \<noteq> 0 \<or> n div 10 mod 10 \<noteq> 0) = (n div 10 \<noteq> 0)"
    using div_mult2_eq [of n 10 10] div_mult_mod_eq [of "n div 10" 10] by auto
  show ?thesis
    unfolding dec_digits_def Let_def u8_div_mod(3) z d
    by (simp add: r u8_div_mod(1) [of v 100] n_def)
qed

lemma dec_digits_value:
  fixes v :: u8
  shows "length (dec_digits v) \<le> 3 \<and> foldl (\<lambda>n d. 10 * n + unat (d - 0x30)) 0 (dec_digits v) = unat v
   \<and> (\<forall>d \<in> set (dec_digits v). 0x30 \<le> d \<and> d \<le> 0x39) \<and> (hd (dec_digits v) = 0x30 \<longrightarrow> v = 0)"
proof -
  have n: "unat v < 256" using unsigned_less [of v, where 'a = nat] by simp
  have k: "unat (word_of_nat k :: u8) = k" "0x30 \<le> word_of_nat k + (0x30 :: u8)"
      "word_of_nat k + (0x30 :: u8) \<le> 0x39" if "k < 10" for k
  proof -
    have "k = 0 \<or> k = 1 \<or> k = 2 \<or> k = 3 \<or> k = 4 \<or> k = 5 \<or> k = 6 \<or> k = 7 \<or> k = 8 \<or> k = 9"
      using that by presburger
    then show "unat (word_of_nat k :: u8) = k" "0x30 \<le> word_of_nat k + (0x30 :: u8)"
      "word_of_nat k + (0x30 :: u8) \<le> 0x39"
      by (elim disjE; simp)+
  qed
  have "unat v div 100 < 10" "unat v div 10 mod 10 < 10" "unat v mod 10 < 10" using n by simp_all
  note ks = this [THEN k(1)] this [THEN k(2)] this [THEN k(3)]
  have s: "100 * (unat v div 100) + 10 * (unat v div 10 mod 10) + unat v mod 10 = unat v"
  proof -
    have "unat v div 100 * 10 + unat v div 10 mod 10 = unat v div 10"
      using div_mult_mod_eq [of "unat v div 10" 10] by (simp add: div_mult2_eq [of "unat v" 10 10, simplified])
    then show ?thesis using div_mult_mod_eq [of "unat v" 10] by linarith
  qed
  have v: "v = 0 \<longleftrightarrow> unat v = 0" by (rule unat_eq_zero [symmetric])
  show ?thesis
    using n s by (auto simp: dec_digits_nat ks v u8_of_nat_zero simp del: unat_eq_zero)
qed

text \<open>With room for three characters, \<^verbatim>\<open>u8_to_dec\<close> writes the decimal numeral of its argument: one to
  three decimal digits, without a leading zero, whose value is the argument, followed by a NUL if there is
  room for it; the number of digits is returned and the buffer is not overrun.\<close>

lemma u8_to_dec_correct:
  assumes "3 \<le> unat buflen"
  shows "\<exists>ds. u8_to_dec buflen v = (length ds, if length ds < unat buflen then ds @ [0] else ds)
           \<and> 1 \<le> length ds \<and> length ds \<le> 3 \<and> (\<forall>d \<in> set ds. 0x30 \<le> d \<and> d \<le> 0x39)
           \<and> foldl (\<lambda>n d. 10 * n + unat (d - 0x30)) 0 ds = unat v \<and> (hd ds = 0x30 \<longrightarrow> v = 0)"
proof -
  have l: "1 \<le> length (dec_digits v)" by (simp add: dec_digits_def Let_def)
  have n: "length (dec_digits v) \<le> 3" using dec_digits_value by blast
  have u: "unat (buflen - word_of_nat (length (dec_digits v))) = unat buflen - length (dec_digits v)"
    using assms n by (auto simp: unat_sub_if' unat_of_nat take_bit_nat_eq_self)
  have "(buflen - word_of_nat (length (dec_digits v)) \<noteq> 0) = (length (dec_digits v) < unat buflen)"
    using u by (metis unat_eq_zero zero_less_diff neq0_conv)
  then show ?thesis using l dec_digits_value [of v]
    by (intro exI [of _ "dec_digits v"]) (auto simp: u8_to_dec_def u8_to_dec_loop_digits [OF assms])
qed

subsection \<open>UTF-8\<close>

text \<open>A C string is the list of its bytes before the NUL.  \<open>utf8_seek\<close> walks back from a byte to the start of
  its sequence and counts the bytes it passes, in an 8-bit counter.\<close>

fun utf8_seek :: "u8 list \<Rightarrow> nat \<Rightarrow> u8 \<Rightarrow> nat \<times> u8" where
  "utf8_seek s 0 bytes_truncated = (0, bytes_truncated)"
| "utf8_seek s (Suc i) bytes_truncated =
     (if s ! Suc i AND 0xC0 \<noteq> 0xC0 then utf8_seek s i (bytes_truncated + 1) else (Suc i, bytes_truncated))"

definition utf8_trunc :: "u8 list \<Rightarrow> u8 list" where
  "utf8_trunc s =
     (if length s = 0 then s
      else if last s AND 0x7F = last s then s
      else let (p, n) = utf8_seek s (length s - 1) 0;
               bytes_truncated = n + 1;
               start = s ! p
           in if start AND 0xF0 = 0xF0 then (if bytes_truncated = 4 then s else take p s)
              else if start AND 0xE0 = 0xE0 then (if bytes_truncated = 3 then s else take p s)
              else if start AND 0xC0 = 0xC0 then (if bytes_truncated = 2 then s else take p s)
              else take p s)"

definition utf8_lcpy :: "u8 list \<Rightarrow> u8 list \<Rightarrow> nat \<Rightarrow> u8 list" where
  "utf8_lcpy dst src n =
     (if n > 0
      then let dst = take (n - 1) src in if n \<noteq> 1 then utf8_trunc dst else dst
      else dst)"

text \<open>The byte sequences that encode one character.\<close>

definition utf8_cont :: "u8 \<Rightarrow> bool" where
  "utf8_cont b \<longleftrightarrow> b AND 0xC0 = 0x80"

definition utf8_len :: "u8 \<Rightarrow> nat" where
  "utf8_len b =
     (if b AND 0x80 = 0 then 1 else if b AND 0xE0 = 0xC0 then 2 else if b AND 0xF0 = 0xE0 then 3
      else if b AND 0xF8 = 0xF0 then 4 else 0)"

definition utf8_char :: "u8 list \<Rightarrow> bool" where
  "utf8_char c \<longleftrightarrow> c \<noteq> [] \<and> utf8_len (hd c) = length c \<and> list_all utf8_cont (tl c)"

lemma u8_eq_bits:
  "v = w \<longleftrightarrow> bit v 0 = bit w 0 \<and> bit v 1 = bit w 1 \<and> bit v 2 = bit w 2 \<and> bit v 3 = bit w 3
     \<and> bit v 4 = bit w 4 \<and> bit v 5 = bit w 5 \<and> bit v 6 = bit w 6 \<and> bit v 7 = bit w 7" for v w :: u8
proof
  assume a: "bit v 0 = bit w 0 \<and> bit v 1 = bit w 1 \<and> bit v 2 = bit w 2 \<and> bit v 3 = bit w 3
     \<and> bit v 4 = bit w 4 \<and> bit v 5 = bit w 5 \<and> bit v 6 = bit w 6 \<and> bit v 7 = bit w 7"
  show "v = w"
  proof (rule bit_word_eqI)
    fix n :: nat
    assume "n < LENGTH(8)"
    then have "n = 0 \<or> n = 1 \<or> n = 2 \<or> n = 3 \<or> n = 4 \<or> n = 5 \<or> n = 6 \<or> n = 7" by auto
    then show "bit v n = bit w n" using a by (elim disjE) simp_all
  qed
qed simp

lemma utf8_bytes:
  "(utf8_cont b \<longrightarrow> b AND 0xC0 \<noteq> 0xC0 \<and> b AND 0x7F \<noteq> b \<and> utf8_len b = 0) \<and>
   (utf8_len b \<noteq> 1 \<longrightarrow> b AND 0x7F \<noteq> b) \<and> (utf8_len b = 1 \<longrightarrow> b AND 0x7F = b) \<and>
   (2 \<le> utf8_len b \<longrightarrow> b AND 0xC0 = 0xC0) \<and> (4 = utf8_len b \<longrightarrow> b AND 0xF0 = 0xF0) \<and>
   (3 = utf8_len b \<longrightarrow> b AND 0xF0 \<noteq> 0xF0 \<and> b AND 0xE0 = 0xE0) \<and>
   (2 = utf8_len b \<longrightarrow> b AND 0xF0 \<noteq> 0xF0 \<and> b AND 0xE0 \<noteq> 0xE0) \<and> utf8_len b \<le> 4"
  by (simp add: utf8_cont_def utf8_len_def u8_eq_bits bit_simps)

lemma utf8_seek_back:
  assumes "list_all utf8_cont cs" "2 \<le> utf8_len b"
  shows "utf8_seek (s @ b # cs) (length s + length cs) n = (length s, n + word_of_nat (length cs))"
  using assms(1)
proof (induction cs arbitrary: n rule: rev_induct)
  case Nil
  have "b AND 0xC0 = 0xC0" using utf8_bytes [of b] assms(2) by blast
  then show ?case by (cases "length s") (simp_all add: nth_append)
next
  case (snoc c cs)
  have "c AND 0xC0 \<noteq> 0xC0" using snoc.prems utf8_bytes [of c] by simp
  moreover have "utf8_seek (s @ b # cs @ [c]) i m = utf8_seek (s @ b # cs) i m" if "i \<le> length s + length cs" for i m
    using that by (induction i arbitrary: m) (simp_all add: nth_append nth_Cons' flip: append_Cons append_assoc)
  ultimately show ?case using snoc by (simp add: nth_append nth_Cons')
qed

text \<open>A string of whole characters followed by an incomplete or complete last one.\<close>

lemma utf8_trunc_last:
  assumes "2 \<le> utf8_len b" "list_all utf8_cont cs" "length cs < utf8_len b"
  shows "utf8_trunc (s @ b # cs) = (if Suc (length cs) = utf8_len b then s @ b # cs else s)"
proof -
  let ?s = "s @ b # cs"
  have "last ?s AND 0x7F \<noteq> last ?s"
    using assms(1,2) utf8_bytes [of "last ?s"] utf8_bytes [of b] by (cases cs rule: rev_cases) auto
  moreover have "utf8_seek ?s (length ?s - 1) 0 = (length s, word_of_nat (length cs))"
    using utf8_seek_back [OF assms(2,1), of s 0] by simp
  moreover have "length cs = 0 \<or> length cs = 1 \<or> length cs = 2 \<or> length cs = 3"
    "utf8_len b = 2 \<or> utf8_len b = 3 \<or> utf8_len b = 4"
    using assms utf8_bytes [of b] by linarith+
  ultimately show ?thesis using assms utf8_bytes [of b]
    by (elim disjE) (simp_all add: utf8_trunc_def)
qed

lemma utf8_trunc_ascii: "utf8_len b = 1 \<Longrightarrow> utf8_trunc (s @ [b]) = s @ [b]"
  using utf8_bytes [of b] by (simp add: utf8_trunc_def)

lemma utf8_char_cases:
  assumes "utf8_char c"
  obtains b where "c = [b]" "utf8_len b = 1"
  | b cs where "c = b # cs" "2 \<le> utf8_len b" "list_all utf8_cont cs" "Suc (length cs) = utf8_len b"
  using assms by (cases c; cases "tl c") (auto simp: utf8_char_def)

lemma utf8_trunc_whole: "list_all utf8_char cs \<Longrightarrow> utf8_trunc (concat cs) = concat cs"
proof (cases cs rule: rev_cases)
  case (snoc ds c)
  assume "list_all utf8_char cs"
  then have "utf8_char c" using snoc by simp
  then show ?thesis
    by (cases rule: utf8_char_cases) (simp_all add: snoc utf8_trunc_ascii utf8_trunc_last)
qed (simp add: utf8_trunc_def)

lemma utf8_trunc_part:
  assumes "utf8_char c" "0 < n" "n < length c"
  shows "utf8_trunc (s @ take n c) = s"
  using assms(1)
proof (cases rule: utf8_char_cases)
  case (2 b cs)
  then obtain m where m: "n = Suc m" "m < length cs" using assms(2,3) by (cases n) auto
  have "list_all utf8_cont (take m cs)" using 2 by (auto simp: list_all_iff dest: in_set_takeD)
  then show ?thesis using 2 m utf8_trunc_last [of b "take m cs" s] by simp
qed (use assms in simp)

text \<open>The number of whole characters among the first \<open>m\<close> bytes.\<close>

fun utf8_fit :: "nat \<Rightarrow> u8 list list \<Rightarrow> nat" where
  "utf8_fit m [] = 0"
| "utf8_fit m (c # cs) = (if length c \<le> m then Suc (utf8_fit (m - length c) cs) else 0)"

lemma utf8_fit_split:
  "\<exists>p. take m (concat cs) = concat (take (utf8_fit m cs) cs) @ p
     \<and> (p = [] \<or> utf8_fit m cs < length cs \<and> (\<exists>n > 0. n < length (cs ! utf8_fit m cs) \<and> p = take n (cs ! utf8_fit m cs)))"
proof (induction m cs rule: utf8_fit.induct)
  case (2 m c cs)
  show ?case
  proof (cases "length c \<le> m")
    case True
    then show ?thesis using 2 by auto
  next
    case False
    then show ?thesis by (cases m) (auto intro: exI [of _ m])
  qed
qed simp

lemma utf8_fit_most:
  "length (concat (take (utf8_fit m cs) cs)) \<le> m \<and> utf8_fit m cs \<le> length cs
   \<and> (utf8_fit m cs < length cs \<longrightarrow> m < length (concat (take (Suc (utf8_fit m cs)) cs)))"
  by (induction m cs rule: utf8_fit.induct) auto

text \<open>C20: Copying a valid UTF-8 string with \<^verbatim>\<open>utf8_lcpy\<close> into a buffer of \<open>n\<close> bytes keeps the longest prefix of
  whole characters that fits with its NUL: no character is cut, and the next one would not fit.\<close>

theorem utf8_lcpy_whole_chars:
  assumes "list_all utf8_char cs" "0 < n"
  shows "\<exists>k \<le> length cs. utf8_lcpy dst (concat cs) n = concat (take k cs)
           \<and> length (concat (take k cs)) < n \<and> (k < length cs \<longrightarrow> n \<le> length (concat (take (Suc k) cs)))"
proof -
  let ?k = "utf8_fit (n - 1) cs"
  have w: "list_all utf8_char (take ?k cs)" using assms(1) by (auto simp: list_all_iff dest: in_set_takeD)
  obtain p where p: "take (n - 1) (concat cs) = concat (take ?k cs) @ p"
      "p = [] \<or> ?k < length cs \<and> (\<exists>i > 0. i < length (cs ! ?k) \<and> p = take i (cs ! ?k))"
    using utf8_fit_split by blast
  have "utf8_trunc (take (n - 1) (concat cs)) = concat (take ?k cs)"
    using p(2)
  proof
    assume "p = []"
    then show ?thesis using p(1) utf8_trunc_whole [OF w] by simp
  next
    assume "?k < length cs \<and> (\<exists>i > 0. i < length (cs ! ?k) \<and> p = take i (cs ! ?k))"
    then obtain i where "?k < length cs" "0 < i" "i < length (cs ! ?k)" "p = take i (cs ! ?k)" by blast
    moreover from this have "utf8_char (cs ! ?k)" using assms(1) by (simp add: list_all_length)
    ultimately show ?thesis using p(1) utf8_trunc_part by simp
  qed
  moreover have "take 0 (concat cs) = utf8_trunc (take 0 (concat cs))" by (simp add: utf8_trunc_def)
  ultimately have "utf8_lcpy dst (concat cs) n = concat (take ?k cs)"
    using assms(2) by (cases "n = 1") (simp_all add: utf8_lcpy_def)
  then show ?thesis using utf8_fit_most [of "n - 1" cs] assms(2) by (intro exI [of _ ?k]) auto
qed

theorem utf8_lcpy_whole_chars_witness:
  "\<exists>k \<le> 2. utf8_lcpy [] [0x41, 0xe2, 0x82, 0xac] 4 = concat (take k [[0x41], [0xe2, 0x82, 0xac]])"
proof -
  have "list_all utf8_char [[0x41], [0xe2, 0x82, 0xac]]" by code_simp
  from utf8_lcpy_whole_chars [OF this, of 4 "[]"] show ?thesis by (auto simp: numeral_2_eq_2)
qed

end
