(* ===== verification/Base64.thy ===== *)
theory Base64
  imports Encoding
begin

text \<open>
  \<^verbatim>\<open>lib/utils/base64.c\<close>.  The destination is given by whether it is non-null and by its size; the results are
  the return value, the value stored in \<^verbatim>\<open>*olen\<close> (\<open>None\<close> if the call leaves it alone) and the bytes
  written.  \<^verbatim>\<open>size_t\<close> has 32 bits.  Shown are that decoding inverts encoding and that decoding never
  writes beyond the destination, whatever the input.
\<close>

definition base64_enc_map :: "u8 list" where
  "base64_enc_map = map word_of_int ([65..90] @ [97..122] @ [48..57] @ [43, 47])"

definition base64_dec_map :: "u8 list" where
  "base64_dec_map =
    [127, 127, 127, 127, 127, 127, 127, 127, 127, 127,
     127, 127, 127, 127, 127, 127, 127, 127, 127, 127,
     127, 127, 127, 127, 127, 127, 127, 127, 127, 127,
     127, 127, 127, 127, 127, 127, 127, 127, 127, 127,
     127, 127, 127,  62, 127, 127, 127,  63,  52,  53,
      54,  55,  56,  57,  58,  59,  60,  61, 127, 127,
     127,  64, 127, 127, 127,   0,   1,   2,   3,   4,
       5,   6,   7,   8,   9,  10,  11,  12,  13,  14,
      15,  16,  17,  18,  19,  20,  21,  22,  23,  24,
      25, 127, 127, 127, 127, 127, 127,  26,  27,  28,
      29,  30,  31,  32,  33,  34,  35,  36,  37,  38,
      39,  40,  41,  42,  43,  44,  45,  46,  47,  48,
      49,  50,  51, 127, 127, 127, 127, 127]"

definition BASE64_SIZE_T_MAX :: nat where
  "BASE64_SIZE_T_MAX = 2 ^ 32 - 1"

abbreviation enc_char :: "u32 \<Rightarrow> u8" where
  "enc_char i \<equiv> base64_enc_map ! unat (i AND 0x3F)"

abbreviation dec_char :: "u8 \<Rightarrow> u8" where
  "dec_char c \<equiv> base64_dec_map ! unat c"

text \<open>The loop over groups of three bytes and the remaining one or two bytes.\<close>

fun base64_encode_loop :: "u8 list \<Rightarrow> u8 list" where
  "base64_encode_loop (a # b # c # src) =
     (let C1 = ucast a; C2 = ucast b; C3 = ucast c
      in [enc_char (drop_bit 2 C1),
          enc_char (push_bit 4 (C1 AND 3) + drop_bit 4 C2),
          enc_char (push_bit 2 (C2 AND 15) + drop_bit 6 C3),
          enc_char C3] @ base64_encode_loop src)"
| "base64_encode_loop [a, b] =
     (let C1 = ucast a; C2 = ucast b
      in [enc_char (drop_bit 2 C1),
          enc_char (push_bit 4 (C1 AND 3) + drop_bit 4 C2),
          enc_char (push_bit 2 (C2 AND 15)),
          0x3D])"
| "base64_encode_loop [a] =
     (let C1 = ucast a; C2 = 0
      in [enc_char (drop_bit 2 C1),
          enc_char (push_bit 4 (C1 AND 3) + drop_bit 4 C2),
          0x3D,
          0x3D])"
| "base64_encode_loop [] = []"

definition base64_encode :: "bool \<Rightarrow> nat \<Rightarrow> u8 list \<Rightarrow> retval \<times> nat option \<times> u8 list" where
  "base64_encode dst dlen src =
     (let slen = length src; n = slen div 3 + (if slen mod 3 \<noteq> 0 then 1 else 0)
      in if slen = 0 then (ret_ok, Some 0, [])
         else if n > (BASE64_SIZE_T_MAX - 1) div 4 then (Inl ENOMEM, Some BASE64_SIZE_T_MAX, [])
         else if dlen < 4 * n + 1 \<or> \<not> dst then (Inl ENOMEM, Some (4 * n + 1), [])
         else let p = base64_encode_loop src in (ret_ok, Some (length p), p @ [0]))"

text \<open>The first pass of the decoder: the number \<open>n\<close> of symbols and the number \<open>j\<close> of padding characters of a
  valid text.  \<open>src\<close> is the text from the current position.\<close>

function base64_scan :: "u8 list \<Rightarrow> nat \<Rightarrow> nat \<Rightarrow> errno + nat \<times> nat" where
  "base64_scan src n j =
     (case dropWhile (\<lambda>c. c = 0x20) src of
        [] \<Rightarrow> Inr (n, j)
      | c # rest \<Rightarrow>
          if rest \<noteq> [] \<and> c = 0x0D \<and> hd rest = 0x0A then base64_scan rest n j
          else if c = 0x0A then base64_scan rest n j
          else if takeWhile (\<lambda>c. c = 0x20) src \<noteq> [] then Inl EINVAL
          else let j = (if c = 0x3D then j + 1 else j)
               in if c = 0x3D \<and> j > 2 then Inl EINVAL
                  else if c > 127 \<or> dec_char c = 127 then Inl EINVAL
                  else if dec_char c < 64 \<and> j \<noteq> 0 then Inl EINVAL
                  else base64_scan rest (n + 1) j)"
  by auto

termination
proof (relation "measure (\<lambda>(src, _). length src)", goal_cases)
  case (2 src n j c rest)
  then show ?case using length_dropWhile_le [of "\<lambda>c. c = 0x20" src] by simp
next
  case (3 src n j c rest)
  then show ?case using length_dropWhile_le [of "\<lambda>c. c = 0x20" src] by simp
next
  case (4 src n j c rest x)
  then show ?case using length_dropWhile_le [of "\<lambda>c. c = 0x20" src] by simp
qed simp

declare base64_scan.simps [simp del]

text \<open>One round of the second pass, on the padding counter \<open>j\<close>, the bits collected in \<open>x\<close>, the position \<open>n\<close> in
  the group and the bytes written.\<close>

definition base64_dec_step :: "u8 \<Rightarrow> u32 \<times> u32 \<times> nat \<times> u8 list \<Rightarrow> u32 \<times> u32 \<times> nat \<times> u8 list" where
  "base64_dec_step c s =
     (let (j, x, n, p) = s
      in if c = 0x0D \<or> c = 0x0A \<or> c = 0x20 then s
         else let j = j - (if dec_char c = 64 then 1 else 0);
                  x = push_bit 6 x OR ucast (dec_char c AND 0x3F)
              in if n + 1 = 4
                 then (j, x, 0,
                       p @ (if j > 0 then [ucast (drop_bit 16 x)] else [])
                         @ (if j > 1 then [ucast (drop_bit 8 x)] else [])
                         @ (if j > 2 then [ucast x] else []))
                 else (j, x, n + 1, p))"

definition base64_decode :: "bool \<Rightarrow> nat \<Rightarrow> u8 list \<Rightarrow> retval \<times> nat option \<times> u8 list" where
  "base64_decode dst dlen src =
     (case base64_scan src 0 0 of
        Inl e \<Rightarrow> (Inl e, None, [])
      | Inr (n, j) \<Rightarrow>
          if n = 0 then (ret_ok, Some 0, [])
          else let n = 6 * (n div 8) + (6 * (n mod 8) + 7) div 8 - j
               in if \<not> dst \<or> dlen < n then (Inl ENOMEM, Some n, [])
                  else let (_, _, _, p) = fold base64_dec_step src (3, 0, 0, [])
                       in (ret_ok, Some (length p), p))"

subsection \<open>Symbols\<close>

lemma enc_map_facts:
  "list_all (\<lambda>i. let c = base64_enc_map ! i in dec_char c = word_of_nat i \<and> c \<le> 127 \<and> c \<notin> {0x20, 0x0A, 0x0D, 0x3D})
     [0..<64]"
  by code_simp

lemma list_all_upt: "list_all P [0..<n] \<Longrightarrow> i < n \<Longrightarrow> P i"
  by (simp add: list_all_iff)

lemma enc_char_facts:
  fixes v :: u32
  shows "dec_char (enc_char v) = ucast (v AND 0x3F)" "enc_char v \<le> 127" "enc_char v \<notin> {0x20, 0x0A, 0x0D, 0x3D}"
    "dec_char (enc_char v) < 64"
proof -
  have "v AND 0x3F \<le> 0x3F" by (rule word_and_le1)
  then have i: "unat (v AND 0x3F) < 64" by (simp add: word_le_nat_alt)
  have u: "word_of_nat (unat (v AND 0x3F)) = (ucast (v AND 0x3F) :: u8)"
    by simp
  note f = list_all_upt [OF enc_map_facts i, unfolded Let_def u]
  show "dec_char (enc_char v) = ucast (v AND 0x3F)" "enc_char v \<le> 127" "enc_char v \<notin> {0x20, 0x0A, 0x0D, 0x3D}"
    by (rule f [THEN conjunct1] f [THEN conjunct2, THEN conjunct1] f [THEN conjunct2, THEN conjunct2])+
  then show "dec_char (enc_char v) < 64"
    using i by (simp only: u [symmetric] word_less_nat_alt unat_of_nat) simp
qed

lemma dec_pad: "base64_dec_map ! 61 = 64"
  by code_simp

subsection \<open>Decoding an encoded buffer\<close>

lemma scan_data: "base64_scan (enc_char v # src) n 0 = base64_scan src (n + 1) 0"
  using enc_char_facts [of v]
  by (subst base64_scan.simps) (auto simp: Let_def linorder_not_less [symmetric])

lemma scan_pad: "j < 2 \<Longrightarrow> base64_scan (0x3D # src) n j = base64_scan src (n + 1) (j + 1)"
  by (subst base64_scan.simps) (simp add: Let_def dec_pad)

lemma scan_nil: "base64_scan [] n j = Inr (n, j)"
  by (subst base64_scan.simps) simp

definition padding :: "u8 list \<Rightarrow> nat" where
  "padding src = (3 - length src mod 3) mod 3"

lemma scan_encoded:
  "base64_scan (base64_encode_loop src) n 0 = Inr (n + length (base64_encode_loop src), padding src)"
  by (induction src arbitrary: n rule: base64_encode_loop.induct)
    (simp_all add: Let_def scan_data scan_pad scan_nil padding_def numeral_2_eq_2)

lemma encoded_length: "length (base64_encode_loop src) = 4 * ((length src + 2) div 3)"
proof (induction src rule: base64_encode_loop.induct)
  case (1 a b c src)
  have "(length (a # b # c # src) + 2) div 3 = Suc ((length src + 2) div 3)" by simp
  then show ?case using 1 by (simp only: base64_encode_loop.simps Let_def length_append list.size) simp
qed (simp_all add: Let_def)

lemma low_bits: "v AND 0x3F = take_bit 6 v" "v AND 0xF = take_bit 4 v" "v AND 3 = take_bit 2 v" for v :: "'a::len word"
  by (simp_all add: take_bit_eq_mask mask_eq_exp_minus_1)

lemma step_data:
  "base64_dec_step (enc_char v) (j, x, n, p) =
     (let x = push_bit 6 x OR (v AND 0x3F)
      in if n + 1 = 4
         then (j, x, 0, p @ (if j > 0 then [ucast (drop_bit 16 x)] else [])
                          @ (if j > 1 then [ucast (drop_bit 8 x)] else [])
                          @ (if j > 2 then [ucast x] else []))
         else (j, x, n + 1, p))"
proof -
  have "ucast (ucast (v AND 0x3F) AND (0x3F :: u8)) = v AND 0x3F"
    unfolding low_bits by (auto simp: bit_eq_iff bit_simps)
  then have "ucast (dec_char (enc_char v) AND 0x3F) = v AND 0x3F" unfolding enc_char_facts(1) .
  moreover have "dec_char (enc_char v) \<noteq> 64" using enc_char_facts(4) [of v] by auto
  ultimately show ?thesis using enc_char_facts(3) [of v] by (simp add: base64_dec_step_def Let_def)
qed

lemma step_pad:
  "base64_dec_step 0x3D (j, x, n, p) =
     (let x = push_bit 6 x
      in if n + 1 = 4
         then (j - 1, x, 0, p @ (if j - 1 > 0 then [ucast (drop_bit 16 x)] else [])
                          @ (if j - 1 > 1 then [ucast (drop_bit 8 x)] else [])
                          @ (if j - 1 > 2 then [ucast x] else []))
         else (j - 1, x, n + 1, p))"
  by (simp add: base64_dec_step_def dec_pad Let_def)

lemma disjoint_symbols:
  "push_bit 4 (ucast a AND 3) + drop_bit 4 (ucast b) = push_bit 4 (ucast a AND 3) OR drop_bit 4 (ucast b :: u32)"
  "push_bit 2 (ucast a AND 15) + drop_bit 6 (ucast b) = push_bit 2 (ucast a AND 15) OR drop_bit 6 (ucast b :: u32)"
  for a b :: u8
  unfolding low_bits by (rule disjunctive_add, auto simp: bit_simps dest!: bit_imp_le_length)+

text \<open>The bits collected from four symbols, and the bytes read from them.\<close>

definition group_bits :: "u32 \<Rightarrow> u32 \<Rightarrow> u32 \<Rightarrow> u32 \<Rightarrow> u32 \<Rightarrow> u32" where
  "group_bits x s t v w =
     push_bit 6 (push_bit 6 (push_bit 6 (push_bit 6 x OR (s AND 0x3F)) OR (t AND 0x3F)) OR (v AND 0x3F)) OR (w AND 0x3F)"

lemma u8_high_bits: "8 \<le> n \<Longrightarrow> \<not> bit b n" for b :: u8
  by (auto dest: bit_imp_le_length)

lemma group_bytes:
  fixes a b c :: u8 and x :: u32
  shows "ucast (drop_bit 16 (group_bits x (drop_bit 2 (ucast a)) (push_bit 4 (ucast a AND 3) + drop_bit 4 (ucast b)) v w)) = a"
    and "ucast (drop_bit 8 (group_bits x s (push_bit 4 (ucast a AND 3) + drop_bit 4 (ucast b))
            (push_bit 2 (ucast b AND 15) + drop_bit 6 (ucast c)) w)) = b"
    and "ucast (group_bits x s t (push_bit 2 (ucast b AND 15) + drop_bit 6 (ucast c)) (ucast c)) = c"
  unfolding group_bits_def disjoint_symbols unfolding low_bits by (simp_all add: u8_high_bits u8_eq_bits bit_simps)

lemma fold_group:
  "fold base64_dec_step [enc_char s, enc_char t, enc_char v, enc_char w] (3, x, 0, p) =
     (let y = group_bits x s t v w in (3, y, 0, p @ [ucast (drop_bit 16 y), ucast (drop_bit 8 y), ucast y]))"
  "fold base64_dec_step [enc_char s, enc_char t, enc_char v, 0x3D] (3, x, 0, p) =
     (let y = group_bits x s t v 0 in (2, y, 0, p @ [ucast (drop_bit 16 y), ucast (drop_bit 8 y)]))"
  "fold base64_dec_step [enc_char s, enc_char t, 0x3D, 0x3D] (3, x, 0, p) =
     (let y = group_bits x s t 0 0 in (1, y, 0, p @ [ucast (drop_bit 16 y)]))"
  by (simp_all add: step_data step_pad Let_def group_bits_def)

lemma decode_encoded:
  "\<exists>s. fold base64_dec_step (base64_encode_loop src) (3, x, 0, p) = s \<and> snd (snd (snd s)) = p @ src"
proof (induction src arbitrary: x p rule: base64_encode_loop.induct)
  case (1 a b c src)
  then show ?case
    by (simp only: base64_encode_loop.simps Let_def fold_append comp_apply fold_group group_bytes) simp
next
  case (2 a b)
  show ?case
    using group_bytes(2) [where a = a and b = b and c = 0 and x = x] group_bytes(1) [where a = a and b = b and x = x]
    by (simp only: base64_encode_loop.simps Let_def fold_append comp_apply fold_group) simp
next
  case (3 a)
  show ?case
    using group_bytes(1) [where a = a and b = 0 and x = x]
    by (simp only: base64_encode_loop.simps Let_def fold_append comp_apply fold_group) simp
qed simp
lemma decoded_size:
  "6 * (4 * k div 8) + (6 * (4 * k mod 8) + 7) div 8 = 3 * k" for k :: nat
  by (cases "even k") (auto elim!: evenE oddE)

lemma thirds:
  fixes n :: nat
  obtains q where "n = 3 * q" "(n + 2) div 3 = q" "n mod 3 = 0" "n div 3 = q"
  | q where "n = 3 * q + 1" "(n + 2) div 3 = q + 1" "n mod 3 = 1" "n div 3 = q"
  | q where "n = 3 * q + 2" "(n + 2) div 3 = q + 1" "n mod 3 = 2" "n div 3 = q"
proof -
  have d: "n = 3 * (n div 3) + n mod 3" by simp
  have "n mod 3 = 0 \<or> n mod 3 = 1 \<or> n mod 3 = 2" by linarith
  then show thesis
  proof (elim disjE)
    assume "n mod 3 = 0"
    then show thesis using that(1) [of "n div 3"] d by simp
  next
    assume m: "n mod 3 = 1"
    have "(n + 2) div 3 = n div 3 + 1" using m div_add1_eq [of n 2 3] by simp
    then show thesis using that(2) [of "n div 3"] d m by simp
  next
    assume m: "n mod 3 = 2"
    have "(n + 2) div 3 = n div 3 + 1" using m div_add1_eq [of n 2 3] by simp
    then show thesis using that(3) [of "n div 3"] d m by simp
  qed
qed

lemma groups:
  "n div 3 + (if n mod 3 \<noteq> 0 then 1 else 0) = (n + 2) div 3" "n \<noteq> 0 \<Longrightarrow> 0 < (n + 2) div 3"
  "length src = n \<Longrightarrow> 3 * ((n + 2) div 3) - padding src = n" for n :: nat
  by (rule thirds [of n]; simp add: padding_def)+

text \<open>C21: Decoding inverts encoding.  A non-empty buffer whose encoding fits a \<^verbatim>\<open>size_t\<close> and the destination is
  encoded to a text of four characters for every three bytes begun, followed by a NUL; \<^verbatim>\<open>base64_decode\<close> of that
  text, with room for the bytes, yields exactly the original buffer.\<close>

theorem base64_roundtrip:
  assumes "src \<noteq> []" "4 * ((length src + 2) div 3) < BASE64_SIZE_T_MAX"
    and "4 * ((length src + 2) div 3) < elen" "length src \<le> dlen"
  shows "\<exists>b64. base64_encode True elen src = (ret_ok, Some (length b64), b64 @ [0])
           \<and> length b64 = 4 * ((length src + 2) div 3)
           \<and> base64_decode True dlen b64 = (ret_ok, Some (length src), src)"
proof (intro exI conjI)
  let ?k = "(length src + 2) div 3" and ?b = "base64_encode_loop src"
  show l: "length ?b = 4 * ?k" by (rule encoded_length)
  have n: "length src div 3 + (if length src mod 3 \<noteq> 0 then 1 else 0) = ?k" by (rule groups)
  show "base64_encode True elen src = (ret_ok, Some (length ?b), ?b @ [0])"
    unfolding base64_encode_def Let_def n using assms by auto
  have k: "0 < ?k" using groups(2) assms(1) by simp
  have sc: "base64_scan ?b 0 0 = Inr (4 * ?k, padding src)" using scan_encoded [of src 0] l by simp
  have sz: "6 * (4 * ?k div 8) + (6 * (4 * ?k mod 8) + 7) div 8 - padding src = length src"
    unfolding decoded_size by (rule groups(3)) simp
  obtain s where "fold base64_dec_step ?b (3, 0, 0, []) = s" "snd (snd (snd s)) = src"
    using decode_encoded [of src 0 "[]"] by auto
  then show "base64_decode True dlen ?b = (ret_ok, Some (length src), src)"
    unfolding base64_decode_def sc sum.case prod.case Let_def sz using assms(4) k by (auto split: prod.splits)
qed

theorem base64_roundtrip_witness:
  "\<exists>b64. base64_encode True 5 [0x4d] = (ret_ok, Some (length b64), b64 @ [0]) \<and> length b64 = 4
     \<and> base64_decode True 1 b64 = (ret_ok, Some 1, [0x4d])"
  using base64_roundtrip [of "[0x4d]" 5 1] by (simp add: BASE64_SIZE_T_MAX_def)

subsection \<open>Decoding arbitrary input\<close>

definition b64_symbol :: "u8 \<Rightarrow> bool" where
  "b64_symbol c \<longleftrightarrow> c \<notin> {0x20, 0x0A, 0x0D}"

lemma fold_symbols: "fold base64_dec_step src s = fold base64_dec_step (filter b64_symbol src) s"
  by (induction src arbitrary: s) (auto simp: b64_symbol_def base64_dec_step_def)

lemma dec_map_facts:
  "list_all (\<lambda>i. dec_char (word_of_nat i) \<noteq> 127 \<and> \<not> dec_char (word_of_nat i) < 64 \<longrightarrow> i = 61) [0..<128]"
  by code_simp

lemma dec_char_pad: "c \<le> 127 \<Longrightarrow> dec_char c \<noteq> 127 \<Longrightarrow> \<not> dec_char c < 64 \<Longrightarrow> c = 0x3D"
  using list_all_upt [OF dec_map_facts, of "unat c"] by (auto simp: word_le_nat_alt word_unat_eq_iff)

lemma filter_dropWhile_spaces: "filter b64_symbol (dropWhile (\<lambda>c. c = 0x20) src) = filter b64_symbol src"
  by (induction src) (auto simp: b64_symbol_def)

lemma dec_char_whitespace: "dec_char 0x0D = 127" "dec_char 0x20 = 127" "dec_char 0x0A = 127"
  by code_simp+

lemma scan_valid:
  "base64_scan src n j = Inr (n', j') \<Longrightarrow> j \<le> 2 \<Longrightarrow>
     j \<le> j' \<and> j' \<le> 2 \<and>
     (\<exists>ds. filter b64_symbol src = ds @ replicate (j' - j) 0x3D \<and> (\<forall>d \<in> set ds. dec_char d < 64)
        \<and> (j \<noteq> 0 \<longrightarrow> ds = []) \<and> n' = n + length ds + (j' - j))"
proof (induction src n j rule: base64_scan.induct)
  case (1 src n j)
  show ?case
  proof (cases "dropWhile (\<lambda>c. c = 0x20) src")
    case Nil
    then have "filter b64_symbol src = []" using filter_dropWhile_spaces [of src, symmetric] unfolding Nil by simp
    then show ?thesis using 1(4,5) Nil by (subst (asm) base64_scan.simps) simp
  next
    case (Cons c rest)
    have f: "filter b64_symbol src = filter b64_symbol (c # rest)"
      using filter_dropWhile_spaces [of src, symmetric] unfolding Cons .
    consider (skip) "rest \<noteq> [] \<and> c = 0x0D \<and> hd rest = 0x0A \<or> c = 0x0A"
      | (symbol) "\<not> (rest \<noteq> [] \<and> c = 0x0D \<and> hd rest = 0x0A)" "c \<noteq> 0x0A" by blast
    then show ?thesis
    proof cases
      case skip
      then have "base64_scan src n j = base64_scan rest n j"
        using Cons by (subst base64_scan.simps) auto
      moreover have "\<not> b64_symbol c" using skip by (auto simp: b64_symbol_def)
      ultimately show ?thesis using 1(1,2,4,5) Cons skip f by auto
    next
      case symbol
      let ?j = "if c = 0x3D then j + 1 else j"
      have s: "\<not> (c = 0x3D \<and> ?j > 2)" "c \<le> 127" "dec_char c \<noteq> 127" "\<not> (dec_char c < 64 \<and> ?j \<noteq> 0)"
          "takeWhile (\<lambda>c. c = 0x20) src = []" "base64_scan rest (n + 1) ?j = Inr (n', j')"
        using 1(4) symbol unfolding base64_scan.simps [of src] Cons list.case
        by (auto simp: Let_def linorder_not_less split: if_splits)
      then have b: "b64_symbol c" using dec_char_whitespace by (auto simp: b64_symbol_def)
      have ih: "?j \<le> j' \<and> j' \<le> 2 \<and>
          (\<exists>ds. filter b64_symbol rest = ds @ replicate (j' - ?j) 0x3D \<and> (\<forall>d \<in> set ds. dec_char d < 64)
             \<and> (?j \<noteq> 0 \<longrightarrow> ds = []) \<and> n' = n + 1 + length ds + (j' - ?j))"
        by (rule 1(3) [OF Cons symbol _ refl]) (use s 1(5) in \<open>auto simp: linorder_not_less\<close>)
      show ?thesis
      proof (cases "c = 0x3D")
        case True
        then show ?thesis using ih f b by (auto simp: Suc_diff_Suc simp flip: replicate_Suc)
      next
        case False
        then have "dec_char c < 64" "j = 0" using s dec_char_pad by auto
        moreover obtain ds where "filter b64_symbol rest = ds @ replicate j' 0x3D" "\<forall>d \<in> set ds. dec_char d < 64"
            "n' = n + 1 + length ds + j'"
          using ih False \<open>j = 0\<close> by auto
        ultimately show ?thesis using ih f b False by (intro conjI exI [of _ "c # ds"]) auto
      qed
    qed
  qed
qed

lemma step_datum:
  assumes "b64_symbol d" "dec_char d < 64" "n < 4"
  obtains x' p' where "base64_dec_step d (3, x, n, p) = (3, x', Suc n mod 4, p')"
    "length p' = length p + 3 * (Suc n div 4)"
proof -
  have "dec_char d \<noteq> 64" using assms(2) by auto
  then show thesis using assms that by (cases "n = 3") (auto simp: base64_dec_step_def Let_def b64_symbol_def)
qed

lemma fold_data:
  assumes "\<forall>d \<in> set ds. b64_symbol d \<and> dec_char d < 64" "n < 4"
  shows "\<exists>x' p'. fold base64_dec_step ds (3, x, n, p) = (3, x', (n + length ds) mod 4, p')
           \<and> length p' = length p + 3 * ((n + length ds) div 4)"
  using assms
proof (induction ds arbitrary: x n p)
  case (Cons d ds)
  obtain x1 p1 where 1: "base64_dec_step d (3, x, n, p) = (3, x1, Suc n mod 4, p1)"
      "length p1 = length p + 3 * (Suc n div 4)"
    using step_datum Cons.prems by (metis list.set_intros(1))
  obtain x2 p2 where 2: "fold base64_dec_step ds (3, x1, Suc n mod 4, p1) = (3, x2, (Suc n mod 4 + length ds) mod 4, p2)"
      "length p2 = length p1 + 3 * ((Suc n mod 4 + length ds) div 4)"
    using Cons.IH [of "Suc n mod 4" x1 p1] Cons.prems by auto
  have "(Suc n mod 4 + length ds) mod 4 = (n + length (d # ds)) mod 4"
    "Suc n div 4 + (Suc n mod 4 + length ds) div 4 = (n + length (d # ds)) div 4"
    using Cons.prems(2) by (cases "n = 3"; simp add: mod_simps)+
  then show ?case using 1 2 by (auto simp: algebra_simps)
qed simp

text \<open>The size computed before the second pass is enough for the \<open>e\<close> extra bytes of a last group of \<open>r\<close> symbols.\<close>

lemma decoded_size_le:
  fixes l j e :: nat
  assumes "8 * e + 2 * j \<le> 6 * (l mod 4) + 7"
  shows "3 * (l div 4) + e \<le> 6 * ((l + j) div 8) + (6 * ((l + j) mod 8) + 7) div 8 - j"
proof -
  define q r where "q = (l + j) div 8" "r = (l + j) mod 8"
  then have "l + j = 8 * q + r" by simp
  then have "6 * (l + j) + 7 = 6 * r + 7 + 8 * (6 * q)" by simp
  also have "(6 * r + 7 + 8 * (6 * q)) div 8 = 6 * q + (6 * r + 7) div 8" by (rule div_mult_self2) simp
  finally have d: "6 * q + (6 * r + 7) div 8 = (6 * (l + j) + 7) div 8" by simp
  define k s where "k = l div 4" "s = l mod 4"
  then have "l = 4 * k + s" "8 * e + 2 * j \<le> 6 * s + 7" using assms by simp_all
  then have "(3 * k + e + j) * 8 \<le> 6 * (l + j) + 7" by simp
  then have "3 * k + e + j \<le> (6 * (l + j) + 7) div 8" by (simp only: less_eq_div_iff_mult_less_eq)
  then show ?thesis unfolding q_r_def [symmetric] k_s_def [symmetric] d by linarith
qed

lemma fold_data_pad:
  assumes "\<forall>d \<in> set ds. b64_symbol d \<and> dec_char d < 64" "j \<le> 2"
  shows "length (snd (snd (snd (fold base64_dec_step (ds @ replicate j 0x3D) (3, 0, 0, [])))))
           \<le> 6 * ((length ds + j) div 8) + (6 * ((length ds + j) mod 8) + 7) div 8 - j"
proof -
  let ?r = "length ds mod 4"
  obtain x p where f: "fold base64_dec_step ds (3, 0, 0, []) = (3, x, ?r, p)"
      "length p = 3 * (length ds div 4)"
    using fold_data [OF assms(1), of 0 0 "[]"] by auto
  have "j = 0 \<or> j = 1 \<or> j = 2" using assms(2) by linarith
  then obtain e where "length (snd (snd (snd (fold base64_dec_step (ds @ replicate j 0x3D) (3, 0, 0, []))))) = 3 * (length ds div 4) + e"
      "8 * e + 2 * j \<le> 6 * ?r + 7"
    by (elim disjE; cases "?r = 3"; cases "?r = 2") (auto simp: f step_pad Let_def numeral_2_eq_2)
  then show ?thesis using decoded_size_le by simp
qed

text \<open>C22: Whatever the text, \<^verbatim>\<open>base64_decode\<close> never writes more bytes than its destination has: the size it
  computes in its first pass bounds what its second pass writes, also for texts with incomplete groups or
  misplaced padding.  A failed call writes nothing, and a successful one reports the number of bytes written.\<close>

theorem base64_decode_in_bounds:
  assumes "base64_decode dst dlen src = (r, olen, p)"
  shows "length p \<le> dlen \<and> (r \<noteq> ret_ok \<or> \<not> dst \<longrightarrow> p = []) \<and> (r = ret_ok \<longrightarrow> olen = Some (length p))"
proof (cases "base64_scan src 0 0")
  case (Inl e)
  then show ?thesis using assms by (auto simp: base64_decode_def)
next
  case (Inr nj)
  then obtain n j where s: "base64_scan src 0 0 = Inr (n, j)" by (cases nj) auto
  obtain ds where ds: "filter b64_symbol src = ds @ replicate j 0x3D" "\<forall>d \<in> set ds. dec_char d < 64"
      "n = length ds + j" "j \<le> 2"
    using scan_valid [OF s] by auto
  have "set ds \<subseteq> set (filter b64_symbol src)" using ds(1) by simp
  then have "\<forall>d \<in> set ds. b64_symbol d \<and> dec_char d < 64" using ds(2) by auto
  from fold_data_pad [OF this ds(4)] have
    "length (snd (snd (snd (fold base64_dec_step src (3, 0, 0, []))))) \<le> 6 * (n div 8) + (6 * (n mod 8) + 7) div 8 - j"
    by (simp only: fold_symbols [of src] ds)
  then show ?thesis using assms s by (auto simp: base64_decode_def Let_def split: prod.splits if_splits)
qed

theorem base64_decode_in_bounds_witness:
  "base64_decode True 1 [0x54, 0x51, 0x3D, 0x3D, 0x0A] = (ret_ok, Some 1, [0x4d]) \<and> length [0x4d :: u8] \<le> 1"
proof -
  have b: "base64_decode True 1 [0x54, 0x51, 0x3D, 0x3D, 0x0A] = (ret_ok, Some 1, [0x4d])" by code_simp
  show ?thesis using base64_decode_in_bounds [OF b] b by simp
qed

end
