(* ===== verification/Crc.thy ===== *)
theory Crc
  imports Encoding
begin

text \<open>
  The software checksums of \<^verbatim>\<open>lib/crc\<close>.  Every routine folds a round over the input bytes.  The
  bit-by-bit routines \<^verbatim>\<open>crc4\<close>, \<^verbatim>\<open>crc8\<close>, \<^verbatim>\<open>crc16\<close> and \<^verbatim>\<open>crc16_reflect\<close> take the polynomial as an argument; the
  other routines are tuned to one polynomial, by a table or by shifts, and are shown equal to the
  bit-by-bit computation with the polynomial their documentation names.
\<close>

subsection \<open>Bit-by-bit rounds\<close>

text \<open>One round of the inner loops: least significant bit first, and most significant bit \<open>k\<close> first.\<close>

definition refl_bit :: "'a::len word \<Rightarrow> 'a word \<Rightarrow> 'a word" where
  "refl_bit poly crc = (if crc AND 1 \<noteq> 0 then drop_bit 1 crc XOR poly else drop_bit 1 crc)"

definition msb_bit :: "nat \<Rightarrow> 'a::len word \<Rightarrow> 'a word \<Rightarrow> 'a word" where
  "msb_bit k poly crc = (if crc AND 2 ^ k \<noteq> 0 then push_bit 1 crc XOR poly else push_bit 1 crc)"

definition crc16 :: "u16 \<Rightarrow> u16 \<Rightarrow> u8 list \<Rightarrow> u16" where
  "crc16 poly seed src =
     fold (\<lambda>b crc. (msb_bit 15 poly ^^ 8) (crc XOR push_bit 8 (ucast b))) src seed"

definition crc16_reflect :: "u16 \<Rightarrow> u16 \<Rightarrow> u8 list \<Rightarrow> u16" where
  "crc16_reflect poly seed src =
     fold (\<lambda>b crc. (refl_bit poly ^^ 8) (crc XOR ucast b)) src seed"

definition crc8 :: "u8 list \<Rightarrow> u8 \<Rightarrow> u8 \<Rightarrow> bool \<Rightarrow> u8" where
  "crc8 src polynomial initial_value reversed =
     fold (\<lambda>b crc. ((if reversed then refl_bit polynomial else msb_bit 7 polynomial) ^^ 8) (crc XOR b))
       src initial_value"

text \<open>The high nibble of a byte first.\<close>

definition nibbles :: "u8 \<Rightarrow> u8 list" where
  "nibbles b = map (\<lambda>j. drop_bit (4 * (1 - j)) b AND 0xf) [0, 1]"

definition crc4 :: "u8 list \<Rightarrow> u8 \<Rightarrow> u8 \<Rightarrow> bool \<Rightarrow> u8" where
  "crc4 src polynomial initial_value reversed =
     fold (\<lambda>b crc. fold (\<lambda>x crc. ((if reversed then refl_bit polynomial else msb_bit 3 polynomial) ^^ 4) (crc XOR x))
        (nibbles b) crc) src initial_value AND 0xf"

definition crc24_bit :: "u32 \<Rightarrow> u32" where
  "crc24_bit crc =
     (let crc = push_bit 1 crc in if crc AND 0x01000000 \<noteq> 0 then crc XOR 0x01864cfb else crc)"

definition crc24_pgp_update :: "u32 \<Rightarrow> u8 list \<Rightarrow> u32" where
  "crc24_pgp_update crc data =
     fold (\<lambda>b crc. (crc24_bit ^^ 8) (crc XOR push_bit 16 (ucast b))) data crc"

definition crc24_pgp :: "u8 list \<Rightarrow> u32" where
  "crc24_pgp data = crc24_pgp_update 0x00B704CE data AND 0x00FFFFFF"

subsection \<open>Routines for one polynomial\<close>

definition crc16_ccitt_round :: "u8 \<Rightarrow> u16 \<Rightarrow> u16" where
  "crc16_ccitt_round b seed =
     (let e = ucast seed XOR b; f = e XOR push_bit 4 e
      in drop_bit 8 seed XOR push_bit 8 (ucast f) XOR push_bit 3 (ucast f) XOR drop_bit 4 (ucast f))"

definition crc16_ccitt :: "u16 \<Rightarrow> u8 list \<Rightarrow> u16" where
  "crc16_ccitt seed src = fold crc16_ccitt_round src seed"

definition crc16_itu_t_round :: "u8 \<Rightarrow> u16 \<Rightarrow> u16" where
  "crc16_itu_t_round b seed =
     (let seed = drop_bit 8 seed OR push_bit 8 seed;
          seed = seed XOR ucast b;
          seed = seed XOR drop_bit 4 (seed AND 0xff);
          seed = seed XOR push_bit 12 seed
      in seed XOR push_bit 5 (seed AND 0xff))"

definition crc16_itu_t :: "u16 \<Rightarrow> u8 list \<Rightarrow> u16" where
  "crc16_itu_t seed src = fold crc16_itu_t_round src seed"

definition crc16_ansi :: "u8 list \<Rightarrow> u16" where
  "crc16_ansi src = crc16_reflect 0xA001 0xffff src"

definition crc8_ccitt_small_table :: "u8 list" where
  "crc8_ccitt_small_table =
     [0x00, 0x07, 0x0e, 0x09, 0x1c, 0x1b, 0x12, 0x15, 0x38, 0x3f, 0x36, 0x31, 0x24, 0x23, 0x2a, 0x2d]"

definition crc8_ccitt_round :: "u8 \<Rightarrow> u8 \<Rightarrow> u8" where
  "crc8_ccitt_round b val =
     (let val = val XOR b;
          val = push_bit 4 val XOR crc8_ccitt_small_table ! unat (drop_bit 4 val)
      in push_bit 4 val XOR crc8_ccitt_small_table ! unat (drop_bit 4 val))"

definition crc8_ccitt :: "u8 \<Rightarrow> u8 list \<Rightarrow> u8" where
  "crc8_ccitt val buf = fold crc8_ccitt_round buf val"

definition crc7_be_round :: "u8 \<Rightarrow> u8 \<Rightarrow> u8" where
  "crc7_be_round b seed =
     (let e = seed XOR b; f = e XOR drop_bit 4 e XOR drop_bit 7 e
      in push_bit 1 f XOR push_bit 4 f)"

definition crc7_be :: "u8 \<Rightarrow> u8 list \<Rightarrow> u8" where
  "crc7_be seed src = fold crc7_be_round src seed"

definition crc4_ti_lookup :: "u8 list" where
  "crc4_ti_lookup = [0x03, 0x65, 0xcf, 0xa9, 0xb8, 0xde, 0x74, 0x12]"

text \<open>A seed above 15 makes the first look-up read outside the table: \<open>None\<close>.\<close>

definition crc4_ti_nibble :: "u8 \<Rightarrow> u8 option \<Rightarrow> u8 option" where
  "crc4_ti_nibble x seed =
     (case seed of
        None \<Rightarrow> None
      | Some seed \<Rightarrow>
          (let index = seed XOR x
           in if unat (drop_bit 1 index) < length crc4_ti_lookup
              then Some (drop_bit ((1 - unat (index AND 1)) * 4) (crc4_ti_lookup ! unat (drop_bit 1 index)) AND 0xf)
              else None))"

definition crc4_ti :: "u8 \<Rightarrow> u8 list \<Rightarrow> u8 option" where
  "crc4_ti seed src = fold (\<lambda>b. fold crc4_ti_nibble (nibbles b)) src (Some seed)"

definition crc32_ieee_table :: "u32 list" where
  "crc32_ieee_table =
     [0x00000000, 0x1db71064, 0x3b6e20c8, 0x26d930ac,
      0x76dc4190, 0x6b6b51f4, 0x4db26158, 0x5005713c,
      0xedb88320, 0xf00f9344, 0xd6d6a3e8, 0xcb61b38c,
      0x9b64c2b0, 0x86d3d2d4, 0xa00ae278, 0xbdbdf21c]"

definition crc32_ieee_update :: "u32 \<Rightarrow> u8 list \<Rightarrow> u32" where
  "crc32_ieee_update crc data =
     NOT (fold (\<lambda>b crc.
        let crc = drop_bit 4 crc XOR crc32_ieee_table ! unat ((crc XOR ucast b) AND 0x0f)
        in drop_bit 4 crc XOR crc32_ieee_table ! unat ((crc XOR drop_bit 4 (ucast b)) AND 0x0f))
       data (NOT crc))"

definition crc32_ieee :: "u8 list \<Rightarrow> u32" where
  "crc32_ieee data = crc32_ieee_update 0 data"

definition crc32c_table :: "u32 list" where
  "crc32c_table =
     [0x00000000, 0x105EC76F, 0x20BD8EDE, 0x30E349B1,
      0x417B1DBC, 0x5125DAD3, 0x61C69362, 0x7198540D,
      0x82F63B78, 0x92A8FC17, 0xA24BB5A6, 0xB21572C9,
      0xC38D26C4, 0xD3D3E1AB, 0xE330A81A, 0xF36E6F75]"

definition crc32_c :: "u32 \<Rightarrow> u8 list \<Rightarrow> bool \<Rightarrow> bool \<Rightarrow> u32" where
  "crc32_c crc data first_pkt last_pkt =
     (let crc = (if first_pkt then 0xFFFFFFFF else crc);
          crc = fold (\<lambda>b crc.
             let crc = crc32c_table ! unat ((crc XOR ucast b) AND 0x0F) XOR drop_bit 4 crc
             in crc32c_table ! unat ((crc XOR drop_bit 4 (ucast b)) AND 0x0F) XOR drop_bit 4 crc) data crc
      in if last_pkt then crc XOR 0xFFFFFFFF else crc)"

text \<open>The dispatch on the kind of checksum; the flags for the first and the last packet matter to streams only.\<close>

datatype crc_type =
  CRC4 | CRC4_TI | CRC7_BE | CRC8 | CRC8_CCITT | CRC16 | CRC16_ANSI | CRC16_CCITT | CRC16_ITU_T
  | CRC24_PGP | CRC32_C | CRC32_IEEE

fun crc_by_type :: "crc_type \<Rightarrow> u8 list \<Rightarrow> u32 \<Rightarrow> u32 \<Rightarrow> bool \<Rightarrow> bool \<Rightarrow> bool \<Rightarrow> u32 option" where
  "crc_by_type CRC4 src seed poly reflect fst_pkt lst_pkt = Some (ucast (crc4 src (ucast poly) (ucast seed) reflect))"
| "crc_by_type CRC4_TI src seed poly reflect fst_pkt lst_pkt = map_option ucast (crc4_ti (ucast seed) src)"
| "crc_by_type CRC7_BE src seed poly reflect fst_pkt lst_pkt = Some (ucast (crc7_be (ucast seed) src))"
| "crc_by_type CRC8 src seed poly reflect fst_pkt lst_pkt = Some (ucast (crc8 src (ucast poly) (ucast seed) reflect))"
| "crc_by_type CRC8_CCITT src seed poly reflect fst_pkt lst_pkt = Some (ucast (crc8_ccitt (ucast seed) src))"
| "crc_by_type CRC16 src seed poly reflect fst_pkt lst_pkt =
     Some (if reflect then ucast (crc16_reflect (ucast poly) (ucast seed) src)
           else ucast (crc16 (ucast poly) (ucast seed) src))"
| "crc_by_type CRC16_ANSI src seed poly reflect fst_pkt lst_pkt = Some (ucast (crc16_ansi src))"
| "crc_by_type CRC16_CCITT src seed poly reflect fst_pkt lst_pkt = Some (ucast (crc16_ccitt (ucast seed) src))"
| "crc_by_type CRC16_ITU_T src seed poly reflect fst_pkt lst_pkt = Some (ucast (crc16_itu_t (ucast seed) src))"
| "crc_by_type CRC24_PGP src seed poly reflect fst_pkt lst_pkt =
     Some (let crc = crc24_pgp_update seed src in if lst_pkt then crc AND 0x00FFFFFF else crc)"
| "crc_by_type CRC32_C src seed poly reflect fst_pkt lst_pkt = Some (crc32_c seed src fst_pkt lst_pkt)"
| "crc_by_type CRC32_IEEE src seed poly reflect fst_pkt lst_pkt = Some (crc32_ieee_update seed src)"

subsection \<open>Bits of a round\<close>

lemma odd_bit: "(c AND 1 \<noteq> 0) = bit c 0" for c :: "'a::len word"
  by (simp add: and_one_eq bit_0 odd_iff_mod_2_eq_one)

lemma bit_refl_bit: "bit (refl_bit poly c) n = (bit c (Suc n) \<noteq> (bit c 0 \<and> bit poly n))"
  by (simp add: refl_bit_def odd_bit bit_simps)

lemma bit_msb_bit:
  fixes c :: "'a::len word"
  assumes "k < LENGTH('a)"
  shows "bit (msb_bit k poly c) n = ((n < LENGTH('a) \<and> 0 < n \<and> bit c (n - 1)) \<noteq> (bit c k \<and> bit poly n))"
proof -
  have "(c AND 2 ^ k \<noteq> 0) = bit c k"
    using assms by (simp add: and_exp_eq_0_iff_not_bit)
  moreover have "bit (push_bit 1 c) n = (n < LENGTH('a) \<and> 0 < n \<and> bit c (n - 1))"
    by (auto simp only: bit_push_bit_iff possible_bit_word less_eq_Suc_le One_nat_def dest: bit_imp_le_length)
  ultimately show ?thesis unfolding msb_bit_def by (cases "bit c k") (simp_all only: bit_xor_iff if_True if_False simp_thms)
qed

lemma funpow_8: "(f ^^ 8) x = f (f (f (f (f (f (f (f x)))))))" and funpow_4: "(f ^^ 4) x = f (f (f (f x)))"
  by (simp_all add: eval_nat_numeral)

lemma u16_eq_bits:
  "v = w \<longleftrightarrow> (\<forall>n \<in> set [0,1,2,3,4,5,6,7,8,9,10,11,12,13,14,15]. bit v n = bit w n)" for v w :: u16
proof -
  have "[0,1,2,3,4,5,6,7,8,9,10,11,12,13,14,15] = [0..<16 :: nat]" by code_simp
  moreover have "v = w \<longleftrightarrow> (\<forall>n \<in> set [0..<16]. bit v n = bit w n)" by (auto intro: bit_word_eqI)
  ultimately show ?thesis by simp
qed

lemma high_bits: "8 \<le> n \<Longrightarrow> \<not> bit b n" "16 \<le> n \<Longrightarrow> \<not> bit c n" for b :: u8 and c :: u16
  by (auto dest: bit_imp_le_length)

lemma bit_twice: "bit (c * 2) n = (0 < n \<and> n < LENGTH('a) \<and> bit c (n - 1))" for c :: "'a::len word"
  using bit_double_iff [of c n] by (auto simp: mult.commute)

lemmas round_bits = bit_twice bit_refl_bit bit_msb_bit bit_simps high_bits numeral_2_eq_2 [symmetric]

lemma ccitt_round: "(refl_bit 0x8408 ^^ 8) (c XOR ucast b) = crc16_ccitt_round b c"
  unfolding crc16_ccitt_round_def Let_def u16_eq_bits funpow_8
  by (simp add: round_bits) argo

lemma itu_t_round: "(msb_bit 15 0x1021 ^^ 8) (c XOR push_bit 8 (ucast b)) = crc16_itu_t_round b c"
  unfolding crc16_itu_t_round_def Let_def u16_eq_bits funpow_8
  by (simp add: round_bits) argo

lemma crc7_round: "(msb_bit 7 0x12 ^^ 8) (c XOR b) = crc7_be_round b c"
  unfolding crc7_be_round_def Let_def u8_eq_bits funpow_8
  by (simp add: round_bits) argo

lemma unat_nibble:
  "unat (take_bit 4 x) = 8 * of_bool (bit x 3) + 4 * of_bool (bit x 2) + 2 * of_bool (bit x 1) + of_bool (bit x 0)"
  for x :: "'a::len word"
proof -
  have "take_bit 4 n = 8 * of_bool (bit n 3) + 4 * of_bool (bit n 2) + 2 * of_bool (bit n 1) + of_bool (bit n 0)" for n :: nat
    using take_bit_Suc_from_most [of 3 n] take_bit_Suc_from_most [of 2 n] take_bit_Suc_from_most [of 1 n]
      take_bit_Suc_from_most [of 0 n]
    by (simp add: numeral_2_eq_2 [symmetric])
  then show ?thesis by (simp add: unsigned_take_bit_eq bit_unsigned_iff)
qed

lemma high_nibble:
  "unat (drop_bit 4 x) = 8 * of_bool (bit x 7) + 4 * of_bool (bit x 6) + 2 * of_bool (bit x 5) + of_bool (bit x 4)"
  for x :: u8
proof -
  have "drop_bit 4 x = take_bit 4 (drop_bit 4 x)"
    by (rule bit_word_eqI) (auto simp: bit_simps dest: bit_imp_le_length)
  then show ?thesis using unat_nibble [of "drop_bit 4 x"] by (simp add: bit_simps)
qed

lemma crc8_nibble: "(msb_bit 7 7 ^^ 4) x = push_bit 4 x XOR crc8_ccitt_small_table ! unat (drop_bit 4 x)"
  unfolding high_nibble crc8_ccitt_small_table_def u8_eq_bits funpow_4
  by (cases "bit x 4"; cases "bit x 5"; cases "bit x 6"; cases "bit x 7") (simp_all add: round_bits)

text \<open>Four rounds on a 32-bit checksum shift it by a nibble and add the entry of the table for that nibble.\<close>

lemma refl_bit_xor: "refl_bit poly x = drop_bit 1 x XOR (if bit x 0 then poly else 0)"
  by (simp add: refl_bit_def odd_bit)

lemma mask_nibble: "x AND 0xf = take_bit 4 x" for x :: "'a::len word"
  by (simp add: take_bit_eq_mask mask_eq_exp_minus_1)

lemma crc32_nibble: "(refl_bit 0xedb88320 ^^ 4) x = drop_bit 4 x XOR crc32_ieee_table ! unat (x AND 0xf)"
  unfolding mask_nibble unat_nibble crc32_ieee_table_def funpow_4 refl_bit_xor
  by (cases "bit x 0"; cases "bit x 1"; cases "bit x 2"; cases "bit x 3")
    (simp_all add: drop_bit_xor bit_simps xor.assoc numeral_2_eq_2 [symmetric])

lemma crc32c_nibble: "(refl_bit 0x82F63B78 ^^ 4) x = drop_bit 4 x XOR crc32c_table ! unat (x AND 0xf)"
  unfolding mask_nibble unat_nibble crc32c_table_def funpow_4 refl_bit_xor
  by (cases "bit x 0"; cases "bit x 1"; cases "bit x 2"; cases "bit x 3")
    (simp_all add: drop_bit_xor bit_simps xor.assoc numeral_2_eq_2 [symmetric])

lemma funpow_8_4: "(f ^^ 8) x = (f ^^ 4) ((f ^^ 4) x)"
  by (simp add: funpow_8 funpow_4)

text \<open>A byte is consumed by nibbles: its low nibble is added before the first four rounds, its high nibble
  before the next four.\<close>

lemma by_nibbles:
  fixes t :: "u32 list" and b :: u8
  assumes "\<And>x. (f ^^ 4) x = drop_bit 4 x XOR t ! unat (x AND 0xf)"
  shows "(f ^^ 8) (c XOR ucast b) =
    (let c = drop_bit 4 c XOR t ! unat ((c XOR ucast b) AND 0xf)
     in drop_bit 4 c XOR t ! unat ((c XOR drop_bit 4 (ucast b)) AND 0xf))"
proof -
  define d where "d = drop_bit 4 c XOR t ! unat ((c XOR ucast b) AND 0xf)"
  have z: "drop_bit 4 (drop_bit 4 (ucast b)) = (0 :: u32)"
    by (rule bit_word_eqI) (auto simp: bit_simps dest: bit_imp_le_length)
  have "(f ^^ 4) (c XOR ucast b) = d XOR drop_bit 4 (ucast b)"
    by (simp add: assms d_def drop_bit_xor ac_simps)
  then have "(f ^^ 8) (c XOR ucast b) = drop_bit 4 d XOR t ! unat ((d XOR drop_bit 4 (ucast b)) AND 0xf)"
    by (simp only: funpow_8_4 assms [of "d XOR _"] drop_bit_xor z xor.right_neutral)
  then show ?thesis unfolding d_def Let_def .
qed

lemma crc4_nibble:
  "crc4_ti_nibble x (Some s) = Some ((msb_bit 3 3 ^^ 4) (c XOR x) AND 0xf)"
  if "s = c AND 0xf" "x AND 0xf = x"
proof -
  have i: "s XOR x = take_bit 4 (c XOR x)"
    using that by (simp add: mask_nibble [symmetric] bit.conj_xor_distrib2)
  let ?y = "c XOR x"
  have b: "take_bit 4 y AND 1 = of_bool (bit y 0)" "drop_bit 1 (take_bit 4 y) = take_bit 4 (take_bit 3 (drop_bit 1 y))"
    for y :: u8
    by (auto simp: u8_eq_bits bit_simps)
  have u: "unat (drop_bit 1 (take_bit 4 y)) = 4 * of_bool (bit y 3) + 2 * of_bool (bit y 2) + of_bool (bit y 1)"
    for y :: u8
    unfolding b unat_nibble by (simp add: bit_simps numeral_2_eq_2 [symmetric])
  have "Some (drop_bit ((1 - unat (take_bit 4 y AND 1)) * 4) (crc4_ti_lookup ! unat (drop_bit 1 (take_bit 4 y))) AND 0xf)
      = Some ((msb_bit 3 3 ^^ 4) y AND 0xf)" for y
    unfolding u b(1) mask_nibble u8_eq_bits crc4_ti_lookup_def funpow_4 option.inject
    by (cases "bit y 0"; cases "bit y 1"; cases "bit y 2"; cases "bit y 3") (simp_all add: round_bits)
  moreover have "unat (drop_bit 1 (take_bit 4 y)) < length crc4_ti_lookup" for y :: u8
    unfolding u crc4_ti_lookup_def by (simp split: split_of_bool)
  ultimately show ?thesis unfolding crc4_ti_nibble_def option.case Let_def i by (simp only: if_True)
qed

lemma nibbles_low: "\<forall>x \<in> set (nibbles b). x AND 0xf = x"
  unfolding nibbles_def by (auto simp: mask_nibble)

lemma crc4_ti_fold:
  "\<forall>x \<in> set xs. x AND 0xf = x \<Longrightarrow> fold crc4_ti_nibble xs (Some (c AND 0xf))
     = Some (fold (\<lambda>x crc. (msb_bit 3 3 ^^ 4) (crc XOR x)) xs c AND 0xf)"
  by (induction xs arbitrary: c) (simp_all add: crc4_nibble)

lemma crc4_ti_bytes:
  "fold (\<lambda>b. fold crc4_ti_nibble (nibbles b)) src (Some (c AND 0xf)) =
     Some (fold (\<lambda>b. fold (\<lambda>x crc. (msb_bit 3 3 ^^ 4) (crc XOR x)) (nibbles b)) src c AND 0xf)"
  by (induction src arbitrary: c) (simp_all add: crc4_ti_fold [OF nibbles_low])

lemma crc8_round: "(msb_bit 7 7 ^^ 8) (c XOR b) = crc8_ccitt_round b c"
  by (simp only: funpow_8_4 crc8_nibble crc8_ccitt_round_def Let_def)

text \<open>C24: The routines tuned to one polynomial compute what the bit-by-bit routines compute with that polynomial:
  \<^verbatim>\<open>crc16_ccitt\<close> with the reflected \<^verbatim>\<open>0x8408\<close>, \<^verbatim>\<open>crc16_itu_t\<close> with \<^verbatim>\<open>0x1021\<close>, \<^verbatim>\<open>crc8_ccitt\<close> with \<^verbatim>\<open>0x07\<close>, \<^verbatim>\<open>crc7_be\<close> with \<^verbatim>\<open>0x09\<close>
  justified to the left, and \<^verbatim>\<open>crc4_ti\<close>, for a seed of four bits, with \<^verbatim>\<open>0x03\<close>; none of its look-ups leaves the
  table.\<close>

theorem crc_tuned_equivalent:
  "crc16_ccitt seed src = crc16_reflect 0x8408 seed src \<and>
   crc16_itu_t seed src = crc16 0x1021 seed src \<and>
   crc8_ccitt v src = crc8 src 0x07 v False \<and>
   crc7_be v src = crc8 src (push_bit 1 0x09) v False \<and>
   crc4_ti (v AND 0xf) src = Some (crc4 src 0x03 (v AND 0xf) False)"
proof (intro conjI)
  show "crc16_ccitt seed src = crc16_reflect 0x8408 seed src"
    by (simp add: crc16_ccitt_def crc16_reflect_def ccitt_round)
  show "crc16_itu_t seed src = crc16 0x1021 seed src"
    by (simp add: crc16_itu_t_def crc16_def itu_t_round)
  show "crc8_ccitt v src = crc8 src 0x07 v False"
    by (simp add: crc8_ccitt_def crc8_def crc8_round)
  show "crc7_be v src = crc8 src (push_bit 1 0x09) v False"
    by (simp add: crc7_be_def crc8_def crc7_round)
  show "crc4_ti (v AND 0xf) src = Some (crc4 src 0x03 (v AND 0xf) False)"
    using crc4_ti_bytes [of src "v AND 0xf"] by (simp add: crc4_ti_def crc4_def)
qed

text \<open>C23: The table-driven CRC-32 is the bit-by-bit one with the reflected polynomial \<^verbatim>\<open>0xedb88320\<close>: the register
  starts complemented, takes in each byte and does eight rounds of shifting and conditionally adding the
  polynomial, and is complemented at the end.  The same holds of CRC-32C with \<^verbatim>\<open>0x82F63B78\<close>, the reflection of
  \<^verbatim>\<open>0x1EDC6F41\<close>.\<close>

theorem crc32_table_correct:
  "crc32_ieee_update crc data = NOT (fold (\<lambda>b c. (refl_bit 0xedb88320 ^^ 8) (c XOR ucast b)) data (NOT crc)) \<and>
   crc32_c crc data f l =
     (fold (\<lambda>b c. (refl_bit 0x82F63B78 ^^ 8) (c XOR ucast b)) data (if f then 0xFFFFFFFF else crc))
       XOR (if l then 0xFFFFFFFF else 0)"
proof
  show "crc32_ieee_update crc data = NOT (fold (\<lambda>b c. (refl_bit 0xedb88320 ^^ 8) (c XOR ucast b)) data (NOT crc))"
    unfolding crc32_ieee_update_def by (simp only: by_nibbles [OF crc32_nibble])
  show "crc32_c crc data f l =
     (fold (\<lambda>b c. (refl_bit 0x82F63B78 ^^ 8) (c XOR ucast b)) data (if f then 0xFFFFFFFF else crc))
       XOR (if l then 0xFFFFFFFF else 0)"
    unfolding crc32_c_def by (simp add: by_nibbles [OF crc32c_nibble] xor.commute [of "_ ! _"])
qed

text \<open>A checksum can be computed piecewise: for every routine, the checksum of a concatenation is the
  checksum of the second part started from the checksum of the first.  For the CRC-32 the final complement
  of the first part is undone by the initial complement of the second; for CRC-32C the flags of the first and
  last packet frame the stream.\<close>

lemma crc_piecewise:
  "crc32_ieee_update crc (xs @ ys) = crc32_ieee_update (crc32_ieee_update crc xs) ys \<and>
   crc32_c crc (xs @ ys) f l = crc32_c (crc32_c crc xs f False) ys False l \<and>
   crc24_pgp (xs @ ys) = crc24_pgp_update (crc24_pgp_update 0x00B704CE xs) ys AND 0x00FFFFFF \<and>
   crc16_ccitt seed (xs @ ys) = crc16_ccitt (crc16_ccitt seed xs) ys \<and>
   crc16_itu_t seed (xs @ ys) = crc16_itu_t (crc16_itu_t seed xs) ys \<and>
   crc8_ccitt val (xs @ ys) = crc8_ccitt (crc8_ccitt val xs) ys \<and>
   crc7_be s7 (xs @ ys) = crc7_be (crc7_be s7 xs) ys"
  by (simp add: crc32_ieee_update_def crc32_c_def crc24_pgp_def crc24_pgp_update_def crc16_ccitt_def
      crc16_itu_t_def crc8_ccitt_def crc7_be_def)
end
