(* ===== verification/Spec2Isabelle.thy ===== *)
theory Spec2Isabelle
  imports Kernel_Types Sem Mutex Msgq Events Stack Mem_Slab Timer Futex Ring_Buffer Device Timeutil Base64 Crc
begin

text \<open>
  A verification development for the Zephyr kernel and its basic libraries, as in this repository.

  \<^bold>\<open>The program and its parts.\<close>  Zephyr is a real-time operating system.  Its scheduler (\<^verbatim>\<open>kernel/sched.c\<close>) keeps the ready threads
  in a run queue ordered by priority and the waiting threads in wait queues; the timeout queue (\<^verbatim>\<open>kernel/timeout.c\<close>) drives
  sleeping, time-outs of waiting, time slices and timers from the tick interrupt.  Kernel objects (semaphores, mutexes,
  message queues and so on) are small records with a wait queue; their calls pend the running thread, wake threads
  and call the scheduler.  The libraries hold lists, checksums, conversions and ring buffers.

  \<^bold>\<open>How it is modelled.\<close>  Every C function is a HOL function with its name (\<^verbatim>\<open>z_impl_\<close> is dropped) that takes and returns the
  state explicitly; a struct is a record, an enumeration a datatype, an unsigned integer a word of its width, an error
  the value \<open>Inl e\<close> of the type \<open>retval\<close>.  Signed 64-bit ticks are integers.  A call that may sleep yields \<open>Done r\<close>, or
  \<open>Blocked\<close> when the calling thread was switched out, and what the code does when the thread runs again is a definition
  of its own, named \<open>_resume\<close>.  The configuration is one processor, \<^verbatim>\<open>CONFIG_SCHED_DUMB\<close>, \<^verbatim>\<open>CONFIG_WAITQ_DUMB\<close>, time slicing,
  no user mode and no polling.  Spin locks mask interrupts on one processor, so the code between lock and unlock is one step.

  \<^bold>\<open>The theories of the kernel.\<close>
  \<^item> \<open>Zprelude\<close>: error values, word widths, and the lemmas on ordered insertion and flags the components share.
  \<^item> \<open>Sys_Dlist\<close> (\<^verbatim>\<open>include/zephyr/sys/dlist.h\<close>): the doubly-linked lists on an explicit store of pointers, and that each operation
    implements the one on sequences.
  \<^item> \<open>Kernel_State\<close>: \<^verbatim>\<open>struct k_thread\<close> and \<^verbatim>\<open>struct z_kernel\<close> as records, and \<^verbatim>\<open>kthread.h\<close>.
  \<^item> \<open>Timeout\<close> (\<^verbatim>\<open>kernel/timeout.c\<close>): the delta list and \<^verbatim>\<open>sys_clock_announce\<close>.  \<open>Sched_Clock\<close> proves that announcing ticks calls
    exactly the timeouts that are due, at their tick and in order; the interface to expiry functions is a locale.
  \<^item> \<open>Prio_Queue\<close> (\<^verbatim>\<open>kernel/priority_queues.c\<close>, \<^verbatim>\<open>kernel/include/priority_q.h\<close>): the list and the multi-queue implementation, the
    refinement of the list by pointers and the equivalence of the two.
  \<^item> \<open>Sched\<close> (\<^verbatim>\<open>kernel/sched.c\<close>, \<^verbatim>\<open>kernel/timeslicing.c\<close>, \<^verbatim>\<open>kernel/thread.c\<close>): all scheduler operations.  \<open>Sched_Inv\<close> and \<open>Sched_Safe\<close> define
    the invariant \<open>kernel_ok_but\<close> and prove that the operations keep it and that the waking loops return.
  \<^item> \<open>Kernel_Init\<close> (\<^verbatim>\<open>kernel/init.c\<close>): the start up to the main thread.  \<open>Kernel_Steps\<close>: the calls, interrupts and ticks as a step
    relation, the states reachable from the start, and what holds in them: the queues agree with the states of the
    threads, an interrupt returns to the best ready thread, and yielding lets threads of equal priority run.
    \<open>Kernel_Types\<close>: priorities stay in the range of their C type.
  \<^item> \<open>Device\<close> (\<^verbatim>\<open>kernel/device.c\<close>, \<^verbatim>\<open>kernel/init.c\<close>): init levels, initialisation and lookup of devices.
  \<^item> \<open>Kernel_Object\<close>: what the rest of the kernel may do to the threads waiting for an object, and the locale \<open>kernel_object\<close>:
    an object whose calls keep an invariant keeps it under every interleaving with the kernel steps.  Semaphores,
    mutexes, message queues, events, stacks and slabs interpret it.  \<open>Kernel_Mem\<close>: the byte memory.

  \<^bold>\<open>The kernel objects\<close>, one theory for each file of \<^verbatim>\<open>kernel/\<close>:
  \<^item> \<open>Sem\<close>: the count stays within the limit; giving wakes the first waiting thread or counts.
  \<^item> \<open>Mutex\<close> (with condition variables): the owner and the lock count agree, unlocking hands over to the first waiting thread,
    priority inheritance, a wait on a condition variable is atomic (and does not release a mutex locked
    several times), broadcasting wakes all; and a time-out can lower the owner below its original priority.
  \<^item> \<open>Msgq\<close>: sending and receiving implement a bounded queue of messages, inside the buffer, and purging wakes all.
  \<^item> \<open>Events\<close>: no thread waits for all of its events while all are present, or for any while one is; a post wakes exactly the
    threads it satisfies.
  \<^item> \<open>Stack\<close>: a bounded last-in first-out stack.  \<open>Mem_Slab\<close>: a block is never handed out twice, free blocks are conserved,
    and a waiting thread gets the block that is freed.
  \<^item> \<open>Timer\<close>: a periodic timer expires at every multiple of its period; a timer that
    expires after another one on the last announced tick is armed late by the ticks the hardware has counted.
  \<^item> \<open>Futex\<close>: a wake-up reaches exactly the threads it counts, and they return 0.

  \<^bold>\<open>The libraries.\<close>  \<open>Math_Extras\<close> (\<^verbatim>\<open>sys/math_extras_impl.h\<close>): the overflow flags are exact.  \<open>Ring_Buffer\<close> (\<^verbatim>\<open>lib/utils/ring_buffer.c\<close>): bytes and
  items form a queue, also across the wrap-around of the positions.  \<open>Encoding\<close> (\<^verbatim>\<open>hex.c\<close>, \<^verbatim>\<open>dec.c\<close>, \<^verbatim>\<open>utf8.c\<close>), \<open>Base64\<close> (\<^verbatim>\<open>base64.c\<close>): round
  trips, bounds and what is accepted.  \<open>Crc\<close> (\<^verbatim>\<open>lib/crc\<close>): the table-driven and tuned checksums agree with the bitwise ones.
  \<open>Timeutil\<close> (\<^verbatim>\<open>timeutil.c\<close>): the seconds of a date follow the Gregorian calendar.

  \<^bold>\<open>Loops.\<close>  No fuel is used.  Loops over kernel state are \<open>partial_function (option)\<close>, where \<open>None\<close> means that the loop does not end, and
  the theorems prove that they return \<open>Some\<close>; all other recursion is structural or has a termination proof.

  \<^bold>\<open>Parameters.\<close>  The allocator of \<open>Msgq\<close> and \<open>Stack\<close>, the callbacks of timers (locale \<open>timer_callback\<close>), the init functions of drivers
  and the object table of \<open>Futex\<close> are arguments of the definitions.

  \<^bold>\<open>Not modelled.\<close>  Multiprocessing, user mode, memory management, architecture code and drivers depend on hardware, or on code the build
  generates.  Polling, object cores, usage statistics and tracing are configured off.  The heap is a parameter.  The clock
  synchronisation of \<^verbatim>\<open>timeutil.c\<close> computes with floating-point numbers, which are not modelled here.
  Pipes, mailboxes, queues of list nodes, work queues, the red-black tree and the other libraries and subsystems are
  clients of the modelled kernel, or independent of it, and have no theory.  The deadline and red-black-tree variants of
  the run queue are configured off.
\<close>

end
